(* ===== verification/Prelude.thy ===== *)
theory Prelude
  imports "HOL-Library.Word"
begin

text \<open>
  Shared vocabulary of the Sxaint development: the machine integers of the C++ sources, the
  failures a call can end in, the little-endian memory image of an integer that
  \<^verbatim>\<open>memcpy\<close> reads and writes on the only supported platform (x86-64 Windows), and the
  two interfaces used throughout: fixed-width byte codecs and transition systems with an
  invariant.
\<close>

unbundle bit_operations_syntax

named_theorems codec_simps \<open>length and decoding laws of the byte codecs\<close>
named_theorems frame_simps \<open>fields an operation leaves alone\<close>

type_synonym byte = "8 word"
type_synonym u16 = "16 word"
type_synonym u32 = "32 word"
type_synonym u64 = "64 word"

subsection \<open>Failures\<close>

text \<open>
  \<open>Throw\<close> is a C++ exception with its message.  The other three are the undefined behaviours
  the sources can run into: an index outside a vector, span or buffer, a division by zero, and
  a construction whose C++ precondition is broken.
\<close>

datatype failure =
    Throw string
  | OutOfBounds
  | DivideByZero
  | BrokenPrecondition

type_synonym 'a result = "failure + 'a"

primrec bind_result :: "'a result \<Rightarrow> ('a \<Rightarrow> 'b result) \<Rightarrow> 'b result" where
  "bind_result (Inl e) f = Inl e"
| "bind_result (Inr x) f = f x"

lemma bind_result_Inr_iff:
  "bind_result r f = Inr y \<longleftrightarrow> (\<exists>x. r = Inr x \<and> f x = Inr y)"
  by (cases r) auto

subsection \<open>Little-endian images of unsigned integers\<close>

fun le_enc :: "nat \<Rightarrow> nat \<Rightarrow> byte list" where
  "le_enc 0 v = []"
| "le_enc (Suc n) v = word_of_nat v # le_enc n (v div 256)"

fun le_val :: "byte list \<Rightarrow> nat" where
  "le_val [] = 0"
| "le_val (b # bs) = unat b + 256 * le_val bs"

definition put16 :: "u16 \<Rightarrow> byte list" where
  "put16 w = le_enc 2 (unat w)"

definition put32 :: "u32 \<Rightarrow> byte list" where
  "put32 w = le_enc 4 (unat w)"

definition put64 :: "u64 \<Rightarrow> byte list" where
  "put64 w = le_enc 8 (unat w)"

definition get16 :: "byte list \<Rightarrow> u16" where
  "get16 bs = word_of_nat (le_val (take 2 bs))"

definition get32 :: "byte list \<Rightarrow> u32" where
  "get32 bs = word_of_nat (le_val (take 4 bs))"

definition get64 :: "byte list \<Rightarrow> u64" where
  "get64 bs = word_of_nat (le_val (take 8 bs))"

lemma unat_less_width: "unat (w :: 'a::len word) < 2 ^ LENGTH('a)"
  by (rule unsigned_less)

lemma unat_byte_less: "unat (b :: byte) < 256"
  using unat_less_width [of b] by simp

lemma unat_word_of_nat_byte: "unat (word_of_nat n :: byte) = n mod 256"
  by (simp add: unat_of_nat)

lemma unat_ucast_small:
  assumes "unat w < 2 ^ LENGTH('b::len)"
  shows "unat (ucast w :: 'b word) = unat (w :: 'a::len word)"
  using assms by (simp add: unsigned_ucast_eq take_bit_nat_eq_self)

lemma unat_word_of_nat_small:
  assumes "n < 2 ^ LENGTH('a::len)"
  shows "unat (word_of_nat n :: 'a word) = n"
  using assms by (simp add: unat_of_nat)

lemma word_of_nat_unat_ucast: "(word_of_nat (unat w) :: 'b::len word) = ucast (w :: 'a::len word)"
  by (rule unsigned_word_eqI) (simp add: unsigned_ucast_eq unat_of_nat take_bit_eq_mod)

lemma sint_word_of_int_small:
  assumes "- (2 ^ 31) \<le> k" and "k < 2 ^ 31"
  shows "sint (word_of_int k :: u32) = k"
  using assms by (simp add: sint_sbintrunc' signed_take_bit_int_eq_self)

lemma le_enc_numeral:
  "le_enc (numeral k) v = word_of_nat v # le_enc (pred_numeral k) (v div 256)"
  by (simp only: numeral_eq_Suc le_enc.simps)

lemma length_le_enc [simp]: "length (le_enc n v) = n"
  by (induction n arbitrary: v) auto

lemma le_val_le_enc: "le_val (le_enc n v) = v mod 256 ^ n"
proof (induction n arbitrary: v)
  case 0
  then show ?case by simp
next
  case (Suc n)
  have "v mod 256 ^ Suc n = 256 * (v div 256 mod 256 ^ n) + v mod 256"
    by (simp add: mod_mult2_eq)
  then show ?case
    by (simp add: Suc.IH unat_of_nat)
qed

lemma le_val_bound: "le_val bs < 256 ^ length bs"
proof (induction bs)
  case Nil
  then show ?case by simp
next
  case (Cons b bs)
  have "unat b < 256" by (rule unat_byte_less)
  with Cons.IH show ?case by simp
qed

lemma le_enc_le_val: "le_enc (length bs) (le_val bs) = bs"
proof (induction bs)
  case Nil
  then show ?case by simp
next
  case (Cons b bs)
  have b: "unat b < 256" by (rule unat_byte_less)
  have "(unat b + 256 * le_val bs) div 256 = le_val bs"
    using b by simp
  moreover have "(word_of_nat (unat b + 256 * le_val bs) :: byte) = b"
  proof -
    have "unat (word_of_nat (unat b + 256 * le_val bs) :: byte) = unat b"
      using b by (simp only: unat_word_of_nat_byte) simp
    then show ?thesis by (rule unsigned_word_eqI)
  qed
  ultimately show ?case using Cons.IH by simp
qed

lemma length_put [simp, codec_simps]:
  "length (put16 a) = 2" "length (put32 b) = 4" "length (put64 c) = 8"
  by (simp_all add: put16_def put32_def put64_def)

lemma get16_put16 [simp, codec_simps]: "get16 (put16 w @ r) = w"
  using unat_less_width [of w] by (simp add: get16_def put16_def le_val_le_enc)

lemma get32_put32 [simp, codec_simps]: "get32 (put32 w @ r) = w"
  using unat_less_width [of w] by (simp add: get32_def put32_def le_val_le_enc)

lemma get64_put64 [simp, codec_simps]: "get64 (put64 w @ r) = w"
  using unat_less_width [of w] by (simp add: get64_def put64_def le_val_le_enc)

subsection \<open>Interface: fixed-width codecs\<close>

text \<open>
  What every packed structure of the wire formats promises: a fixed width and that decoding the
  front of a buffer gives back what was encoded there.  \<open>ok\<close> restricts the values for
  structures with array members.
\<close>

locale byte_codec =
  fixes width :: nat
    and enc :: "'a \<Rightarrow> byte list"
    and dec :: "byte list \<Rightarrow> 'a"
    and ok :: "'a \<Rightarrow> bool"
  assumes length_enc: "ok x \<Longrightarrow> length (enc x) = width"
    and dec_enc: "ok x \<Longrightarrow> dec (enc x @ r) = x"
begin

lemma split_enc:
  assumes "ok x"
  shows "take width (enc x @ r) = enc x" and "drop width (enc x @ r) = r"
  using length_enc [OF assms] by simp_all

lemma enc_cancel:
  assumes "ok x" and "ok y" and eq: "enc x @ r = enc y @ s"
  shows "x = y \<and> r = s"
proof
  have "dec (enc x @ r) = dec (enc y @ s)" using eq by simp
  with assms(1,2) show "x = y" by (simp add: dec_enc)
  have "drop width (enc x @ r) = drop width (enc y @ s)" using eq by simp
  with assms(1,2) show "r = s" by (simp only: split_enc)
qed

lemma enc_inject:
  assumes "ok x" and "ok y" and "enc x = enc y"
  shows "x = y"
  using enc_cancel [of x y "[]" "[]"] assms by simp

end

interpretation le16: byte_codec 2 put16 get16 "\<lambda>_. True"
  by unfold_locales simp_all

interpretation le32: byte_codec 4 put32 get32 "\<lambda>_. True"
  by unfold_locales simp_all

interpretation le64: byte_codec 8 put64 get64 "\<lambda>_. True"
  by unfold_locales simp_all

lemma drop_put [simp, codec_simps]:
  "drop 2 (put16 a @ r) = r" "drop 4 (put32 b @ r) = r" "drop 8 (put64 c @ r) = r"
  by (simp_all add: le16.split_enc le32.split_enc le64.split_enc)

text \<open>A 32-bit value below \<open>2 ^ 31\<close> reads the same as signed and as unsigned.\<close>

lemma sint_small:
  assumes "unat (w :: u32) < 2 ^ 31"
  shows "sint w = int (unat w)"
proof -
  have "int (unat w) < int (2 ^ 31)" using assms by (simp only: of_nat_less_iff)
  then have "sint (word_of_int (int (unat w)) :: u32) = int (unat w)"
    by (intro sint_word_of_int_small) (simp_all del: of_nat_unat)
  then show ?thesis by simp
qed

subsection \<open>Interface: transition systems with an invariant\<close>

locale invariant_system =
  fixes start :: "'s \<Rightarrow> bool"
    and step :: "'s \<Rightarrow> 's \<Rightarrow> bool"
    and inv :: "'s \<Rightarrow> bool"
  assumes start_inv: "start s \<Longrightarrow> inv s"
    and step_inv: "inv s \<Longrightarrow> step s t \<Longrightarrow> inv t"
begin

lemma run_inv:
  assumes "step\<^sup>*\<^sup>* s t" and "inv s"
  shows "inv t"
  using assms by (induction rule: rtranclp_induct) (auto intro: step_inv)

lemma reachable_inv:
  assumes "start s" and "step\<^sup>*\<^sup>* s t"
  shows "inv t"
  using assms(2) start_inv [OF assms(1)] by (rule run_inv)

end

end
