(* ===== verification/Strings.thy ===== *)
theory Strings
  imports Prelude
begin

text \<open>
  The parts of the C++ string and path library the sources use: \<open>std::to_string\<close> on unsigned
  integers, C strings in fixed character arrays (\<open>strncpy\<close> and the constructor from a
  NUL-terminated array), \<open>std::getline\<close> with a delimiter, and the lexical decomposition of a
  Windows path into directory, stem and extension.
\<close>

subsection \<open>Decimal numbers\<close>

definition digit_char :: "nat \<Rightarrow> char" where
  "digit_char d = char_of (48 + d)"

fun to_string :: "nat \<Rightarrow> string" where
  "to_string n = (if n < 10 then [digit_char n] else to_string (n div 10) @ [digit_char (n mod 10)])"

declare to_string.simps [simp del]

fun digits_value :: "string \<Rightarrow> nat" where
  "digits_value s = foldl (\<lambda>v c. 10 * v + (of_char c - 48)) 0 s"

declare digits_value.simps [simp del]

lemma of_char_digit: "d < 10 \<Longrightarrow> of_char (digit_char d) = 48 + d"
  by (simp add: digit_char_def)

lemma digits_value_to_string: "digits_value (to_string n) = n"
proof (induction n rule: to_string.induct)
  case (1 n)
  show ?case
  proof (cases "n < 10")
    case True
    then show ?thesis by (simp add: to_string.simps [of n] digits_value.simps of_char_digit)
  next
    case False
    with 1 have "digits_value (to_string (n div 10)) = n div 10" by simp
    then show ?thesis using False
      by (simp add: to_string.simps [of n] digits_value.simps of_char_digit)
  qed
qed

lemma to_string_inject: "to_string m = to_string n \<longleftrightarrow> m = n"
  by (metis digits_value_to_string)

lemma to_string_digits: "list_all (\<lambda>c. 48 \<le> (of_char c :: nat) \<and> (of_char c :: nat) < 58) (to_string n)"
proof (induction n rule: to_string.induct)
  case (1 n)
  then show ?case
    by (cases "n < 10") (auto simp: to_string.simps [of n] of_char_digit)
qed

lemma to_string_nonempty: "to_string n \<noteq> []"
  by (simp add: to_string.simps [of n])

subsection \<open>Characters and bytes\<close>

definition bytes_of_string :: "string \<Rightarrow> byte list" where
  "bytes_of_string s = map of_char s"

definition string_of_bytes :: "byte list \<Rightarrow> string" where
  "string_of_bytes bs = map (\<lambda>b. char_of (unat b)) bs"

lemma string_of_bytes_of_string [simp]: "string_of_bytes (bytes_of_string s) = s"
proof -
  have "char_of (unat (of_char c :: byte)) = c" for c :: char
  proof -
    have "(of_char c :: byte) = word_of_nat (of_char c)" by (simp only: of_nat_of_char)
    then have "unat (of_char c :: byte) = of_char c"
      by (simp only: unat_word_of_nat_byte of_char_mod_256)
    then show ?thesis by simp
  qed
  then show ?thesis by (simp add: string_of_bytes_def bytes_of_string_def o_def map_idI)
qed

lemma bytes_of_string_inject: "bytes_of_string s = bytes_of_string t \<longleftrightarrow> s = t"
  by (metis string_of_bytes_of_string)

subsection \<open>C strings in fixed arrays\<close>

text \<open>\<open>strncpy (field, s, n - 1)\<close> into a zero-initialised array of \<open>n\<close> characters, and reading such
  an array back as a NUL-terminated string; an array without a NUL is read past its end.\<close>

definition cstr_put :: "nat \<Rightarrow> byte list \<Rightarrow> byte list" where
  "cstr_put n s =
     (let t = take (n - 1) (takeWhile (\<lambda>b. b \<noteq> 0) s) in t @ replicate (n - length t) 0)"

definition cstr_get :: "byte list \<Rightarrow> byte list result" where
  "cstr_get field = (if 0 \<in> set field then Inr (takeWhile (\<lambda>b. b \<noteq> 0) field) else Inl OutOfBounds)"

lemma length_cstr_put [simp]: "0 < n \<Longrightarrow> length (cstr_put n s) = n"
  by (simp add: cstr_put_def Let_def)

lemma cstr_get_put:
  assumes "0 < n" and "0 \<notin> set s"
  shows "cstr_get (cstr_put n s) = Inr (take (n - 1) s)"
proof -
  have s: "takeWhile (\<lambda>b. b \<noteq> 0) s = s" using assms(2) by (auto simp: takeWhile_eq_all_conv)
  have "\<forall>b\<in>set (take (n - 1) s). b \<noteq> 0" using assms(2) by (auto dest: in_set_takeD)
  then have "takeWhile (\<lambda>b. b \<noteq> 0) (take (n - 1) s @ replicate m 0) = take (n - 1) s" for m
    by (cases m) (auto simp: takeWhile_append2)
  moreover have "0 \<in> set (take (n - 1) s @ replicate (n - length (take (n - 1) s)) 0)"
    using assms(1) by auto
  ultimately show ?thesis by (simp only: cstr_get_def cstr_put_def Let_def s if_True)
qed

subsection \<open>Splitting at a delimiter\<close>

text \<open>\<open>std::getline (stream, item, d)\<close>: fails at the end of the input, otherwise extracts up to the
  delimiter and drops it.\<close>

definition getline :: "char \<Rightarrow> string \<Rightarrow> (string \<times> string) option" where
  "getline d s =
     (if s = [] then None
      else Some (takeWhile (\<lambda>c. c \<noteq> d) s, drop (Suc (length (takeWhile (\<lambda>c. c \<noteq> d) s))) s))"

lemma getline_shorter: "getline d s = Some (item, rest) \<Longrightarrow> length rest < length s"
  by (cases s) (auto simp: getline_def split: if_splits)

function getlines :: "char \<Rightarrow> string \<Rightarrow> string list" where
  "getlines d s =
     (case getline d s of None \<Rightarrow> [] | Some (item, rest) \<Rightarrow> item # getlines d rest)"
  by pat_completeness auto
termination
  by (relation "measure (\<lambda>(d, s). length s)") (auto dest: getline_shorter)

declare getlines.simps [simp del]

fun join :: "char \<Rightarrow> string list \<Rightarrow> string" where
  "join d [] = []"
| "join d [x] = x"
| "join d (x # y # zs) = x @ d # join d (y # zs)"

lemma getline_item:
  assumes "d \<notin> set x"
  shows "getline d (x @ d # rest) = Some (x, rest)"
    and "x \<noteq> [] \<Longrightarrow> getline d x = Some (x, [])"
proof -
  have x: "takeWhile (\<lambda>c. c \<noteq> d) x = x" using assms by (auto simp: takeWhile_eq_all_conv)
  have "takeWhile (\<lambda>c. c \<noteq> d) (x @ d # rest) = x"
    using assms by (subst takeWhile_append2) auto
  then show "getline d (x @ d # rest) = Some (x, rest)" by (simp add: getline_def)
  show "x \<noteq> [] \<Longrightarrow> getline d x = Some (x, [])" by (simp add: getline_def x)
qed

lemma getlines_join:
  assumes "\<forall>x\<in>set xs. d \<notin> set x \<and> x \<noteq> []"
  shows "getlines d (join d xs) = xs"
  using assms
proof (induction d xs rule: join.induct)
  case (1 d)
  then show ?case by (simp add: getlines.simps getline_def)
next
  case (2 d x)
  then show ?case by (simp add: getlines.simps [of d x] getlines.simps [of d "[]"] getline_item)
      (simp add: getline_def)
next
  case (3 d x y zs)
  then show ?case by (simp add: getlines.simps [of d "x @ d # join d (y # zs)"] getline_item)
qed

subsection \<open>Windows paths\<close>

definition is_sep :: "char \<Rightarrow> bool" where
  "is_sep c \<longleftrightarrow> c = CHR ''/'' \<or> c = CHR 0x5C"

definition path_filename :: "string \<Rightarrow> string" where
  "path_filename p = rev (takeWhile (\<lambda>c. \<not> is_sep c) (rev p))"

definition path_extension :: "string \<Rightarrow> string" where
  "path_extension p =
     (let f = path_filename p; t = takeWhile (\<lambda>c. c \<noteq> CHR ''.'') (rev f)
      in if f = ''.'' \<or> f = ''..'' \<or> length f \<le> Suc (length t) then []
         else CHR ''.'' # rev t)"

definition path_stem :: "string \<Rightarrow> string" where
  "path_stem p = take (length (path_filename p) - length (path_extension p)) (path_filename p)"

definition root_name :: "string \<Rightarrow> string" where
  "root_name p = (if 2 \<le> length p \<and> p ! 1 = CHR '':'' then take 2 p else [])"

definition has_root_directory :: "string \<Rightarrow> bool" where
  "has_root_directory p =
     (case drop (length (root_name p)) p of [] \<Rightarrow> False | c # _ \<Rightarrow> is_sep c)"

definition path_append :: "string \<Rightarrow> string \<Rightarrow> string" where
  "path_append p q =
     (if root_name q \<noteq> [] \<and> (has_root_directory q \<or> root_name q \<noteq> root_name p) then q
      else if has_root_directory q then root_name p @ drop (length (root_name q)) q
      else (if p = [] \<or> is_sep (last p) then p else p @ [CHR 0x5C]) @ drop (length (root_name q)) q)"

lemma path_stem_extension: "path_stem p @ path_extension p = path_filename p"
proof -
  let ?f = "path_filename p" let ?t = "takeWhile (\<lambda>c. c \<noteq> CHR ''.'') (rev ?f)"
  show ?thesis
  proof (cases "?f = ''.'' \<or> ?f = ''..'' \<or> length ?f \<le> Suc (length ?t)")
    case True
    then show ?thesis by (simp add: path_stem_def path_extension_def Let_def)
  next
    case False
    then have lt: "length ?t < length (rev ?f)" by simp
    then have "rev ?f ! length ?t = CHR ''.''" using nth_length_takeWhile by blast
    then have "rev ?f = ?t @ CHR ''.'' # drop (Suc (length ?t)) (rev ?f)"
      using lt by (metis id_take_nth_drop takeWhile_eq_take)
    then have f: "?f = rev (drop (Suc (length ?t)) (rev ?f)) @ CHR ''.'' # rev ?t"
      by (metis append.assoc append_Cons append_Nil rev.simps(2) rev_append rev_rev_ident)
    then have "drop (length ?f - Suc (length ?t)) ?f = CHR ''.'' # rev ?t"
      by (metis add_diff_cancel_right' append_eq_conv_conj length_Cons length_append length_rev)
    with False show ?thesis
      by (simp add: path_stem_def path_extension_def Let_def) (metis append_take_drop_id)
  qed
qed

lemma path_filename_no_sep: "\<forall>c\<in>set (path_filename p). \<not> is_sep c"
  by (auto simp: path_filename_def dest: set_takeWhileD)

end
