(* ===== verification/Hasher.thy ===== *)
theory Hasher
  imports Prelude
begin

text \<open>
  The CRC-32 of \<^verbatim>\<open>src/core/hasher.cpp\<close>: the 256-entry table exactly as the source lists it,
  the table-driven \<open>crc32\<close> and the unused \<open>combine_crc32\<close>.  The lemmas relate the table to the
  bitwise CRC of the reflected polynomial 0xEDB88320, show that the table-driven loop computes
  that CRC, and that a burst of up to four damaged bytes is always detected.
\<close>

subsection \<open>The code\<close>

definition crc32_table :: "u32 list" where
  "crc32_table = [
    0x00000000, 0x77073096, 0xee0e612c, 0x990951ba, 0x076dc419, 0x706af48f,
    0xe963a535, 0x9e6495a3, 0x0edb8832, 0x79dcb8a4, 0xe0d5e91e, 0x97d2d988,
    0x09b64c2b, 0x7eb17cbd, 0xe7b82d07, 0x90bf1d91, 0x1db71064, 0x6ab020f2,
    0xf3b97148, 0x84be41de, 0x1adad47d, 0x6ddde4eb, 0xf4d4b551, 0x83d385c7,
    0x136c9856, 0x646ba8c0, 0xfd62f97a, 0x8a65c9ec, 0x14015c4f, 0x63066cd9,
    0xfa0f3d63, 0x8d080df5, 0x3b6e20c8, 0x4c69105e, 0xd56041e4, 0xa2677172,
    0x3c03e4d1, 0x4b04d447, 0xd20d85fd, 0xa50ab56b, 0x35b5a8fa, 0x42b2986c,
    0xdbbbc9d6, 0xacbcf940, 0x32d86ce3, 0x45df5c75, 0xdcd60dcf, 0xabd13d59,
    0x26d930ac, 0x51de003a, 0xc8d75180, 0xbfd06116, 0x21b4f4b5, 0x56b3c423,
    0xcfba9599, 0xb8bda50f, 0x2802b89e, 0x5f058808, 0xc60cd9b2, 0xb10be924,
    0x2f6f7c87, 0x58684c11, 0xc1611dab, 0xb6662d3d, 0x76dc4190, 0x01db7106,
    0x98d220bc, 0xefd5102a, 0x71b18589, 0x06b6b51f, 0x9fbfe4a5, 0xe8b8d433,
    0x7807c9a2, 0x0f00f934, 0x9609a88e, 0xe10e9818, 0x7f6a0dbb, 0x086d3d2d,
    0x91646c97, 0xe6635c01, 0x6b6b51f4, 0x1c6c6162, 0x856530d8, 0xf262004e,
    0x6c0695ed, 0x1b01a57b, 0x8208f4c1, 0xf50fc457, 0x65b0d9c6, 0x12b7e950,
    0x8bbeb8ea, 0xfcb9887c, 0x62dd1ddf, 0x15da2d49, 0x8cd37cf3, 0xfbd44c65,
    0x4db26158, 0x3ab551ce, 0xa3bc0074, 0xd4bb30e2, 0x4adfa541, 0x3dd895d7,
    0xa4d1c46d, 0xd3d6f4fb, 0x4369e96a, 0x346ed9fc, 0xad678846, 0xda60b8d0,
    0x44042d73, 0x33031de5, 0xaa0a4c5f, 0xdd0d7cc9, 0x5005713c, 0x270241aa,
    0xbe0b1010, 0xc90c2086, 0x5768b525, 0x206f85b3, 0xb966d409, 0xce61e49f,
    0x5edef90e, 0x29d9c998, 0xb0d09822, 0xc7d7a8b4, 0x59b33d17, 0x2eb40d81,
    0xb7bd5c3b, 0xc0ba6cad, 0xedb88320, 0x9abfb3b6, 0x03b6e20c, 0x74b1d29a,
    0xead54739, 0x9dd277af, 0x04db2615, 0x73dc1683, 0xe3630b12, 0x94643b84,
    0x0d6d6a3e, 0x7a6a5aa8, 0xe40ecf0b, 0x9309ff9d, 0x0a00ae27, 0x7d079eb1,
    0xf00f9344, 0x8708a3d2, 0x1e01f268, 0x6906c2fe, 0xf762575d, 0x806567cb,
    0x196c3671, 0x6e6b06e7, 0xfed41b76, 0x89d32be0, 0x10da7a5a, 0x67dd4acc,
    0xf9b9df6f, 0x8ebeeff9, 0x17b7be43, 0x60b08ed5, 0xd6d6a3e8, 0xa1d1937e,
    0x38d8c2c4, 0x4fdff252, 0xd1bb67f1, 0xa6bc5767, 0x3fb506dd, 0x48b2364b,
    0xd80d2bda, 0xaf0a1b4c, 0x36034af6, 0x41047a60, 0xdf60efc3, 0xa867df55,
    0x316e8eef, 0x4669be79, 0xcb61b38c, 0xbc66831a, 0x256fd2a0, 0x5268e236,
    0xcc0c7795, 0xbb0b4703, 0x220216b9, 0x5505262f, 0xc5ba3bbe, 0xb2bd0b28,
    0x2bb45a92, 0x5cb36a04, 0xc2d7ffa7, 0xb5d0cf31, 0x2cd99e8b, 0x5bdeae1d,
    0x9b64c2b0, 0xec63f226, 0x756aa39c, 0x026d930a, 0x9c0906a9, 0xeb0e363f,
    0x72076785, 0x05005713, 0x95bf4a82, 0xe2b87a14, 0x7bb12bae, 0x0cb61b38,
    0x92d28e9b, 0xe5d5be0d, 0x7cdcefb7, 0x0bdbdf21, 0x86d3d2d4, 0xf1d4e242,
    0x68ddb3f8, 0x1fda836e, 0x81be16cd, 0xf6b9265b, 0x6fb077e1, 0x18b74777,
    0x88085ae6, 0xff0f6a70, 0x66063bca, 0x11010b5c, 0x8f659eff, 0xf862ae69,
    0x616bffd3, 0x166ccf45, 0xa00ae278, 0xd70dd2ee, 0x4e048354, 0x3903b3c2,
    0xa7672661, 0xd06016f7, 0x4969474d, 0x3e6e77db, 0xaed16a4a, 0xd9d65adc,
    0x40df0b66, 0x37d83bf0, 0xa9bcae53, 0xdebb9ec5, 0x47b2cf7f, 0x30b5ffe9,
    0xbdbdf21c, 0xcabac28a, 0x53b39330, 0x24b4a3a6, 0xbad03605, 0xcdd70693,
    0x54de5729, 0x23d967bf, 0xb3667a2e, 0xc4614ab8, 0x5d681b02, 0x2a6f2b94,
    0xb40bbe37, 0xc30c8ea1, 0x5a05df1b, 0x2d02ef8d]"

definition crc32_step :: "u32 \<Rightarrow> byte \<Rightarrow> u32" where
  "crc32_step crc b =
     drop_bit 8 crc XOR crc32_table ! unat ((crc XOR ucast b) AND 0xFF)"

definition crc32 :: "byte list \<Rightarrow> u32" where
  "crc32 data = foldl crc32_step 0xFFFFFFFF data XOR 0xFFFFFFFF"

definition combine_crc32 :: "u32 \<Rightarrow> u32 \<Rightarrow> u64 \<Rightarrow> u32" where
  "combine_crc32 crc_1 crc_2 len_2 = crc_1 XOR crc_2"

subsection \<open>Reference: one bit at a time\<close>

definition crc_bit :: "u32 \<Rightarrow> u32" where
  "crc_bit c = (if bit c 0 then drop_bit 1 c XOR 0xEDB88320 else drop_bit 1 c)"

definition crc_bits :: "nat \<Rightarrow> u32 \<Rightarrow> u32" where
  "crc_bits n = crc_bit ^^ n"

definition crc32_reference :: "byte list \<Rightarrow> u32" where
  "crc32_reference data =
     foldl (\<lambda>c b. crc_bits 8 (c XOR ucast b)) 0xFFFFFFFF data XOR 0xFFFFFFFF"


subsection \<open>Linearity and injectivity of the bit step\<close>

lemma crc_bit_xor: "crc_bit (a XOR b) = crc_bit a XOR crc_bit b"
  by (cases "bit a 0"; cases "bit b 0")
    (simp_all add: crc_bit_def bit_simps drop_bit_xor ac_simps)

lemma crc_bits_0 [simp]: "crc_bits 0 c = c"
  by (simp add: crc_bits_def)

lemma crc_bits_Suc: "crc_bits (Suc n) c = crc_bits n (crc_bit c)"
  by (simp add: crc_bits_def funpow_swap1)

lemma crc_bits_add: "crc_bits (m + n) c = crc_bits n (crc_bits m c)"
  by (induction m arbitrary: c) (simp_all add: crc_bits_Suc)

lemma crc_bits_xor: "crc_bits n (a XOR b) = crc_bits n a XOR crc_bits n b"
  by (induction n arbitrary: a b) (simp_all add: crc_bits_Suc crc_bit_xor)

lemma crc_bit_top: "bit (crc_bit c) 31 \<longleftrightarrow> bit c 0"
proof -
  have "bit (0xEDB88320 :: u32) 31" by simp
  moreover have "\<not> bit (drop_bit 1 c) 31"
    using bit_imp_le_length [of c 32] by (auto simp: bit_drop_bit_eq)
  ultimately show ?thesis by (simp add: crc_bit_def bit_xor_iff del: bit_numeral_iff)
qed

lemma crc_bit_eq_0: "crc_bit c = 0 \<Longrightarrow> c = 0"
proof -
  assume c: "crc_bit c = 0"
  then have b0: "\<not> bit c 0" using crc_bit_top [of c] by simp
  with c have d: "drop_bit 1 c = 0" by (simp add: crc_bit_def)
  have "\<not> bit c n" for n
    using b0 d bit_drop_bit_eq [of 1 c] by (cases n) (auto simp: fun_eq_iff)
  then show "c = 0" by (simp add: bit_eq_iff)
qed

lemma crc_bits_eq_0: "crc_bits n c = 0 \<Longrightarrow> c = 0"
  by (induction n arbitrary: c) (auto simp: crc_bits_Suc dest: crc_bit_eq_0)

lemma xor_eq_0_word: "a XOR b = (0 :: 'a::len word) \<longleftrightarrow> a = b"
  by (auto simp: bit_eq_iff bit_simps)

lemma xor_right_cancel: "a XOR c = b XOR c \<longleftrightarrow> a = (b :: 'a::len word)"
proof -
  have "(a XOR c) XOR (b XOR c) = a XOR b"
    by (rule bit_word_eqI) (auto simp: bit_xor_iff)
  then show ?thesis by (metis xor_eq_0_word)
qed

lemma crc_bits_inject: "crc_bits n a = crc_bits n b \<longleftrightarrow> a = b"
proof
  assume "crc_bits n a = crc_bits n b"
  then have "crc_bits n (a XOR b) = 0" by (simp add: crc_bits_xor)
  then have "a XOR b = 0" by (rule crc_bits_eq_0)
  then show "a = b" by (simp only: xor_eq_0_word)
qed simp

lemma crc_bit_shift: "\<not> bit c 0 \<Longrightarrow> crc_bit c = drop_bit 1 c"
  by (simp add: crc_bit_def)

lemma crc_bits_shift: "(\<And>i. i < n \<Longrightarrow> \<not> bit c i) \<Longrightarrow> crc_bits n c = drop_bit n c"
proof (induction n arbitrary: c)
  case 0
  then show ?case by simp
next
  case (Suc n)
  have "crc_bit c = drop_bit 1 c" using Suc.prems [of 0] by (simp add: crc_bit_shift)
  moreover have "crc_bits n (drop_bit 1 c) = drop_bit n (drop_bit 1 c)"
    by (rule Suc.IH) (use Suc.prems in \<open>simp add: bit_drop_bit_eq\<close>)
  ultimately show ?case by (simp add: crc_bits_Suc)
qed

subsection \<open>The table\<close>

lemma crc_bits_eight:
  "crc_bits 8 c = crc_bit (crc_bit (crc_bit (crc_bit (crc_bit (crc_bit (crc_bit (crc_bit c)))))))"
  by (simp add: crc_bits_def eval_nat_numeral)

lemma crc_bits_powers:
  "crc_bits 8 1 = 0x77073096" "crc_bits 8 2 = 0xee0e612c" "crc_bits 8 4 = 0x076dc419"
  "crc_bits 8 8 = 0x0edb8832" "crc_bits 8 16 = 0x1db71064" "crc_bits 8 32 = 0x3b6e20c8"
  "crc_bits 8 64 = 0x76dc4190" "crc_bits 8 128 = 0xedb88320"
  by (simp_all add: crc_bits_eight crc_bit_def)

fun crc_rows :: "u32 list \<Rightarrow> u32 list \<Rightarrow> u32 list" where
  "crc_rows xs [] = xs"
| "crc_rows xs (t # ts) = crc_rows (xs @ map (\<lambda>x. x XOR t) xs) ts"

lemma word_of_nat_add_power:
  assumes "i < 2 ^ k"
  shows "(word_of_nat (i + 2 ^ k) :: 'a::len word) = word_of_nat i XOR 2 ^ k"
proof -
  have "\<not> bit i k" using assms by (simp add: bit_iff_odd)
  then have "(word_of_nat i :: 'a word) AND 2 ^ k = 0"
    by (intro bit_eqI) (auto simp: bit_simps)
  then show ?thesis by (simp add: disjunctive_add_eq_xor)
qed

lemma crc_rows_map:
  assumes "k \<le> m"
  shows "crc_rows (map (\<lambda>i. crc_bits 8 (word_of_nat i)) [0..<2 ^ k])
           (map (\<lambda>j. crc_bits 8 (2 ^ j)) [k..<m]) =
         map (\<lambda>i. crc_bits 8 (word_of_nat i)) [0..<2 ^ m]"
  using assms
proof (induction k rule: inc_induct)
  case base
  then show ?case by simp
next
  case (step k)
  let ?f = "\<lambda>i. crc_bits 8 (word_of_nat i)"
  have "map ?f [0..<2 ^ Suc k] =
        map ?f [0..<2 ^ k] @ map (\<lambda>x. x XOR crc_bits 8 (2 ^ k)) (map ?f [0..<2 ^ k])"
  proof -
    have "[0..<2 ^ Suc k] = [0..<2 ^ k] @ map (\<lambda>i. i + 2 ^ k) [0..<2 ^ k]"
      using upt_add_eq_append [of 0 "2 ^ k" "2 ^ k"] by (simp only: map_add_upt power_Suc mult_2)
    then have "map ?f [0..<2 ^ Suc k] = map ?f [0..<2 ^ k] @ map (\<lambda>i. ?f (i + 2 ^ k)) [0..<2 ^ k]"
      by (simp only: map_append map_map o_def)
    also have "map (\<lambda>i. ?f (i + 2 ^ k)) [0..<2 ^ k] = map (\<lambda>i. ?f i XOR crc_bits 8 (2 ^ k)) [0..<2 ^ k]"
      by (intro map_cong refl) (simp only: word_of_nat_add_power crc_bits_xor set_upt atLeastLessThan_iff)
    finally show ?thesis by (simp only: map_map o_def)
  qed
  then have "crc_rows (map ?f [0..<2 ^ k]) (map (\<lambda>j. crc_bits 8 (2 ^ j)) (k # [Suc k..<m])) =
      crc_rows (map ?f [0..<2 ^ Suc k]) (map (\<lambda>j. crc_bits 8 (2 ^ j)) [Suc k..<m])"
    by (simp only: list.map crc_rows.simps)
  with step show ?case by (simp only: upt_conv_Cons)
qed

lemma upt_0_7: "[0..<8] = [0, 1, 2, 3, 4, 5, 6, 7 :: nat]"
  by (simp add: upt_rec)

lemma crc_table_rows: "crc32_table = map (\<lambda>i. crc_bits 8 (word_of_nat i)) [0..<256]"
proof -
  have "map (\<lambda>i. crc_bits 8 (word_of_nat i)) [0..<2 ^ 0] = [0 :: u32]"
    by (simp add: crc_bits_shift)
  moreover have "map (\<lambda>j. crc_bits 8 (2 ^ j)) [0..<8] =
    [0x77073096, 0xee0e612c, 0x076dc419, 0x0edb8832, 0x1db71064, 0x3b6e20c8, 0x76dc4190, 0xedb88320]"
    by (simp add: upt_0_7 crc_bits_powers)
  moreover have "crc_rows [0] [0x77073096, 0xee0e612c, 0x076dc419, 0x0edb8832, 0x1db71064,
    0x3b6e20c8, 0x76dc4190, 0xedb88320] = crc32_table"
    by (simp add: crc32_table_def)
  ultimately show ?thesis using crc_rows_map [of 0 8] by simp
qed

lemma crc32_table_nth:
  assumes "i < 256"
  shows "crc32_table ! i = crc_bits 8 (word_of_nat i)"
  using assms by (simp add: crc_table_rows)

subsection \<open>The table-driven step is eight bit steps\<close>

lemma FF_mask: "(0xFF :: u32) = mask 8"
  by (simp add: mask_eq_exp_minus_1)

lemma split_low_byte: "x = (x AND mask 8) XOR (x AND NOT (mask 8))" for x :: u32
  by (rule bit_word_eqI) (auto simp: bit_and_iff bit_not_iff bit_xor_iff)

lemma crc32_step_bits: "crc32_step c b = crc_bits 8 (c XOR ucast b)"
proof -
  define x where "x = c XOR ucast b"
  have low: "unat (x AND mask 8) < 256"
    using word_and_le1 [of x "mask 8", THEN word_le_nat_alt [THEN iffD1]]
    by (simp add: mask_eq_exp_minus_1)
  have high: "crc_bits 8 (x AND NOT (mask 8)) = drop_bit 8 c"
  proof -
    have "crc_bits 8 (x AND NOT (mask 8)) = drop_bit 8 (x AND NOT (mask 8))"
      by (rule crc_bits_shift) (simp add: bit_and_iff bit_not_iff bit_mask_iff)
    also have "\<dots> = drop_bit 8 c"
      by (rule bit_word_eqI)
        (auto simp: x_def bit_drop_bit_eq bit_and_iff bit_not_iff bit_mask_iff bit_xor_iff
          bit_ucast_iff dest: bit_imp_le_length)
    finally show ?thesis .
  qed
  have "crc_bits 8 x = crc_bits 8 (x AND mask 8) XOR crc_bits 8 (x AND NOT (mask 8))"
    by (subst split_low_byte) (rule crc_bits_xor)
  with low high show ?thesis
    by (simp add: crc32_step_def FF_mask crc32_table_nth xor.commute flip: x_def)
qed

lemma crc32_eq_reference: "crc32 data = crc32_reference data"
proof -
  have "crc32_step = (\<lambda>c b. crc_bits 8 (c XOR ucast b))"
    by (simp add: fun_eq_iff crc32_step_bits)
  then show ?thesis by (simp add: crc32_def crc32_reference_def)
qed

subsection \<open>Bursts of at most four bytes\<close>

fun burst :: "byte list \<Rightarrow> u32" where
  "burst [] = 0"
| "burst (b # bs) = ucast b XOR push_bit 8 (burst bs)"

lemma bit_burst:
  "i < 32 \<Longrightarrow> bit (burst bs) i \<longleftrightarrow> i < 8 * length bs \<and> bit (bs ! (i div 8)) (i mod 8)"
proof (induction bs arbitrary: i)
  case Nil
  then show ?case by simp
next
  case (Cons b bs)
  show ?case
  proof (cases "i < 8")
    case True
    then show ?thesis by (simp add: bit_xor_iff bit_ucast_iff bit_push_bit_iff)
  next
    case False
    then have "\<not> bit b i" using bit_imp_le_length [of b i] by auto
    moreover have "i div 8 = Suc ((i - 8) div 8)" and "(i - 8) mod 8 = i mod 8"
      using False by (auto simp: le_div_geq le_mod_geq not_less)
    ultimately show ?thesis using False Cons.prems Cons.IH [of "i - 8"]
      by (auto simp: bit_xor_iff bit_ucast_iff bit_push_bit_iff)
  qed
qed

lemma burst_inject:
  assumes "length u = length v" and "length u \<le> 4" and eq: "burst u = burst v"
  shows "u = v"
proof (rule nth_equalityI)
  fix j assume j: "j < length u"
  show "u ! j = v ! j"
  proof (rule bit_word_eqI)
    fix k assume "k < LENGTH(8)"
    then have k: "k < 8" by simp
    have d: "(8 * j + k) div 8 = j" and m: "(8 * j + k) mod 8 = k" using k by auto
    have r: "8 * j + k < 32" "8 * j + k < 8 * length u" using j k assms(2) by auto
    have "bit (burst u) (8 * j + k) = bit (burst v) (8 * j + k)" using eq by simp
    with r d m assms(1) show "bit (u ! j) k = bit (v ! j) k" by (simp add: bit_burst)
  qed
qed (fact assms(1))

lemma foldl_burst:
  "length bs \<le> 4 \<Longrightarrow>
   foldl (\<lambda>c b. crc_bits 8 (c XOR ucast b)) c bs = crc_bits (8 * length bs) (c XOR burst bs)"
proof (induction bs arbitrary: c)
  case Nil
  then show ?case by simp
next
  case (Cons b bs)
  have small: "i < 24" if "bit (burst bs) i" for i
    using that Cons.prems bit_imp_le_length [of "burst bs" i] bit_burst [of i bs] by auto
  have "crc_bits 8 (push_bit 8 (burst bs)) = drop_bit 8 (push_bit 8 (burst bs))"
    by (rule crc_bits_shift) (simp add: bit_push_bit_iff)
  also have "\<dots> = burst bs"
    by (rule bit_word_eqI) (auto simp: bit_drop_bit_eq bit_push_bit_iff dest: small)
  finally have shift: "crc_bits 8 (push_bit 8 (burst bs)) = burst bs" .
  have "crc_bits 8 (c XOR ucast b) XOR burst bs =
        crc_bits 8 (c XOR ucast b) XOR crc_bits 8 (push_bit 8 (burst bs))"
    by (simp only: shift)
  also have "\<dots> = crc_bits 8 (c XOR burst (b # bs))"
    by (simp only: burst.simps xor.assoc flip: crc_bits_xor)
  finally show ?case using Cons by (simp add: crc_bits_add [of 8, simplified] del: burst.simps)
qed

lemma crc_foldl_inject:
  "foldl (\<lambda>c b. crc_bits 8 (c XOR ucast b)) c s = foldl (\<lambda>c b. crc_bits 8 (c XOR ucast b)) d s
    \<longleftrightarrow> c = d"
proof (induction s arbitrary: c d)
  case Nil
  then show ?case by simp
next
  case (Cons b s)
  then show ?case by (simp add: crc_bits_inject xor_right_cancel)
qed

lemma crc32_burst:
  assumes "length u = length v" and "length u \<le> 4" and "crc32 (p @ u @ s) = crc32 (p @ v @ s)"
  shows "u = v"
proof -
  let ?f = "\<lambda>c b. crc_bits 8 (c XOR ucast b)" let ?c = "foldl ?f 0xFFFFFFFF p"
  have "foldl ?f (foldl ?f ?c u) s = foldl ?f (foldl ?f ?c v) s"
    using assms(3) by (simp only: crc32_eq_reference crc32_reference_def foldl_append xor_right_cancel)
  then have "foldl ?f ?c u = foldl ?f ?c v" by (simp only: crc_foldl_inject)
  then have "?c XOR burst u = ?c XOR burst v"
    using assms(1,2) by (simp only: foldl_burst crc_bits_inject)
  then have "burst u = burst v"
    by (simp only: xor.commute [of ?c] xor_right_cancel)
  with assms(1,2) show ?thesis by (rule burst_inject)
qed

subsection \<open>Properties\<close>

text \<open>C26: the 256 table entries are the eight-step remainders of the reflected CRC-32
  polynomial, and the table-driven loop of \<open>Hasher::crc32\<close> computes, for every input, the bitwise
  CRC-32 with initial value and final complement 0xFFFFFFFF.\<close>

theorem crc32_table_driven:
  "crc32_table = map (\<lambda>i. crc_bits 8 (word_of_nat i)) [0..<256] \<and> crc32 data = crc32_reference data"
  by (simp only: crc_table_rows crc32_eq_reference)

text \<open>C27: damage confined to at most four consecutive bytes always changes the checksum.\<close>

theorem crc32_detects_burst:
  assumes "length u = length v" and "length u \<le> 4" and "u \<noteq> v"
  shows "crc32 (p @ u @ s) \<noteq> crc32 (p @ v @ s)"
  using crc32_burst [OF assms(1,2)] assms(3) by blast

theorem crc32_detects_burst_witness:
  "crc32 ([7] @ [1, 2, 3, 4] @ [9]) \<noteq> crc32 ([7] @ [1, 2, 0, 4] @ [9])"
  by (rule crc32_detects_burst) simp_all

text \<open>\<open>combine_crc32\<close> is not the checksum of the concatenation: combining the checksum of a
  byte string with itself gives 0 for every string and length, while the checksum of the doubled
  string need not be 0.\<close>

theorem combine_crc32_not_concatenation:
  "combine_crc32 (crc32 d) (crc32 d) n = 0 \<and> crc32 ([0] @ [0]) \<noteq> 0"
proof
  show "combine_crc32 (crc32 d) (crc32 d) n = 0" by (simp add: combine_crc32_def)
  show "crc32 ([0] @ [0]) \<noteq> 0"
    by (simp add: crc32_eq_reference crc32_reference_def crc_bits_eight crc_bit_def)
qed

end
