(* ===== verification/Chunker.thy ===== *)
theory Chunker
  imports Hasher
begin

text \<open>
  \<^verbatim>\<open>src/core/chunker.cpp\<close>: cutting a mapped file into chunks.  A \<open>std::span\<close> over the mapping is
  the list of its bytes; \<open>size_t\<close> arithmetic is 64-bit and \<open>uint32_t\<close> arithmetic 32-bit, both
  wrapping.  The lemmas give the exact list of chunks for every file whose size does not make the
  rounding sum or the chunk count wrap, and that writing the chunks back at
  \<open>id * chunk_size\<close> in any order restores the file.
\<close>

subsection \<open>The code\<close>

record Chunk =
  ck_id :: u32
  ck_totalChunks :: u32
  ck_payloadSize :: u32
  ck_crc32 :: u32
  ck_data :: "byte list"
  ck_flags :: byte

definition kDefaultChunkSize :: u64 where
  "kDefaultChunkSize = 2 * 1024 * 1024"

definition slice_chunk :: "byte list \<Rightarrow> u64 \<Rightarrow> u32 \<Rightarrow> u32 \<Rightarrow> Chunk" where
  "slice_chunk file_view chunk_size totalChunks i =
     (let totalSize = word_of_nat (length file_view);
          offset = ucast i * chunk_size;
          current_chunk_size = min chunk_size (totalSize - offset);
          data = take (unat current_chunk_size) (drop (unat offset) file_view)
      in \<lparr>ck_id = i, ck_totalChunks = totalChunks, ck_payloadSize = ucast current_chunk_size,
          ck_crc32 = crc32 data, ck_data = data,
          ck_flags = (if i = totalChunks - 1 then 0 OR 0x02 else 0)\<rparr>)"

definition slice :: "byte list \<Rightarrow> u64 \<Rightarrow> Chunk list result" where
  "slice file_view chunk_size =
     (if file_view = [] then Inr []
      else if chunk_size = 0 then Inl DivideByZero
      else let totalSize = word_of_nat (length file_view);
               totalChunks = ucast ((totalSize + chunk_size - 1) div chunk_size) :: u32
           in Inr (map (\<lambda>i. slice_chunk file_view chunk_size totalChunks (word_of_nat i))
                     [0..<unat totalChunks]))"

subsection \<open>What slicing means on natural numbers\<close>

definition num_chunks :: "nat \<Rightarrow> nat \<Rightarrow> nat" where
  "num_chunks len cs = (len + cs - 1) div cs"

definition chunk_bytes :: "byte list \<Rightarrow> nat \<Rightarrow> nat \<Rightarrow> byte list" where
  "chunk_bytes file cs i = take cs (drop (i * cs) file)"

text \<open>The sizes for which neither \<open>totalSize + chunk_size - 1\<close> nor the chunk count wraps.\<close>

definition sliceable :: "byte list \<Rightarrow> u64 \<Rightarrow> bool" where
  "sliceable file cs \<longleftrightarrow> file \<noteq> [] \<and> 0 < unat cs \<and> unat cs < 2 ^ 32
     \<and> length file + unat cs \<le> 2 ^ 64 \<and> num_chunks (length file) (unat cs) < 2 ^ 32"

definition ideal_chunk :: "byte list \<Rightarrow> nat \<Rightarrow> nat \<Rightarrow> Chunk" where
  "ideal_chunk file cs i =
     (let n = num_chunks (length file) cs; d = chunk_bytes file cs i
      in \<lparr>ck_id = word_of_nat i, ck_totalChunks = word_of_nat n,
          ck_payloadSize = word_of_nat (length d), ck_crc32 = crc32 d, ck_data = d,
          ck_flags = (if Suc i = n then 2 else 0)\<rparr>)"

lemma num_chunks_bound:
  assumes "0 < cs" and "i < num_chunks len cs"
  shows "i * cs < len"
proof -
  have "Suc i \<le> (len + cs - 1) div cs" using assms(2) by (simp add: num_chunks_def)
  then have "Suc i * cs \<le> len + cs - 1"
    using assms(1) by (simp add: less_eq_div_iff_mult_less_eq)
  with assms(1) show ?thesis by simp
qed

lemma num_chunks_cover:
  assumes "0 < cs"
  shows "len \<le> num_chunks len cs * cs"
proof -
  have "(len + cs - 1) div cs * cs + (len + cs - 1) mod cs = len + cs - 1"
    by (rule div_mult_mod_eq)
  moreover have "(len + cs - 1) mod cs < cs" using assms by simp
  ultimately have "len + cs - 1 < (len + cs - 1) div cs * cs + cs" by linarith
  then show ?thesis using assms by (simp add: num_chunks_def)
qed

lemma concat_chunk_bytes:
  "concat (map (chunk_bytes file cs) [0..<n]) = take (n * cs) file"
proof (induction n)
  case 0
  then show ?case by simp
next
  case (Suc n)
  have "take (n * cs + cs) file = take (n * cs) file @ chunk_bytes file cs n"
    by (simp only: take_add chunk_bytes_def)
  with Suc show ?case by (simp add: add.commute)
qed

lemma chunk_bytes_whole:
  assumes "0 < cs"
  shows "concat (map (chunk_bytes file cs) [0..<num_chunks (length file) cs]) = file"
  using num_chunks_cover [OF assms, of "length file"] by (simp add: concat_chunk_bytes)

lemma total_chunks_unat:
  assumes "sliceable file cs"
  shows "unat (ucast ((word_of_nat (length file) + cs - 1) div cs) :: u32) =
         num_chunks (length file) (unat cs)"
proof -
  have sz: "unat (word_of_nat (length file) :: u64) = length file"
    using assms by (simp add: sliceable_def unat_of_nat)
  have "unat (word_of_nat (length file) + (cs - 1)) = length file + (unat cs - 1)"
  proof -
    have "unat (cs - 1) = unat cs - 1"
      using assms by (simp add: sliceable_def unat_minus_one word_neq_0_conv unat_gt_0)
    then show ?thesis
      using assms sz by (subst unat_add_lem [THEN iffD1]) (auto simp: sliceable_def)
  qed
  then have "unat ((word_of_nat (length file) + cs - 1) div cs) =
             num_chunks (length file) (unat cs)"
    using assms by (simp add: unat_div num_chunks_def sliceable_def add_diff_eq)
  with assms show ?thesis by (simp add: unat_ucast_small sliceable_def)
qed

lemma slice_chunk_ideal:
  assumes sl: "sliceable file cs" and i: "i < num_chunks (length file) (unat cs)"
  shows "slice_chunk file cs (word_of_nat (num_chunks (length file) (unat cs))) (word_of_nat i) =
         ideal_chunk file (unat cs) i"
proof -
  let ?n = "num_chunks (length file) (unat cs)"
  have n: "?n < 2 ^ 32" and len: "length file < 2 ^ 64" and cs: "0 < unat cs" "unat cs < 2 ^ 32"
    using sl by (auto simp: sliceable_def)
  have off: "i * unat cs < length file" using num_chunks_bound [OF cs(1) i] .
  have iu: "unat (word_of_nat i :: u32) = i" using i n by (simp add: unat_of_nat)
  have offu: "unat (ucast (word_of_nat i :: u32) * cs) = i * unat cs"
    using off len i n iu by (simp add: unat_mult_lem [THEN iffD1] unat_ucast_small)
  have szu: "unat (word_of_nat (length file) :: u64) = length file"
    using len by (simp add: unat_of_nat)
  define cur where "cur = min cs (word_of_nat (length file) - ucast (word_of_nat i :: u32) * cs)"
  have "unat (word_of_nat (length file) - ucast (word_of_nat i :: u32) * cs) =
        length file - i * unat cs"
    using off offu szu by (subst unat_sub) (auto simp: word_le_nat_alt)
  then have curu: "unat cur = min (unat cs) (length file - i * unat cs)"
    by (simp add: cur_def min_def word_le_nat_alt)
  have data: "take (unat cur) (drop (i * unat cs) file) = chunk_bytes file (unat cs) i"
    by (simp add: curu chunk_bytes_def min_def)
  have pay: "(ucast cur :: u32) = word_of_nat (length (chunk_bytes file (unat cs) i))"
    by (simp add: curu chunk_bytes_def min.commute flip: word_of_nat_unat_ucast)
  have flag: "(word_of_nat i :: u32) = word_of_nat ?n - 1 \<longleftrightarrow> Suc i = ?n"
  proof -
    have "(word_of_nat ?n - 1 :: u32) = word_of_nat (?n - 1)" using i by (simp add: of_nat_diff)
    moreover have "unat (word_of_nat (?n - 1) :: u32) = ?n - 1"
      using n by (simp add: unat_word_of_nat_small del: of_nat_diff)
    ultimately show ?thesis using i iu by (simp only: word_unat_eq_iff) auto
  qed
  show ?thesis
    by (simp add: slice_chunk_def ideal_chunk_def Let_def offu flag pay data flip: cur_def)
qed

lemma slice_ideal:
  assumes "sliceable file cs"
  shows "slice file cs =
         Inr (map (ideal_chunk file (unat cs)) [0..<num_chunks (length file) (unat cs)])"
proof -
  let ?t = "ucast ((word_of_nat (length file) + cs - 1) div cs) :: u32"
  have t: "unat ?t = num_chunks (length file) (unat cs)" using assms by (rule total_chunks_unat)
  then have "?t = word_of_nat (num_chunks (length file) (unat cs))" by (simp flip: t)
  moreover have "file \<noteq> []" and "cs \<noteq> 0" using assms by (auto simp: sliceable_def)
  ultimately show ?thesis
    using slice_chunk_ideal [OF assms] t by (simp add: slice_def Let_def)
qed

lemma num_chunks_pos: "0 < cs \<Longrightarrow> 0 < len \<Longrightarrow> 0 < num_chunks len cs"
  by (simp add: num_chunks_def div_greater_zero_iff)

lemma length_chunk_bytes:
  "length (chunk_bytes file cs i) = min cs (length file - i * cs)"
  by (simp add: chunk_bytes_def min.commute)

lemma chunk_bytes_nth:
  assumes "k < length file" and "0 < cs"
  shows "chunk_bytes file cs (k div cs) ! (k mod cs) = file ! k"
proof -
  have "k div cs * cs + k mod cs = k" by simp
  moreover have "k mod cs < cs" using assms(2) by simp
  moreover have "k div cs * cs \<le> length file" using assms(1) calculation(1) by linarith
  ultimately show ?thesis by (simp add: chunk_bytes_def)
qed

subsection \<open>Properties\<close>

text \<open>C23: for every file and chunk size that do not wrap, \<open>Chunker::slice\<close> cuts the file into
  exactly its ceiling number of chunks: numbered consecutively from 0, concatenating to the file,
  each carrying its own size, total and CRC-32, each but the last full, and only the last flagged
  0x02.\<close>

theorem slice_partitions_file:
  assumes "sliceable file cs"
  shows "\<exists>chunks. slice file cs = Inr chunks
    \<and> length chunks = num_chunks (length file) (unat cs)
    \<and> concat (map ck_data chunks) = file
    \<and> map (unat \<circ> ck_id) chunks = [0..<length chunks]
    \<and> list_all (\<lambda>c. unat (ck_payloadSize c) = length (ck_data c) \<and> ck_crc32 c = crc32 (ck_data c)
         \<and> unat (ck_totalChunks c) = length chunks \<and> 0 < length (ck_data c)) chunks
    \<and> list_all (\<lambda>c. length (ck_data c) = unat cs \<and> ck_flags c = 0) (butlast chunks)
    \<and> ck_flags (last chunks) = 2"
proof -
  define n where "n = num_chunks (length file) (unat cs)"
  define chunks where "chunks = map (ideal_chunk file (unat cs)) [0..<n]"
  have cs: "0 < unat cs" "unat cs < 2 ^ 32" and n: "n < 2 ^ 32" and ne: "file \<noteq> []"
    using assms by (auto simp: sliceable_def n_def)
  have off: "i * unat cs < length file" if "i < n" for i
    using num_chunks_bound [OF cs(1)] that by (simp add: n_def)
  have pos: "0 < n" using num_chunks_pos cs ne by (simp add: n_def)
  have full: "length (chunk_bytes file (unat cs) i) = unat cs" if "Suc i < n" for i
    using off [OF that] by (simp add: length_chunk_bytes)
  have ne: "chunk_bytes file (unat cs) i \<noteq> []" if "i < n" for i
    using off [OF that] cs(1) by (auto simp: chunk_bytes_def)
  have "butlast chunks = map (ideal_chunk file (unat cs)) [0..<n - 1]"
    using pos by (cases n) (simp_all add: chunks_def)
  moreover have "last chunks = ideal_chunk file (unat cs) (n - 1)"
    using pos by (simp add: chunks_def last_map)
  moreover have "concat (map ck_data chunks) = file"
    using chunk_bytes_whole [OF cs(1)]
    by (simp add: chunks_def n_def o_def ideal_chunk_def Let_def)
  ultimately show ?thesis
    using slice_ideal [OF assms] n cs pos off full ne
    by (intro exI [of _ chunks])
      (auto simp: list_all_iff chunks_def ideal_chunk_def Let_def unat_of_nat length_chunk_bytes
        simp flip: n_def intro!: map_idI)
qed

theorem slice_partitions_file_witness:
  "\<exists>chunks. slice [1, 2, 3, 4, 5] 2 = Inr chunks \<and> length chunks = 3
    \<and> concat (map ck_data chunks) = [1, 2, 3, 4, 5]"
  using slice_partitions_file [of "[1, 2, 3, 4, 5]" 2]
  by (auto simp: sliceable_def num_chunks_def)

lemma slice_boundaries:
  "slice [] cs = Inr []" "slice (b # bs) 0 = Inl DivideByZero"
  by (simp_all add: slice_def)

end
