(* ===== verification/Manifest.thy ===== *)
theory Manifest
  imports Prelude
begin

text \<open>
  \<^verbatim>\<open>src/core/manifest.cpp\<close>: the resume manifest, its bit field and its file format.  A
  \<open>std::vector<bool>\<close> is a list of booleans; every index the code uses outside a vector is the
  failure \<open>OutOfBounds\<close>.  An \<open>std::ifstream\<close> is the unread rest of the file and its good bit.
\<close>

subsection \<open>The code\<close>

record transferManifest =
  mf_fileHash :: "byte list"
  mf_fileSize :: u64
  mf_chunk_size :: u32
  mf_total_chunks :: u32
  mf_completedChunks :: "bool list"

definition empty_manifest :: transferManifest where
  "empty_manifest = \<lparr>mf_fileHash = [], mf_fileSize = 0, mf_chunk_size = 0, mf_total_chunks = 0,
     mf_completedChunks = []\<rparr>"

fun pack_loop :: "bool list \<Rightarrow> nat list \<Rightarrow> byte list \<Rightarrow> byte list result" where
  "pack_loop completed [] packed = Inr packed"
| "pack_loop completed (i # is) packed =
     (if length completed \<le> i then Inl OutOfBounds
      else if completed ! i then
        (if length packed \<le> i div 8 then Inl OutOfBounds
         else pack_loop completed is
                (packed[i div 8 := packed ! (i div 8) OR push_bit (i mod 8) 1]))
      else pack_loop completed is packed)"

definition pack_bitfield :: "transferManifest \<Rightarrow> byte list result" where
  "pack_bitfield m =
     pack_loop (mf_completedChunks m) [0..<unat (mf_total_chunks m)]
       (replicate (unat ((mf_total_chunks m + 7) div 8)) 0)"

fun unpack_loop :: "byte list \<Rightarrow> nat list \<Rightarrow> bool list \<Rightarrow> bool list result" where
  "unpack_loop packed [] completed = Inr completed"
| "unpack_loop packed (i # is) completed =
     (if length packed \<le> i div 8 then Inl OutOfBounds
      else unpack_loop packed is
             (completed[i := (packed ! (i div 8) AND push_bit (i mod 8) 1 \<noteq> 0)]))"

definition unpack_bits :: "byte list \<Rightarrow> u32 \<Rightarrow> bool list result" where
  "unpack_bits packed expected_chunks =
     unpack_loop packed [0..<unat expected_chunks] (replicate (unat expected_chunks) False)"

definition unpack_bitfield :: "byte list \<Rightarrow> u32 \<Rightarrow> transferManifest \<Rightarrow> transferManifest result" where
  "unpack_bitfield packed expected_chunks m =
     bind_result (unpack_bits packed expected_chunks)
       (\<lambda>bits. Inr (m\<lparr>mf_total_chunks := expected_chunks, mf_completedChunks := bits\<rparr>))"

text \<open>\<open>save\<close> returns the new contents of the file; when the file cannot be opened it keeps the old
  ones.\<close>

definition save :: "bool \<Rightarrow> byte list option \<Rightarrow> transferManifest \<Rightarrow> byte list option result" where
  "save can_open old m =
     (if \<not> can_open then Inr old
      else bind_result (pack_bitfield m) (\<lambda>packed.
        Inr (Some (put64 (word_of_nat (length (mf_fileHash m))) @ mf_fileHash m
          @ put64 (mf_fileSize m) @ put32 (mf_chunk_size m) @ put32 (mf_total_chunks m) @ packed))))"

record istream =
  is_rest :: "byte list"
  is_good :: bool

text \<open>\<open>istream::read\<close> into a buffer of \<open>length old\<close> bytes: a stream that is not good leaves the
  buffer alone, a short one fills what it has and fails.\<close>

definition stream_read :: "byte list \<Rightarrow> istream \<Rightarrow> byte list \<times> istream" where
  "stream_read old st =
     (if \<not> is_good st then (old, st)
      else if length old \<le> length (is_rest st)
        then (take (length old) (is_rest st), st\<lparr>is_rest := drop (length old) (is_rest st)\<rparr>)
      else (is_rest st @ drop (length (is_rest st)) old, \<lparr>is_rest = [], is_good = False\<rparr>))"

text \<open>The reads of \<open>load\<close> for any stream.  The guard in front of them lets only a stream through that failed
  to open.\<close>

definition load_fields :: "istream \<Rightarrow> transferManifest \<Rightarrow> (bool \<times> transferManifest) result" where
  "load_fields st0 m =
     (let (hl, st1) = stream_read (put64 0) st0
      in if \<not> is_good st1 then Inr (False, m)
         else let (h, st2) = stream_read (replicate (unat (get64 hl)) 0) st1;
                  (fs, st3) = stream_read (put64 (mf_fileSize m)) st2;
                  (cs, st4) = stream_read (put32 (mf_chunk_size m)) st3;
                  (tc, st5) = stream_read (put32 (mf_total_chunks m)) st4;
                  total = get32 tc;
                  (packed, st6) = stream_read (replicate (unat ((total + 7) div 8)) 0) st5;
                  m1 = m\<lparr>mf_fileHash := h, mf_fileSize := get64 fs, mf_chunk_size := get32 cs,
                         mf_total_chunks := total\<rparr>
              in bind_result (unpack_bitfield packed total m1) (\<lambda>m2. Inr (True, m2)))"

definition load :: "byte list option \<Rightarrow> transferManifest \<Rightarrow> (bool \<times> transferManifest) result" where
  "load contents m =
     (case contents of
        Some bs \<Rightarrow> Inr (False, m)
      | None \<Rightarrow> load_fields \<lparr>is_rest = [], is_good = False\<rparr> m)"

definition is_complete :: "transferManifest \<Rightarrow> bool" where
  "is_complete m \<longleftrightarrow> mf_completedChunks m \<noteq> [] \<and> list_all (\<lambda>c. c) (mf_completedChunks m)"

subsection \<open>Well-formed manifests\<close>

text \<open>The vector has one entry per chunk, and the rounding sum of the bit field does not wrap.\<close>

definition manifest_wf :: "transferManifest \<Rightarrow> bool" where
  "manifest_wf m \<longleftrightarrow> length (mf_completedChunks m) = unat (mf_total_chunks m)
     \<and> unat (mf_total_chunks m) + 7 < 2 ^ 32"

definition bit_at :: "byte list \<Rightarrow> nat \<Rightarrow> bool" where
  "bit_at packed i \<longleftrightarrow> i div 8 < length packed \<and> bit (packed ! (i div 8)) (i mod 8)"

lemma bit_byte_exp: "k < 8 \<Longrightarrow> bit (2 ^ k :: byte) n \<longleftrightarrow> n = k"
  by (auto simp: bit_exp_iff dest: bit_imp_le_length)

lemma and_single_bit: "k < 8 \<Longrightarrow> a AND 2 ^ k \<noteq> 0 \<longleftrightarrow> bit a k" for a :: byte
  by (auto simp: bit_eq_iff [of "a AND 2 ^ k" 0] bit_and_iff bit_byte_exp)

lemma bit_at_set:
  assumes "i div 8 < length packed"
  shows "bit_at (packed[i div 8 := packed ! (i div 8) OR 2 ^ (i mod 8)]) j
           \<longleftrightarrow> j = i \<or> bit_at packed j"
proof (cases "j div 8 = i div 8")
  case True
  have "j mod 8 = i mod 8 \<longleftrightarrow> j = i" using True by (metis div_mult_mod_eq)
  then show ?thesis using assms True
    by (auto simp: bit_at_def bit_or_iff bit_byte_exp)
next
  case False
  then show ?thesis by (auto simp: bit_at_def)
qed

lemma pack_loop_spec:
  assumes "\<forall>i\<in>set is. i < length completed \<and> i div 8 < length packed"
  shows "\<exists>out. pack_loop completed is packed = Inr out \<and> length out = length packed
    \<and> (\<forall>j. bit_at out j \<longleftrightarrow> bit_at packed j \<or> (j \<in> set is \<and> completed ! j))"
  using assms
proof (induction "is" arbitrary: packed)
  case Nil
  then show ?case by simp
next
  case (Cons i "is")
  show ?case
  proof (cases "completed ! i")
    case True
    let ?p = "packed[i div 8 := packed ! (i div 8) OR 2 ^ (i mod 8)]"
    obtain out where "pack_loop completed is ?p = Inr out" "length out = length packed"
      and "\<forall>j. bit_at out j \<longleftrightarrow> bit_at ?p j \<or> (j \<in> set is \<and> completed ! j)"
      using Cons.IH [of ?p] Cons.prems by auto
    with True Cons.prems show ?thesis
      by (intro exI [of _ out]) (auto simp: bit_at_set)
  next
    case False
    with Cons show ?thesis by fastforce
  qed
qed

lemma unpack_loop_spec:
  assumes "\<forall>i\<in>set is. i < length completed \<and> i div 8 < length packed"
  shows "\<exists>out. unpack_loop packed is completed = Inr out \<and> length out = length completed
    \<and> (\<forall>j<length completed. out ! j = (if j \<in> set is then bit_at packed j else completed ! j))"
  using assms
proof (induction "is" arbitrary: completed)
  case Nil
  then show ?case by simp
next
  case (Cons i "is")
  let ?c = "completed[i := bit_at packed i]"
  obtain out where "unpack_loop packed is ?c = Inr out" "length out = length completed"
    and "\<forall>j<length completed. out ! j = (if j \<in> set is then bit_at packed j else ?c ! j)"
    using Cons.IH [of ?c] Cons.prems by auto
  with Cons.prems show ?case
    by (intro exI [of _ out]) (auto simp: and_single_bit [OF mod_less_divisor] bit_at_def nth_list_update)
qed

lemma packed_length:
  assumes "unat (n :: u32) + 7 < 2 ^ 32"
  shows "unat ((n + 7) div 8) = (unat n + 7) div 8"
  using assms by (simp add: unat_div unat_word_ariths)

lemma pack_bitfield_spec:
  assumes "manifest_wf m"
  shows "\<exists>packed. pack_bitfield m = Inr packed
    \<and> length packed = (unat (mf_total_chunks m) + 7) div 8
    \<and> (\<forall>j. bit_at packed j \<longleftrightarrow> j < unat (mf_total_chunks m) \<and> mf_completedChunks m ! j)"
proof -
  let ?n = "unat (mf_total_chunks m)"
  have len: "unat ((mf_total_chunks m + 7) div 8) = (?n + 7) div 8"
    using assms by (simp add: manifest_wf_def packed_length)
  have "\<not> bit_at (replicate k 0) j" for j k
    by (simp add: bit_at_def)
  moreover have "j div 8 < (?n + 7) div 8" if "j < ?n" for j
    using that by (simp add: less_eq_div_iff_mult_less_eq Suc_le_eq [symmetric])
  ultimately show ?thesis
    using pack_loop_spec [of "[0..<?n]" "mf_completedChunks m" "replicate ((?n + 7) div 8) 0"] assms
    by (auto simp: pack_bitfield_def len manifest_wf_def)
qed

lemma unpack_bits_spec:
  assumes "length packed = (unat n + 7) div 8"
  shows "unpack_bits packed n = Inr (map (bit_at packed) [0..<unat n])"
proof -
  have "j div 8 < (unat n + 7) div 8" if "j < unat n" for j
    using that by (simp add: less_eq_div_iff_mult_less_eq Suc_le_eq [symmetric])
  then obtain out where "unpack_loop packed [0..<unat n] (replicate (unat n) False) = Inr out"
    and "length out = unat n" and "\<forall>j<unat n. out ! j = bit_at packed j"
    using unpack_loop_spec [of "[0..<unat n]" "replicate (unat n) False" packed] assms by auto
  then show ?thesis
    by (auto simp: unpack_bits_def intro: nth_equalityI)
qed

lemma pack_unpack_bits:
  assumes "manifest_wf m" and "pack_bitfield m = Inr packed"
  shows "unpack_bits packed (mf_total_chunks m) = Inr (mf_completedChunks m)"
proof -
  from pack_bitfield_spec [OF assms(1)] assms(2)
  have len: "length packed = (unat (mf_total_chunks m) + 7) div 8"
    and bits: "\<And>j. bit_at packed j \<longleftrightarrow> j < unat (mf_total_chunks m) \<and> mf_completedChunks m ! j"
    by auto
  show ?thesis
    using assms(1)
    by (auto simp: unpack_bits_spec [OF len] bits manifest_wf_def intro!: nth_equalityI)
qed

subsection \<open>The file format\<close>

lemma stream_read_exact:
  assumes "length old = length bs"
  shows "stream_read old \<lparr>is_rest = bs @ rest, is_good = True\<rparr> =
         (bs, \<lparr>is_rest = rest, is_good = True\<rparr>)"
  using assms by (simp add: stream_read_def)

lemma load_fields_save:
  assumes "manifest_wf m" and "length (mf_fileHash m) < 2 ^ 64"
    and "save True old m = Inr (Some bs)"
  shows "load_fields \<lparr>is_rest = bs, is_good = True\<rparr> m0 = Inr (True, m)"
proof -
  obtain packed where packed: "pack_bitfield m = Inr packed"
    and len: "length packed = (unat (mf_total_chunks m) + 7) div 8"
    using pack_bitfield_spec [OF assms(1)] by blast
  have plen: "unat ((mf_total_chunks m + 7) div 8) = length packed"
    using assms(1) by (simp add: len packed_length manifest_wf_def)
  have hlen: "unat (word_of_nat (length (mf_fileHash m)) :: u64) = length (mf_fileHash m)"
    using assms(2) by (simp add: unat_of_nat)
  have bs: "bs = put64 (word_of_nat (length (mf_fileHash m))) @ mf_fileHash m
          @ put64 (mf_fileSize m) @ put32 (mf_chunk_size m) @ put32 (mf_total_chunks m) @ packed @ []"
    using assms(3) by (simp add: save_def packed)
  have get: "get64 (put64 a) = a" "get32 (put32 b) = b" for a b
    using get64_put64 [of a "[]"] get32_put32 [of b "[]"] by simp_all
  show ?thesis
    unfolding load_fields_def bs
    by (simp add: stream_read_exact Let_def get hlen plen unpack_bitfield_def
        pack_unpack_bits [OF assms(1) packed] del: append_Nil2)
qed

subsection \<open>Properties\<close>

text \<open>C28: packing the completed-chunk vector of a well-formed manifest never leaves the vectors and
  produces one bit per chunk, and unpacking that bit field for the same number of chunks restores
  the vector exactly.\<close>

theorem bitfield_roundtrip:
  assumes "manifest_wf m"
  shows "\<exists>packed. pack_bitfield m = Inr packed
    \<and> length packed = (unat (mf_total_chunks m) + 7) div 8
    \<and> unpack_bitfield packed (mf_total_chunks m) m0 =
        Inr (m0\<lparr>mf_total_chunks := mf_total_chunks m, mf_completedChunks := mf_completedChunks m\<rparr>)"
proof -
  from pack_bitfield_spec [OF assms] obtain packed where p: "pack_bitfield m = Inr packed"
    and len: "length packed = (unat (mf_total_chunks m) + 7) div 8" by blast
  from pack_unpack_bits [OF assms p] show ?thesis
    using p len by (simp add: unpack_bitfield_def)
qed

definition sample_manifest :: transferManifest where
  "sample_manifest = \<lparr>mf_fileHash = [97], mf_fileSize = 20971520, mf_chunk_size = 2097152,
     mf_total_chunks = 10,
     mf_completedChunks = [True, False, True, False, False, False, False, True, False, True]\<rparr>"

theorem bitfield_roundtrip_witness:
  "\<exists>packed. pack_bitfield sample_manifest = Inr packed \<and> length packed = 2
    \<and> unpack_bitfield packed 10 empty_manifest =
       Inr (empty_manifest\<lparr>mf_total_chunks := 10,
         mf_completedChunks := mf_completedChunks sample_manifest\<rparr>)"
  using bitfield_roundtrip [of sample_manifest empty_manifest]
  by (simp add: manifest_wf_def sample_manifest_def)

text \<open>What the reads behind the guard of \<open>transferManifest::load\<close> are meant for: with a good stream, which the
  guard never lets them have, they would invert \<open>save\<close>, so the guard is all that is wrong with \<open>load\<close>.\<close>

theorem saved_manifest_readable:
  assumes "manifest_wf m" and "length (mf_fileHash m) < 2 ^ 64"
  shows "\<exists>bs. save True old m = Inr (Some bs)
    \<and> load_fields \<lparr>is_rest = bs, is_good = True\<rparr> m0 = Inr (True, m)"
proof -
  obtain bs where "save True old m = Inr (Some bs)"
    using pack_bitfield_spec [OF assms(1)] by (auto simp: save_def)
  with load_fields_save [OF assms] show ?thesis by blast
qed

theorem saved_manifest_readable_witness:
  "\<exists>bs. save True None sample_manifest = Inr (Some bs)
    \<and> load_fields \<lparr>is_rest = bs, is_good = True\<rparr> empty_manifest = Inr (True, sample_manifest)"
  by (rule saved_manifest_readable) (simp_all add: manifest_wf_def sample_manifest_def)

text \<open>C33: \<open>transferManifest::load\<close> as written never succeeds: it returns false and leaves the output
  object unchanged both when the file opens (the guard is inverted) and when it does not (the
  first read fails).\<close>

theorem load_never_succeeds: "load contents m = Inr (False, m)"
  by (cases contents) (simp_all add: load_def load_fields_def stream_read_def)

end
