(* ===== verification/Compressor.thy ===== *)
theory Compressor
  imports Strings Complex_Main
begin

text \<open>
  \<^verbatim>\<open>src/core/compressor.cpp\<close>: choosing a compression strategy and running it.  The LZ4 and Zstandard
  libraries are parameters, one function per library call; \<open>None\<close> and \<open>Inl\<close> are their error
  returns.  Doubles are read as real numbers; rounding is not modelled.
\<close>

subsection \<open>The libraries the code calls\<close>

record compression_libs =
  lz4_compressBound :: "int \<Rightarrow> int"
  lz4_compress_default :: "byte list \<Rightarrow> int \<Rightarrow> int \<Rightarrow> byte list option"
  lz4_decompress_safe :: "byte list \<Rightarrow> int \<Rightarrow> int \<Rightarrow> byte list option"
  zstd_compressBound :: "nat \<Rightarrow> nat"
  zstd_compress :: "byte list \<Rightarrow> nat \<Rightarrow> int \<Rightarrow> string + byte list"
  zstd_decompress :: "byte list \<Rightarrow> nat \<Rightarrow> string + byte list"

subsection \<open>The code\<close>

datatype Strategy = NONE | LZ4 | ZSTD

fun strategy_code :: "Strategy \<Rightarrow> byte" where
  "strategy_code NONE = 0"
| "strategy_code LZ4 = 1"
| "strategy_code ZSTD = 2"

text \<open>\<open>static_cast<Strategy>\<close> of a byte from the wire; \<open>None\<close> is a value with no enumerator.\<close>

definition strategy_of_code :: "byte \<Rightarrow> Strategy option" where
  "strategy_of_code b =
     (if b = 0 then Some NONE else if b = 1 then Some LZ4 else if b = 2 then Some ZSTD else None)"

definition skip_exten :: "string list" where
  "skip_exten = [''.mp4'', ''.mkv'', ''.avi'', ''.mov'', ''.zip'', ''.rar'', ''.7z'', ''.gz'',
     ''.tar.gz'', ''.jpg'', ''.jpeg'', ''.png'', ''.webp'', ''.mp3'', ''.filac'', ''.aac'', ''/pdf'']"

definition byte_count :: "byte list \<Rightarrow> byte \<Rightarrow> nat" where
  "byte_count data b = length (filter (\<lambda>x. x = b) data)"

definition calc_entropy :: "byte list \<Rightarrow> real" where
  "calc_entropy data =
     (if data = [] then 0
      else foldl (\<lambda>entropy count.
             if 0 < count
             then entropy - (real count / real (length data)
                             + log 2 (real count / real (length data)))
             else entropy)
           0 (map (\<lambda>i. byte_count data (word_of_nat i)) [0..<256]))"

definition lower_ascii :: "char \<Rightarrow> char" where
  "lower_ascii c =
     (if 65 \<le> (of_char c :: nat) \<and> (of_char c :: nat) \<le> 90 then char_of (of_char c + 32 :: nat) else c)"

definition detect :: "string \<Rightarrow> byte list \<Rightarrow> Strategy" where
  "detect path file_sample =
     (let exten = map lower_ascii (path_extension path)
      in if exten \<in> set skip_exten then NONE
         else if calc_entropy file_sample > 7.5 then NONE
         else LZ4)"

text \<open>\<open>static_cast<int>\<close> of a \<open>size_t\<close>.\<close>

definition int_cast :: "nat \<Rightarrow> int" where
  "int_cast n = sint (word_of_nat n :: u32)"

definition get_compress_bound :: "compression_libs \<Rightarrow> nat \<Rightarrow> Strategy \<Rightarrow> nat" where
  "get_compress_bound L input_size strategy =
     (case strategy of
        LZ4 \<Rightarrow> unat (word_of_int (lz4_compressBound L (int_cast input_size)) :: u64)
      | ZSTD \<Rightarrow> zstd_compressBound L input_size
      | NONE \<Rightarrow> input_size)"

text \<open>Writing to the front of an output span.\<close>

definition overlay :: "byte list \<Rightarrow> byte list \<Rightarrow> byte list" where
  "overlay bs output = bs @ drop (length bs) output"

definition compress :: "compression_libs \<Rightarrow> byte list \<Rightarrow> byte list \<Rightarrow> Strategy
    \<Rightarrow> (nat \<times> byte list) result" where
  "compress L input output strategy =
     (case strategy of
        NONE \<Rightarrow>
          (if length output < length input then Inl (Throw ''output buffer small for not compressing'')
           else Inr (length input, overlay input output))
      | LZ4 \<Rightarrow>
          (case lz4_compress_default L input (int_cast (length input)) (int_cast (length output)) of
             None \<Rightarrow> Inl (Throw ''LZ4 compressin failed'')
           | Some c \<Rightarrow> if c = [] then Inl (Throw ''LZ4 compressin failed'')
                       else Inr (length c, overlay c output))
      | ZSTD \<Rightarrow>
          (case zstd_compress L input (length output) 1 of
             Inl e \<Rightarrow> Inl (Throw (''ZSTD compression failed '' @ e))
           | Inr c \<Rightarrow> Inr (length c, overlay c output)))"

definition decompress :: "compression_libs \<Rightarrow> byte list \<Rightarrow> byte list \<Rightarrow> Strategy option
    \<Rightarrow> (nat \<times> byte list) result" where
  "decompress L input output strategy =
     (case strategy of
        Some NONE \<Rightarrow>
          (if length output < length input then Inl (Throw ''output buffer too small for NONE '')
           else Inr (length input, overlay input output))
      | Some LZ4 \<Rightarrow>
          (case lz4_decompress_safe L input (int_cast (length input)) (int_cast (length output)) of
             None \<Rightarrow> Inl (Throw ''LZ4 decompression failed or payload corrupted'')
           | Some d \<Rightarrow> Inr (length d, overlay d output))
      | Some ZSTD \<Rightarrow>
          (case zstd_decompress L input (length output) of
             Inl e \<Rightarrow> Inl (Throw (''ZSTD decompression failed '' @ e))
           | Inr d \<Rightarrow> Inr (length d, overlay d output))
      | None \<Rightarrow> Inr (0, output))"

subsection \<open>Documented behaviour of the libraries\<close>

text \<open>
  LZ4: inputs are at most \<open>LZ4_MAX_INPUT_SIZE\<close> bytes; a destination of at least
  \<open>LZ4_compressBound\<close> bytes never fails; the block is never empty and fits its destination; and
  decompressing a block into a destination that can hold the original returns the original.
\<close>

definition lz4_max_input :: nat where
  "lz4_max_input = 0x7E000000"

definition lz4_lawful :: "compression_libs \<Rightarrow> bool" where
  "lz4_lawful L \<longleftrightarrow>
     (\<forall>n. n \<le> lz4_max_input \<longrightarrow>
        int n < lz4_compressBound L (int n) \<and> lz4_compressBound L (int n) < 2 ^ 31)
   \<and> (\<forall>src cap. length src \<le> lz4_max_input \<and> lz4_compressBound L (int (length src)) \<le> cap \<longrightarrow>
        (\<exists>c. lz4_compress_default L src (int (length src)) cap = Some c \<and> c \<noteq> [] \<and> int (length c) \<le> cap))
   \<and> (\<forall>src cap c cap'. lz4_compress_default L src (int (length src)) cap = Some c
        \<and> int (length src) \<le> cap' \<longrightarrow> lz4_decompress_safe L c (int (length c)) cap' = Some src)"

lemma int_cast_small: "n < 2 ^ 31 \<Longrightarrow> int_cast n = int n"
  using sint_word_of_int_small [of "int n"] by (simp add: int_cast_def)

lemma strategy_code_roundtrip [simp]: "strategy_of_code (strategy_code s) = Some s"
  by (cases s) (simp_all add: strategy_of_code_def)

lemma take_overlay [simp]: "take (length bs) (overlay bs output) = bs"
  by (simp add: overlay_def)

lemma length_overlay: "length bs \<le> length output \<Longrightarrow> length (overlay bs output) = length output"
  by (simp add: overlay_def)

lemma overlay_full: "length bs = length output \<Longrightarrow> overlay bs output = bs"
  by (simp add: overlay_def)

text \<open>The strategies \<open>detect\<close> can choose, and when compressing with one of them works.\<close>

definition compressible :: "compression_libs \<Rightarrow> Strategy \<Rightarrow> nat \<Rightarrow> bool" where
  "compressible L s n \<longleftrightarrow> s = NONE \<or> (s = LZ4 \<and> lz4_lawful L \<and> n \<le> lz4_max_input)"

lemma detect_cases: "detect path sample = NONE \<or> detect path sample = LZ4"
  by (simp add: detect_def Let_def)

lemma compress_bound_LZ4:
  assumes "lz4_lawful L" and "n \<le> lz4_max_input"
  shows "int (get_compress_bound L n LZ4) = lz4_compressBound L (int n)"
    and "get_compress_bound L n LZ4 < 2 ^ 31"
proof -
  have "n < 2 ^ 31" using assms(2) by (simp add: lz4_max_input_def)
  then have c: "int_cast n = int n" by (rule int_cast_small)
  have b: "0 \<le> lz4_compressBound L (int n)" "lz4_compressBound L (int n) < 2 ^ 31"
    using assms unfolding lz4_lawful_def by force+
  then have "uint (word_of_int (lz4_compressBound L (int n)) :: u64) = lz4_compressBound L (int n)"
    by (simp add: uint_word_of_int)
  then show "int (get_compress_bound L n LZ4) = lz4_compressBound L (int n)"
    by (simp add: get_compress_bound_def c flip: uint_nat)
  with b have "int (get_compress_bound L n LZ4) < int (2 ^ 31)" by simp
  then show "get_compress_bound L n LZ4 < 2 ^ 31" by (simp only: of_nat_less_iff)
qed

text \<open>Compressing into a buffer of the advertised bound succeeds, stays inside the buffer, and
  decompressing what was written into a buffer of the original size gives the original.\<close>

lemma compress_decompress:
  assumes "compressible L s (length input)" and "length input < 2 ^ 31"
    and "length output = get_compress_bound L (length input) s"
    and "length target = length input"
  shows "\<exists>n out. compress L input output s = Inr (n, out) \<and> n \<le> length output
    \<and> length out = length output
    \<and> decompress L (take n out) target (Some s) = Inr (length input, input)"
proof (cases s)
  case NONE
  with assms show ?thesis
    by (simp add: compress_def decompress_def get_compress_bound_def overlay_full)
next
  case LZ4
  with assms(1) have law: "lz4_lawful L" and len: "length input \<le> lz4_max_input"
    by (auto simp: compressible_def)
  note bound = compress_bound_LZ4 [OF law len]
  have cap: "int_cast (length output) = lz4_compressBound L (int (length input))"
    using bound assms(3) LZ4 by (simp add: int_cast_small)
  have inp: "int_cast (length input) = int (length input)"
    using assms(2) by (rule int_cast_small)
  obtain c where c: "lz4_compress_default L input (int (length input))
      (lz4_compressBound L (int (length input))) = Some c"
    and ne: "c \<noteq> []" and fit: "int (length c) \<le> lz4_compressBound L (int (length input))"
    using law len unfolding lz4_lawful_def by blast
  have clen: "length c \<le> length output" using fit bound assms(3) LZ4 by simp
  then have cc: "int_cast (length c) = int (length c)"
    using bound(2) assms(3) LZ4 by (intro int_cast_small) simp
  have tt: "int_cast (length target) = int (length input)" using assms(4) inp by simp
  have "lz4_decompress_safe L c (int (length c)) (int (length input)) = Some input"
    using law c unfolding lz4_lawful_def by blast
  with LZ4 c ne clen cap inp cc tt assms(4) show ?thesis
    by (simp add: compress_def decompress_def length_overlay overlay_full)
next
  case ZSTD
  with assms(1) show ?thesis by (simp add: compressible_def)
qed

text \<open>Decompression never writes outside a target of the size it is given, and an unknown strategy
  leaves the target alone.\<close>

lemma decompress_NONE_error:
  "length output < length input \<Longrightarrow>
   decompress L input output (Some NONE) = Inl (Throw ''output buffer too small for NONE '')"
  by (simp add: decompress_def)

lemma decompress_unknown: "decompress L input output None = Inr (0, output)"
  by (simp add: decompress_def)

subsection \<open>The entropy estimate\<close>

lemma foldl_minus:
  "foldl (\<lambda>e c. if P c then e - f c else e) a xs = a - sum_list (map f (filter P xs))"
  for f :: "'b \<Rightarrow> real"
  by (induction xs arbitrary: a) simp_all

definition byte_counts :: "byte list \<Rightarrow> nat list" where
  "byte_counts data = filter (\<lambda>c. 0 < c) (map (\<lambda>i. byte_count data (word_of_nat i)) [0..<256])"

lemma calc_entropy_sum:
  assumes "data \<noteq> []"
  shows "calc_entropy data =
    - sum_list (map (\<lambda>c. real c / real (length data) + log 2 (real c / real (length data)))
        (byte_counts data))"
  using assms by (simp add: calc_entropy_def byte_counts_def foldl_minus)

lemma word_of_nat_byte_eq: "i < 256 \<Longrightarrow> x = (word_of_nat i :: byte) \<longleftrightarrow> i = unat x"
  using unat_byte_less [of x] by (auto simp: unat_word_of_nat_byte [of i, simplified])

lemma byte_count_Cons:
  "byte_count (x # data) b = byte_count data b + (if x = b then 1 else 0)"
  by (simp add: byte_count_def)

lemma sum_byte_counts: "(\<Sum>i<256. byte_count data (word_of_nat i)) = length data"
proof (induction data)
  case Nil
  then show ?case by (simp add: byte_count_def)
next
  case (Cons x data)
  have "(\<Sum>i<256. if x = (word_of_nat i :: byte) then 1 else 0 :: nat) =
        (\<Sum>i<256. if i = unat x then 1 else 0)"
    by (intro sum.cong) (auto simp: word_of_nat_byte_eq)
  also have "\<dots> = 1" using unat_byte_less [of x] by (simp add: sum.delta')
  finally show ?case using Cons.IH by (simp add: byte_count_Cons sum.distrib)
qed

lemma sum_list_byte_counts: "sum_list (byte_counts data) = length data"
proof -
  have "sum_list (filter (\<lambda>c. 0 < c) xs) = sum_list xs" for xs :: "nat list"
    by (induction xs) auto
  then have "sum_list (byte_counts data) =
      sum_list (map (\<lambda>i. byte_count data (word_of_nat i)) [0..<256])"
    by (simp only: byte_counts_def)
  also have "\<dots> = (\<Sum>i<256. byte_count data (word_of_nat i))"
    by (simp add: interv_sum_list_conv_sum_set_nat lessThan_atLeast0)
  finally show ?thesis by (simp only: sum_byte_counts)
qed

lemma byte_counts_range: "c \<in> set (byte_counts data) \<Longrightarrow> 0 < c \<and> c \<le> length data"
  by (auto simp: byte_counts_def byte_count_def)

lemma byte_count_in_counts:
  assumes "0 < byte_count data b"
  shows "byte_count data b \<in> set (byte_counts data)"
proof -
  have "b = word_of_nat (unat b)" by simp
  then show ?thesis
    using assms unat_byte_less [of b] by (auto simp: byte_counts_def intro!: image_eqI [of _ _ "unat b"])
qed

text \<open>The value the code computes: one less than the sum of the surprisals of the byte values that
  occur, each counted once instead of weighted by its probability.\<close>

lemma calc_entropy_surprisal:
  assumes "data \<noteq> []"
  shows "calc_entropy data =
    sum_list (map (\<lambda>c. log 2 (real (length data) / real c)) (byte_counts data)) - 1"
proof -
  let ?n = "real (length data)"
  have n: "0 < ?n" using assms by simp
  have split: "sum_list (map (\<lambda>c. real c / ?n + log 2 (real c / ?n)) cs) =
      real (sum_list cs) / ?n - sum_list (map (\<lambda>c. log 2 (?n / real c)) cs)"
    if "\<forall>c\<in>set cs. 0 < c" for cs
    using that
  proof (induction cs)
    case Nil
    then show ?case by simp
  next
    case (Cons c cs)
    then have "log 2 (real c / ?n) = - log 2 (?n / real c)" using n by (simp add: log_divide)
    with Cons show ?case by (simp add: add_divide_distrib)
  qed
  from n show ?thesis
    using split [of "byte_counts data"] byte_counts_range [of _ data]
    by (simp add: calc_entropy_sum [OF assms] sum_list_byte_counts)
qed

lemma calc_entropy_lower:
  assumes "0 < byte_count data b"
  shows "log 2 (real (length data) / real (byte_count data b)) - 1 \<le> calc_entropy data"
proof -
  let ?f = "\<lambda>c. log 2 (real (length data) / real c)"
  have ne: "data \<noteq> []" using assms by (auto simp: byte_count_def)
  have pos: "0 \<le> ?f c" if "c \<in> set (byte_counts data)" for c
  proof -
    have "1 \<le> real (length data) / real c" using byte_counts_range [OF that] by simp
    then show ?thesis by simp
  qed
  have "?f (byte_count data b) \<le> sum_list (map ?f (byte_counts data))"
    by (rule member_le_sum_list) (use pos byte_count_in_counts [OF assms] in auto)
  then show ?thesis by (simp add: calc_entropy_surprisal [OF ne])
qed

subsection \<open>Properties\<close>

text \<open>C24: a compressed chunk can always be restored: with either strategy \<open>detect\<close> can choose,
  compressing into a buffer of \<open>get_compress_bound\<close> bytes succeeds without leaving the buffer, and
  decompressing the bytes written into a buffer of the original size returns the original.\<close>

theorem compress_roundtrip:
  assumes "lz4_lawful L" and "length input \<le> lz4_max_input"
    and "length output = get_compress_bound L (length input) (detect path sample)"
    and "length target = length input"
  shows "\<exists>n out. compress L input output (detect path sample) = Inr (n, out)
    \<and> n \<le> length output \<and> length out = length output
    \<and> decompress L (take n out) target (strategy_of_code (strategy_code (detect path sample)))
        = Inr (length input, input)"
proof -
  have "length input < 2 ^ 31" using assms(2) by (simp add: lz4_max_input_def)
  moreover have "compressible L (detect path sample) (length input)"
    using detect_cases [of path sample] assms(1,2) by (auto simp: compressible_def)
  ultimately show ?thesis using compress_decompress assms(3,4) by simp
qed

text \<open>A stored-block codec: one tag byte in front of the data.  It meets the LZ4 laws.\<close>

definition stored_libs :: compression_libs where
  "stored_libs = \<lparr>
     lz4_compressBound = (\<lambda>n. n + n div 255 + 16),
     lz4_compress_default = (\<lambda>src n cap. if int (length src) < cap then Some (0 # src) else None),
     lz4_decompress_safe = (\<lambda>src n cap. case src of [] \<Rightarrow> None
        | _ # d \<Rightarrow> if int (length d) \<le> cap then Some d else None),
     zstd_compressBound = (\<lambda>n. n), zstd_compress = (\<lambda>src cap l. Inr src),
     zstd_decompress = (\<lambda>src cap. Inr src)\<rparr>"

lemma stored_libs_lawful: "lz4_lawful stored_libs"
  unfolding lz4_lawful_def stored_libs_def
  by (auto simp: lz4_max_input_def split: if_splits)

lemma detect_txt: "detect ''a.txt'' [] = LZ4"
  by (simp add: detect_def calc_entropy_def path_extension_def path_filename_def is_sep_def
      lower_ascii_def skip_exten_def)

theorem compress_roundtrip_witness:
  "\<exists>n out. compress stored_libs [1, 2, 3] (replicate 19 0) (detect ''a.txt'' []) = Inr (n, out)
    \<and> decompress stored_libs (take n out) [0, 0, 0]
        (strategy_of_code (strategy_code (detect ''a.txt'' []))) = Inr (3, [1, 2, 3])"
proof -
  have "length (replicate 19 (0 :: byte)) =
      get_compress_bound stored_libs (length [1, 2, 3 :: byte]) (detect ''a.txt'' [])"
    by (simp add: detect_txt get_compress_bound_def stored_libs_def int_cast_small)
  from compress_roundtrip [OF stored_libs_lawful _ this, of "[0, 0, 0]"] show ?thesis
    by (auto simp: lz4_max_input_def)
qed

text \<open>The entropy estimate adds where it should multiply: a sample of 4096 bytes in which any
  byte value occurs between 1 and 8 times is declared incompressible, however regular it is; a
  sample of one repeated byte with a single different byte is enough.\<close>

theorem rare_byte_disables_compression:
  assumes "length sample = 4096" and "1 \<le> byte_count sample b" and "byte_count sample b \<le> 8"
  shows "7.5 < calc_entropy sample \<and> detect path sample = NONE"
proof -
  have "log 2 512 \<le> log 2 (real (length sample) / real (byte_count sample b))"
    using assms by (simp add: field_simps)
  moreover have "log 2 (512 :: real) = 9"
    using log_pow_cancel [of "2 :: real" 9] by simp
  ultimately have "7.5 < calc_entropy sample"
    using calc_entropy_lower [of sample b] assms(2) by simp
  then show ?thesis by (simp add: detect_def Let_def)
qed

theorem rare_byte_disables_compression_witness:
  "7.5 < calc_entropy (replicate 4095 0 @ [1]) \<and> detect ''notes.txt'' (replicate 4095 0 @ [1]) = NONE"
  by (rule rare_byte_disables_compression [where b = 1]) (simp_all add: byte_count_def)

lemma lower_ascii_dot: "lower_ascii c = CHR ''.'' \<longleftrightarrow> c = CHR ''.''"
proof -
  have "char_of (of_char c + 32 :: nat) \<noteq> CHR ''.''" if "65 \<le> (of_char c :: nat)" "(of_char c :: nat) \<le> 90"
  proof
    assume "char_of (of_char c + 32 :: nat) = CHR ''.''"
    then have "of_char (char_of (of_char c + 32 :: nat)) = (of_char CHR ''.'' :: nat)" by simp
    with that show False by simp
  qed
  then show ?thesis by (auto simp: lower_ascii_def)
qed

lemma path_extension_shape:
  "path_extension p = [] \<or> (\<exists>t. path_extension p = CHR ''.'' # t \<and> CHR ''.'' \<notin> set t)"
  by (auto simp: path_extension_def Let_def dest: set_takeWhileD)

text \<open>Two entries of the skip list can never match: no path has the extension \<open>/pdf\<close> or
  \<open>.tar.gz\<close>, so a PDF file goes on to the entropy test and can be compressed, while an entry a
  path can have matches whatever the case of the file name.\<close>

theorem skip_list_dead_entries:
  "map lower_ascii (path_extension p) \<noteq> ''/pdf'' \<and> map lower_ascii (path_extension p) \<noteq> ''.tar.gz''
   \<and> detect ''REPORT.PDF'' [] = LZ4 \<and> detect ''MOVIE.MP4'' sample = NONE"
proof -
  have dot: "CHR ''.'' \<notin> set t \<Longrightarrow> CHR ''.'' \<notin> set (map lower_ascii t)" for t
    using lower_ascii_dot by (metis imageE list.set_map)
  have "map lower_ascii (path_extension p) \<noteq> ''/pdf''"
    using path_extension_shape [of p] lower_ascii_dot [of "CHR ''.''"] by auto
  moreover have "map lower_ascii (path_extension p) \<noteq> ''.tar.gz''"
  proof
    assume e: "map lower_ascii (path_extension p) = ''.tar.gz''"
    with path_extension_shape [of p] obtain t where "path_extension p = CHR ''.'' # t" "CHR ''.'' \<notin> set t"
      by auto
    with e dot [of t] show False by auto
  qed
  moreover have "map lower_ascii (path_extension ''REPORT.PDF'') = ''.pdf''"
    and "map lower_ascii (path_extension ''MOVIE.MP4'') = ''.mp4''"
    by code_simp+
  then have "detect ''REPORT.PDF'' [] = LZ4" and "detect ''MOVIE.MP4'' sample = NONE"
    by (simp_all add: detect_def calc_entropy_def skip_exten_def)
  ultimately show ?thesis by simp
qed

end
