(* ===== verification/Crypto.thy ===== *)
theory Crypto
  imports Strings
begin

text \<open>
  \<^verbatim>\<open>src/core/crypto.cpp\<close>: key derivation from the PIN and AES-256-GCM over one chunk.  OpenSSL is a
  parameter: \<open>SHA256\<close> as a function on byte strings and the EVP cipher interface as one function
  per call over an abstract context type, \<open>None\<close> being a return other than success.  The update calls take
  the bytes at the pointer and the length as a C \<open>int\<close>, to which the code narrows a \<open>size_t\<close>.  What the code
  relies on is \<open>gcm_lawful\<close>.
\<close>

subsection \<open>The library calls\<close>

record 'ctx evp =
  evp_ctx_new :: "'ctx option"
  evp_EncryptInit :: "'ctx \<Rightarrow> byte list \<Rightarrow> byte list \<Rightarrow> 'ctx option"
  evp_EncryptUpdate :: "'ctx \<Rightarrow> byte list \<Rightarrow> int \<Rightarrow> ('ctx \<times> byte list) option"
  evp_EncryptFinal :: "'ctx \<Rightarrow> ('ctx \<times> byte list) option"
  evp_GetTag :: "'ctx \<Rightarrow> nat \<Rightarrow> byte list"
  evp_DecryptInit :: "'ctx \<Rightarrow> byte list \<Rightarrow> byte list \<Rightarrow> 'ctx option"
  evp_DecryptUpdate :: "'ctx \<Rightarrow> byte list \<Rightarrow> int \<Rightarrow> ('ctx \<times> byte list) option"
  evp_SetTag :: "'ctx \<Rightarrow> byte list \<Rightarrow> 'ctx"
  evp_DecryptFinal :: "'ctx \<Rightarrow> byte list option"

subsection \<open>The code\<close>

definition pin_string :: "u32 \<Rightarrow> string" where
  "pin_string pin = to_string (unat pin) @ ''sxaint_taintx_xsaint''"

definition derive_key :: "(byte list \<Rightarrow> byte list) \<Rightarrow> u32 \<Rightarrow> byte list" where
  "derive_key SHA256 pin = SHA256 (bytes_of_string (pin_string pin))"

definition chunk_iv :: "u32 \<Rightarrow> byte list" where
  "chunk_iv chunk_id = put32 chunk_id @ replicate 8 0"

text \<open>A length as the update calls get it: the low 32 bits, read as a signed number.\<close>

definition int_length :: "nat \<Rightarrow> int" where
  "int_length n = sint (word_of_nat n :: u32)"

lemma int_length_int: "int_length n = sint (word_of_int (int n) :: u32)"
  by (simp add: int_length_def)

lemma int_length_small: "n < 2 ^ 31 \<Longrightarrow> int_length n = int n"
  unfolding int_length_int by (rule sint_word_of_int_small) simp_all

text \<open>From 2 GiB on the library is asked for another length than the caller has.\<close>

lemma int_length_wraps:
  assumes "2 ^ 31 \<le> n" and "n < 2 ^ 32"
  shows "int_length n = int n - 2 ^ 32"
proof -
  have "(word_of_int (int n) :: u32) = word_of_int (int n - 2 ^ 32)"
    by (simp only: word_of_int_eq_iff take_bit_eq_mod) simp
  then have "int_length n = sint (word_of_int (int n - 2 ^ 32) :: u32)" unfolding int_length_int by (rule arg_cong)
  also have "\<dots> = int n - 2 ^ 32" using assms by (intro sint_word_of_int_small) simp_all
  finally show ?thesis .
qed

text \<open>The cipher reads 32 key bytes through \<open>key.data ()\<close>; a shorter vector is read past its end.\<close>

definition encrypt :: "'ctx evp \<Rightarrow> byte list \<Rightarrow> byte list \<Rightarrow> u32 \<Rightarrow> byte list result" where
  "encrypt E plaintext key chunk_id =
     (case evp_ctx_new E of
        None \<Rightarrow> Inl (Throw ''failed to create EVP context'')
      | Some ctx \<Rightarrow>
          if length key < 32 then Inl OutOfBounds
          else case evp_EncryptInit E ctx (take 32 key) (chunk_iv chunk_id) of
            None \<Rightarrow> Inl (Throw ''EVP_EncryptInit_ex failed'')
          | Some ctx1 \<Rightarrow>
              (case evp_EncryptUpdate E ctx1 plaintext (int_length (length plaintext)) of
                 None \<Rightarrow> Inl (Throw ''EVP_EncryptUpdate failed'')
               | Some (ctx2, out1) \<Rightarrow>
                   (case evp_EncryptFinal E ctx2 of
                      None \<Rightarrow> Inl (Throw ''EVP_EncryptFinal_ex failed'')
                    | Some (ctx3, out2) \<Rightarrow>
                        if length plaintext < length out1 + length out2 then Inl OutOfBounds
                        else Inr (out1 @ out2 @ evp_GetTag E ctx3 16))))"

definition decrypt :: "'ctx evp \<Rightarrow> byte list \<Rightarrow> byte list \<Rightarrow> u32 \<Rightarrow> byte list result" where
  "decrypt E ciphertext key chunk_id =
     (if length ciphertext < 16 then Inl (Throw ''Ciphertext too small to contain MAC'')
      else case evp_ctx_new E of
        None \<Rightarrow> Inl (Throw ''Failed to create EVP context'')
      | Some ctx \<Rightarrow>
          if length key < 32 then Inl OutOfBounds
          else let actual_cipher_len = length ciphertext - 16 in
          (case evp_DecryptInit E ctx (take 32 key) (chunk_iv chunk_id) of
            None \<Rightarrow> Inl (Throw ''EVP_DecryptInit_ex failed'')
          | Some ctx1 \<Rightarrow>
              (case evp_DecryptUpdate E ctx1 (take actual_cipher_len ciphertext) (int_length actual_cipher_len) of
                 None \<Rightarrow> Inl (Throw ''EVP_DecryptUpdate failed'')
               | Some (ctx2, out1) \<Rightarrow>
                   let ctx3 = evp_SetTag E ctx2 (drop actual_cipher_len ciphertext) in
                   (case evp_DecryptFinal E ctx3 of
                      None \<Rightarrow> Inl (Throw ''MAC verification failed! Data was tampered with or PIN is wrong.'')
                    | Some out2 \<Rightarrow>
                        if actual_cipher_len < length out1 + length out2 then Inl OutOfBounds
                        else Inr (out1 @ out2)))))"

subsection \<open>Documented behaviour of the library\<close>

text \<open>
  \<open>gcm_seal\<close> and \<open>gcm_open\<close> name the results of the call sequences the EVP documentation gives for
  authenticated encryption, with lengths that are \<open>int\<close>s.  A lawful provider hands out contexts, seals every
  plaintext whose length is an \<open>int\<close> under every 32-byte key and 12-byte nonce into a ciphertext of the same length
  and a 16-byte tag, and opens a ciphertext exactly when it was sealed under the same key and nonce with that tag.
  Nothing is assumed of longer texts.
\<close>

definition gcm_seal :: "'ctx evp \<Rightarrow> byte list \<Rightarrow> byte list \<Rightarrow> byte list \<Rightarrow> (byte list \<times> byte list) option" where
  "gcm_seal E key iv p =
     Option.bind (evp_ctx_new E) (\<lambda>c.
     Option.bind (evp_EncryptInit E c key iv) (\<lambda>c1.
     Option.bind (evp_EncryptUpdate E c1 p (int (length p))) (\<lambda>(c2, o1).
     Option.bind (evp_EncryptFinal E c2) (\<lambda>(c3, o2). Some (o1 @ o2, evp_GetTag E c3 16)))))"

definition gcm_open :: "'ctx evp \<Rightarrow> byte list \<Rightarrow> byte list \<Rightarrow> byte list \<Rightarrow> byte list \<Rightarrow> byte list option" where
  "gcm_open E key iv c tag =
     Option.bind (evp_ctx_new E) (\<lambda>x.
     Option.bind (evp_DecryptInit E x key iv) (\<lambda>x1.
     Option.bind (evp_DecryptUpdate E x1 c (int (length c))) (\<lambda>(x2, o1).
     map_option (\<lambda>o2. o1 @ o2) (evp_DecryptFinal E (evp_SetTag E x2 tag)))))"

definition gcm_lawful :: "'ctx evp \<Rightarrow> bool" where
  "gcm_lawful E \<longleftrightarrow>
     (\<forall>key iv p. length key = 32 \<and> length iv = 12 \<and> length p < 2 ^ 31 \<longrightarrow>
        (\<exists>c tag. gcm_seal E key iv p = Some (c, tag) \<and> length c = length p \<and> length tag = 16))
   \<and> (\<forall>key iv p c tag. length key = 32 \<and> length iv = 12 \<and> length tag = 16 \<and> length c < 2 ^ 31 \<longrightarrow>
        (gcm_open E key iv c tag = Some p \<longleftrightarrow> length p = length c \<and> gcm_seal E key iv p = Some (c, tag)))"

lemma length_chunk_iv [simp]: "length (chunk_iv i) = 12"
  by (simp add: chunk_iv_def)

lemma chunk_iv_inject: "chunk_iv i = chunk_iv j \<longleftrightarrow> i = j"
  using le32.enc_inject [of i j] by (auto simp: chunk_iv_def)

lemma encrypt_seal:
  assumes "gcm_lawful E" and "length key = 32" and "length p < 2 ^ 31"
  shows "\<exists>c tag. gcm_seal E key (chunk_iv i) p = Some (c, tag) \<and> length c = length p
    \<and> length tag = 16 \<and> encrypt E p key i = Inr (c @ tag)"
proof -
  obtain c tag where s: "gcm_seal E key (chunk_iv i) p = Some (c, tag)"
    and l: "length c = length p" "length tag = 16"
    using assms unfolding gcm_lawful_def by (meson length_chunk_iv)
  have "encrypt E p key i = Inr (c @ tag)"
    using s l assms(2) int_length_small [OF assms(3)]
    by (auto simp: gcm_seal_def encrypt_def bind_eq_Some_conv split: prod.splits)
  with s l show ?thesis by blast
qed

lemma decrypt_open:
  assumes "gcm_lawful E" and "length key = 32" and "length tag = 16" and "length c < 2 ^ 31"
  shows "decrypt E (c @ tag) key i = Inr p \<longleftrightarrow> length p = length c \<and> gcm_seal E key (chunk_iv i) p = Some (c, tag)"
proof -
  have op: "gcm_open E key (chunk_iv i) c tag = Some p \<longleftrightarrow> length p = length c \<and> gcm_seal E key (chunk_iv i) p = Some (c, tag)"
    using assms unfolding gcm_lawful_def by simp
  note n = int_length_small [OF assms(4)]
  show ?thesis
  proof
    assume "decrypt E (c @ tag) key i = Inr p"
    then have "gcm_open E key (chunk_iv i) c tag = Some p"
      using assms n
      by (auto simp: gcm_open_def decrypt_def Let_def bind_eq_Some_conv
          split: option.splits prod.splits if_splits)
    then show "length p = length c \<and> gcm_seal E key (chunk_iv i) p = Some (c, tag)" using op by simp
  next
    assume s: "length p = length c \<and> gcm_seal E key (chunk_iv i) p = Some (c, tag)"
    then have "gcm_open E key (chunk_iv i) c tag = Some p" using op by simp
    with s assms n show "decrypt E (c @ tag) key i = Inr p"
      by (auto simp: gcm_open_def decrypt_def Let_def bind_eq_Some_conv)
  qed
qed

lemma encrypt_decrypt:
  assumes "gcm_lawful E" and "length key = 32" and "length p < 2 ^ 31"
  shows "\<exists>c. encrypt E p key i = Inr c \<and> length c = length p + 16 \<and> decrypt E c key i = Inr p"
proof -
  obtain c tag where s: "gcm_seal E key (chunk_iv i) p = Some (c, tag)" "length c = length p" "length tag = 16"
    "encrypt E p key i = Inr (c @ tag)" using encrypt_seal [OF assms] by blast
  with decrypt_open [OF assms(1,2) s(3), of c i p] assms(3) show ?thesis by simp
qed

lemma split_tag:
  assumes "16 \<le> length c"
  obtains b tag where "c = b @ tag" and "length tag = 16"
  using assms by (metis append_take_drop_id diff_diff_cancel length_drop)

lemma decrypt_encrypt:
  assumes "gcm_lawful E" and "length key = 32" and "length c < 2 ^ 31 + 16" and d: "decrypt E c key i = Inr p"
  shows "encrypt E p key i = Inr c" and "length c = length p + 16"
proof -
  have "16 \<le> length c" using d by (auto simp: decrypt_def split: if_splits)
  then obtain b tag where c: "c = b @ tag" and t: "length tag = 16" by (rule split_tag)
  then have b: "length b < 2 ^ 31" using assms(3) by simp
  from d c have s: "length p = length b" "gcm_seal E key (chunk_iv i) p = Some (b, tag)"
    using decrypt_open [OF assms(1,2) t b] by simp_all
  with encrypt_seal [OF assms(1,2), of p i] c b show "encrypt E p key i = Inr c" by auto
  show "length c = length p + 16" using s c t by simp
qed

text \<open>A refusal is always a C++ exception, which the caller catches.\<close>

lemma decrypt_refusal:
  assumes law: "gcm_lawful E" and key: "length key = 32" and n: "length c < 2 ^ 31 + 16" and d: "decrypt E c key i = Inl e"
  shows "\<exists>what. e = Throw what"
proof (rule ccontr)
  assume no: "\<nexists>what. e = Throw what"
  then have "16 \<le> length c" using d by (auto simp: decrypt_def split: if_splits)
  then obtain b tag where c: "c = b @ tag" and t: "length tag = 16" by (rule split_tag)
  then have b: "length b < 2 ^ 31" using n by simp
  from d no obtain p where "gcm_open E key (chunk_iv i) b tag = Some p"
    using key t int_length_small [OF b]
    by (auto simp: c decrypt_def gcm_open_def Let_def split: if_splits option.splits prod.splits)
  then have "length p = length b \<and> gcm_seal E key (chunk_iv i) p = Some (b, tag)"
    using law key t b unfolding gcm_lawful_def by simp
  then have "decrypt E c key i = Inr p" using decrypt_open [OF law key t b] c by simp
  with d show False by simp
qed

lemma decrypt_too_short:
  "length c < 16 \<Longrightarrow> decrypt E c key i = Inl (Throw ''Ciphertext too small to contain MAC'')"
  by (simp add: decrypt_def)

lemma pin_string_inject: "pin_string a = pin_string b \<longleftrightarrow> a = b"
  by (auto simp: pin_string_def to_string_inject word_unat_eq_iff)

subsection \<open>Properties\<close>

text \<open>C25: authenticated encryption of a chunk.  Every payload below 2 GiB, the lengths the code can pass to the
  library, encrypts to a ciphertext 16 bytes longer, and decrypting that under the same key and chunk number
  returns it.  Of the ciphertexts below 2 GiB and a tag, \<open>decrypt\<close> accepts under a key and chunk number exactly
  what \<open>encrypt\<close> makes of the plaintext it returns, so altered or relabelled chunks are refused, and a
  refusal is always a C++ exception: neither a short nor a damaged ciphertext makes it read or write out of
  bounds.\<close>

theorem chunk_encryption_sound:
  assumes "gcm_lawful E" and "length key = 32" and "length p < 2 ^ 31" and "length c' < 2 ^ 31 + 16"
  shows "(\<exists>c. encrypt E p key i = Inr c \<and> length c = length p + 16 \<and> decrypt E c key i = Inr p)
    \<and> (decrypt E c' key i = Inr p' \<longleftrightarrow> length c' = length p' + 16 \<and> encrypt E p' key i = Inr c')
    \<and> (\<forall>e. decrypt E c' key i = Inl e \<longrightarrow> (\<exists>what. e = Throw what))"
proof (intro conjI allI impI)
  show "\<exists>c. encrypt E p key i = Inr c \<and> length c = length p + 16 \<and> decrypt E c key i = Inr p"
    using encrypt_decrypt [OF assms(1-3)] .
  show "decrypt E c' key i = Inr p' \<longleftrightarrow> length c' = length p' + 16 \<and> encrypt E p' key i = Inr c'"
  proof
    assume "decrypt E c' key i = Inr p'"
    then show "length c' = length p' + 16 \<and> encrypt E p' key i = Inr c'" using decrypt_encrypt [OF assms(1,2,4)] by blast
  next
    assume c: "length c' = length p' + 16 \<and> encrypt E p' key i = Inr c'"
    then have "length p' < 2 ^ 31" using assms(4) by simp
    from encrypt_decrypt [OF assms(1,2) this, of i] c show "decrypt E c' key i = Inr p'" by fastforce
  qed
  show "\<exists>what. e = Throw what" if "decrypt E c' key i = Inl e" for e
    using decrypt_refusal [OF assms(1,2,4) that] .
qed

text \<open>A provider that masks with the first nonce byte and uses half the key as tag meets the laws.\<close>

definition mask_evp :: "(byte list \<times> byte list \<times> byte list) evp" where
  "mask_evp = \<lparr>
     evp_ctx_new = Some ([], [], []),
     evp_EncryptInit = (\<lambda>_ key iv. Some (key, iv, [])),
     evp_EncryptUpdate = (\<lambda>(key, iv, t) p n. Some ((key, iv, t), map (\<lambda>b. b XOR hd iv) p)),
     evp_EncryptFinal = (\<lambda>c. Some (c, [])),
     evp_GetTag = (\<lambda>(key, iv, t) n. take n key),
     evp_DecryptInit = (\<lambda>_ key iv. Some (key, iv, [])),
     evp_DecryptUpdate = (\<lambda>(key, iv, t) p n. Some ((key, iv, t), map (\<lambda>b. b XOR hd iv) p)),
     evp_SetTag = (\<lambda>(key, iv, _) t. (key, iv, t)),
     evp_DecryptFinal = (\<lambda>(key, iv, t). if t = take 16 key then Some [] else None)\<rparr>"

lemma map_xor_xor: "map (\<lambda>b. b XOR k) (map (\<lambda>b. b XOR k) p) = (p :: byte list)"
proof -
  have "(b XOR k) XOR k = b" for b by (rule bit_word_eqI) (auto simp: bit_xor_iff)
  then show ?thesis by (simp only: map_map o_def map_ident)
qed

lemma map_xor_swap:
  "map (\<lambda>b. b XOR k) c = p \<longleftrightarrow> map (\<lambda>b. b XOR k) p = (c :: byte list)"
  by (metis map_xor_xor)

lemma mask_seal: "gcm_seal mask_evp key iv p = Some (map (\<lambda>b. b XOR hd iv) p, take 16 key)"
  by (simp add: gcm_seal_def mask_evp_def)

lemma mask_open:
  "gcm_open mask_evp key iv c tag =
     (if tag = take 16 key then Some (map (\<lambda>b. b XOR hd iv) c) else None)"
  by (simp add: gcm_open_def mask_evp_def)

lemma mask_evp_lawful: "gcm_lawful mask_evp"
  unfolding gcm_lawful_def mask_seal mask_open
proof (intro conjI allI impI)
  fix key iv p c tag :: "byte list"
  show "((if tag = take 16 key then Some (map (\<lambda>b. b XOR hd iv) c) else None) = Some p) =
        (length p = length c \<and> Some (map (\<lambda>b. b XOR hd iv) p, take 16 key) = Some (c, tag))"
  proof (cases "tag = take 16 key")
    case True
    have "map (\<lambda>b. b XOR hd iv) p = c \<Longrightarrow> length p = length c" by auto
    with True show ?thesis
      unfolding if_P [OF True] option.inject prod.inject map_xor_swap [of "hd iv" c p] by blast
  next
    case False
    then show ?thesis by (auto simp del: list.map)
  qed
qed simp

theorem chunk_encryption_sound_witness:
  "(\<exists>c. encrypt mask_evp [1, 2, 3] (replicate 32 7) 5 = Inr c \<and> length c = 19
      \<and> decrypt mask_evp c (replicate 32 7) 5 = Inr [1, 2, 3])
   \<and> encrypt mask_evp [4] (replicate 32 7) 5 = Inr (1 # replicate 16 7)"
proof -
  have iv: "hd (chunk_iv 5) = 5"
    by (simp add: chunk_iv_def put32_def le_enc_numeral)
  have tag: "replicate 16 7 = take 16 (replicate 32 (7 :: byte))" by simp
  have "decrypt mask_evp ([1] @ replicate 16 7) (replicate 32 7) 5 = Inr [4]"
    using decrypt_open [OF mask_evp_lawful, of "replicate 32 7" "replicate 16 7" "[1]" 5 "[4]"]
    by (simp add: mask_seal iv)
  then show ?thesis
    using chunk_encryption_sound [OF mask_evp_lawful, of "replicate 32 7" "[1, 2, 3]"
        "[1] @ replicate 16 7" 5 "[4]"]
    by simp
qed

text \<open>Nonces and keys: within a transfer no two chunk numbers share a nonce, and different PINs
  hash different strings; but the key depends on the PIN alone and the nonce on the chunk number
  alone, so the chunks with the same number of any two transfers under one PIN are sealed with the
  same key and nonce.\<close>

theorem nonce_reuse_across_transfers:
  assumes "gcm_lawful E" and "\<forall>m. length (sha m) = 32" and "length p < 2 ^ 31" and "length q < 2 ^ 31"
  shows "(chunk_iv i = chunk_iv j \<longleftrightarrow> i = j) \<and> (pin_string a = pin_string b \<longleftrightarrow> a = b)
   \<and> (\<exists>c t d u. gcm_seal E (derive_key sha a) (chunk_iv i) p = Some (c, t)
        \<and> encrypt E p (derive_key sha a) i = Inr (c @ t)
        \<and> gcm_seal E (derive_key sha a) (chunk_iv i) q = Some (d, u)
        \<and> encrypt E q (derive_key sha a) i = Inr (d @ u))"
proof -
  have "length (derive_key sha a) = 32" using assms(2) by (simp add: derive_key_def)
  from encrypt_seal [OF assms(1) this assms(3), of i] encrypt_seal [OF assms(1) this assms(4), of i] show ?thesis
    by (metis chunk_iv_inject pin_string_inject)
qed

theorem nonce_reuse_across_transfers_witness:
  "\<exists>c t d u. gcm_seal mask_evp (derive_key (\<lambda>m. replicate 32 0) 123456) (chunk_iv 0) [1] = Some (c, t)
        \<and> encrypt mask_evp [1] (derive_key (\<lambda>m. replicate 32 0) 123456) 0 = Inr (c @ t)
        \<and> gcm_seal mask_evp (derive_key (\<lambda>m. replicate 32 0) 123456) (chunk_iv 0) [2] = Some (d, u)
        \<and> encrypt mask_evp [2] (derive_key (\<lambda>m. replicate 32 0) 123456) 0 = Inr (d @ u)"
  using nonce_reuse_across_transfers [OF mask_evp_lawful, of "\<lambda>m. replicate 32 0" "[1]" "[2]"] by simp

end
