(* ===== verification/Protocol.thy ===== *)
theory Protocol
  imports Prelude
begin

text \<open>
  \<^verbatim>\<open>include/net/protocol.h\<close>: the message types and the three packed structures
  (\<open>#pragma pack (1)\<close>), as the byte images that \<open>memcpy\<close> to and from a buffer produces.
\<close>

datatype messageType = MT_handshake | MT_handshakeAck | MT_handshakeReject | MT_chunkData

fun msg_code :: "messageType \<Rightarrow> byte" where
  "msg_code MT_handshake = 0x01"
| "msg_code MT_handshakeAck = 0x02"
| "msg_code MT_handshakeReject = 0x03"
| "msg_code MT_chunkData = 0x04"

record handshake =
  hs_type :: byte
  hs_pin :: u32
  hs_file_size :: u64
  hs_chunk_size :: u32
  hs_total_chunks :: u32
  hs_file_name :: "byte list"

record handshakeAck =
  ack_type :: byte
  ack_total_chunks :: u32

record chunkWireHeader =
  wh_type :: byte
  wh_chunk_id :: u32
  wh_compressed_size :: u32
  wh_original_size :: u32
  wh_crc32 :: u32
  wh_compress_stra :: byte

definition sizeof_handshake :: nat where "sizeof_handshake = 277"
definition sizeof_handshakeAck :: nat where "sizeof_handshakeAck = 5"
definition sizeof_chunkWireHeader :: nat where "sizeof_chunkWireHeader = 18"

lemmas sizeof_defs = sizeof_handshake_def sizeof_handshakeAck_def sizeof_chunkWireHeader_def

definition handshake_bytes :: "handshake \<Rightarrow> byte list" where
  "handshake_bytes h = hs_type h # put32 (hs_pin h) @ put64 (hs_file_size h)
     @ put32 (hs_chunk_size h) @ put32 (hs_total_chunks h) @ hs_file_name h"

definition read_handshake :: "byte list \<Rightarrow> handshake" where
  "read_handshake bs = \<lparr>hs_type = hd bs, hs_pin = get32 (drop 1 bs), hs_file_size = get64 (drop 5 bs),
     hs_chunk_size = get32 (drop 13 bs), hs_total_chunks = get32 (drop 17 bs),
     hs_file_name = take 256 (drop 21 bs)\<rparr>"

definition handshakeAck_bytes :: "handshakeAck \<Rightarrow> byte list" where
  "handshakeAck_bytes a = ack_type a # put32 (ack_total_chunks a)"

definition read_handshakeAck :: "byte list \<Rightarrow> handshakeAck" where
  "read_handshakeAck bs = \<lparr>ack_type = hd bs, ack_total_chunks = get32 (drop 1 bs)\<rparr>"

definition chunkWireHeader_bytes :: "chunkWireHeader \<Rightarrow> byte list" where
  "chunkWireHeader_bytes h = wh_type h # put32 (wh_chunk_id h) @ put32 (wh_compressed_size h)
     @ put32 (wh_original_size h) @ put32 (wh_crc32 h) @ [wh_compress_stra h]"

definition read_chunkWireHeader :: "byte list \<Rightarrow> chunkWireHeader" where
  "read_chunkWireHeader bs = \<lparr>wh_type = hd bs, wh_chunk_id = get32 (drop 1 bs),
     wh_compressed_size = get32 (drop 5 bs), wh_original_size = get32 (drop 9 bs),
     wh_crc32 = get32 (drop 13 bs), wh_compress_stra = hd (drop 17 bs)\<rparr>"

subsection \<open>The codecs\<close>

lemma drop_Suc_put:
  "drop (n + 4) (put32 a @ r) = drop n r" "drop (n + 8) (put64 b @ r) = drop n r"
  by (simp_all flip: drop_drop)

lemma msg_code_inject: "msg_code a = msg_code b \<longleftrightarrow> a = b"
  by (cases a; cases b) simp_all

interpretation handshake_codec: byte_codec sizeof_handshake handshake_bytes read_handshake
  "\<lambda>h. length (hs_file_name h) = 256"
proof
  show "length (handshake_bytes h) = sizeof_handshake" if "length (hs_file_name h) = 256" for h
    using that by (simp add: handshake_bytes_def sizeof_defs)
  show "read_handshake (handshake_bytes h @ r) = h" if "length (hs_file_name h) = 256" for h r
    using that
    by (cases h) (simp add: read_handshake_def handshake_bytes_def numeral_eq_Suc flip: numeral_eq_Suc)
qed

interpretation ack_codec: byte_codec sizeof_handshakeAck handshakeAck_bytes read_handshakeAck
  "\<lambda>_. True"
  by unfold_locales (simp_all add: read_handshakeAck_def handshakeAck_bytes_def sizeof_defs)

interpretation header_codec: byte_codec sizeof_chunkWireHeader chunkWireHeader_bytes
  read_chunkWireHeader "\<lambda>_. True"
proof
  show "length (chunkWireHeader_bytes h) = sizeof_chunkWireHeader" for h
    by (simp add: chunkWireHeader_bytes_def sizeof_defs)
  show "read_chunkWireHeader (chunkWireHeader_bytes h @ r) = h" for h r
    by (cases h) (simp add: read_chunkWireHeader_def chunkWireHeader_bytes_def)
qed

end
