(* ===== verification/Thread_Pool.thy ===== *)
theory Thread_Pool
  imports Prelude "HOL-Library.Multiset"
begin

text \<open>
  \<^verbatim>\<open>src/core/thread_pool.cpp\<close> and \<^verbatim>\<open>include/core/thread_pool.h\<close>.  A worker is a program counter over
  the statements of the worker lambda; a critical section under \<open>queue_mutex_\<close>, an atomic access and a
  semaphore operation are one step each.  \<open>shutdown\<close> runs in its own steps, one worker at a time, as
  \<open>workers_.clear ()\<close> stops and joins the \<open>jthread\<close>s in order.  The invariant shows that before
  shutdown no task is lost or duplicated and that a queued task always has a worker able to proceed;
  two schedules show that shutdown can block for ever and that it can leave tasks unexecuted.
\<close>

subsection \<open>The code\<close>

text \<open>The number of workers and the affinity mask of worker \<open>i\<close>; \<open>hw\<close> is
  \<open>std::thread::hardware_concurrency ()\<close>, which is 0 when the value is not computable.\<close>

definition pool_size :: "nat \<Rightarrow> nat \<Rightarrow> nat" where
  "pool_size hw threads = (if threads = 0 then (if hw > 0 then hw * 2 else 8) else threads)"

definition affinity_mask :: "nat \<Rightarrow> nat \<Rightarrow> u64 result" where
  "affinity_mask hw i =
     (if hw = 0 then Inl DivideByZero
      else if i mod hw < 64 then Inr (push_bit (i mod hw) 1) else Inl BrokenPrecondition)"

datatype worker = W_Loop | W_Acquire | W_Check | W_Take | W_Start nat | W_Run nat | W_Finish | W_Done

datatype shutdown_pc = Sd_Idle | Sd_Release | Sd_Clear nat | Sd_Join nat | Sd_Done

text \<open>The pool.  Tasks are numbers; \<open>tp_releasing\<close> counts the submitters between the end of their
  critical section and \<open>taskSemaphore_.release ()\<close>; stop has been requested of the workers below
  \<open>tp_stop\<close>.  \<open>tp_submitted\<close> and \<open>tp_executed\<close> record the history.\<close>

record pool =
  tp_workers :: "worker list"
  tp_tasks :: "nat list"
  tp_sem :: nat
  tp_shutdown :: bool
  tp_active :: u64
  tp_queued :: u64
  tp_releasing :: nat
  tp_stop :: nat
  tp_main :: shutdown_pc
  tp_submitted :: "nat list"
  tp_executed :: "nat list"

definition new_pool :: "nat \<Rightarrow> pool" where
  "new_pool n = \<lparr>tp_workers = replicate n W_Loop, tp_tasks = [], tp_sem = 0, tp_shutdown = False,
     tp_active = 0, tp_queued = 0, tp_releasing = 0, tp_stop = 0, tp_main = Sd_Idle,
     tp_submitted = [], tp_executed = []\<rparr>"

definition submit :: "nat \<Rightarrow> pool \<Rightarrow> pool result" where
  "submit task p =
     (if tp_shutdown p then Inl (Throw ''cannot submit to a stopped ThreadPool'')
      else Inr (p\<lparr>tp_tasks := tp_tasks p @ [task], tp_queued := tp_queued p + 1,
             tp_releasing := tp_releasing p + 1, tp_submitted := tp_submitted p @ [task]\<rparr>))"

definition submit_release :: "pool \<Rightarrow> pool option" where
  "submit_release p =
     (if tp_releasing p > 0 then Some (p\<lparr>tp_releasing := tp_releasing p - 1, tp_sem := tp_sem p + 1\<rparr>)
      else None)"

definition goto :: "nat \<Rightarrow> worker \<Rightarrow> pool \<Rightarrow> pool" where
  "goto i w p = p\<lparr>tp_workers := (tp_workers p)[i := w]\<rparr>"

definition stop_requested :: "nat \<Rightarrow> pool \<Rightarrow> bool" where
  "stop_requested i p \<longleftrightarrow> i < tp_stop p"

definition worker_step :: "nat \<Rightarrow> pool \<Rightarrow> pool option" where
  "worker_step i p =
     (if i < length (tp_workers p)
      then (case tp_workers p ! i of
          W_Loop \<Rightarrow> Some (goto i (if stop_requested i p then W_Done else W_Acquire) p)
        | W_Acquire \<Rightarrow> if tp_sem p > 0 then Some (goto i W_Check (p\<lparr>tp_sem := tp_sem p - 1\<rparr>)) else None
        | W_Check \<Rightarrow> Some (goto i (if tp_shutdown p \<and> tp_tasks p = [] then W_Done else W_Take) p)
        | W_Take \<Rightarrow> (case tp_tasks p of
              [] \<Rightarrow> Some (goto i W_Loop p)
            | task # rest \<Rightarrow>
                Some (goto i (W_Start task) (p\<lparr>tp_tasks := rest, tp_queued := tp_queued p - 1\<rparr>)))
        | W_Start task \<Rightarrow> Some (goto i (W_Run task) (p\<lparr>tp_active := tp_active p + 1\<rparr>))
        | W_Run task \<Rightarrow> Some (goto i W_Finish (p\<lparr>tp_executed := tp_executed p @ [task]\<rparr>))
        | W_Finish \<Rightarrow> Some (goto i W_Loop (p\<lparr>tp_active := tp_active p - 1\<rparr>))
        | W_Done \<Rightarrow> None)
      else None)"

text \<open>\<open>shutdown\<close>; the destructor of worker \<open>i\<close> requests its stop and joins it.\<close>

definition shutdown_step :: "pool \<Rightarrow> pool option" where
  "shutdown_step p =
     (case tp_main p of
        Sd_Idle \<Rightarrow> Some (p\<lparr>tp_shutdown := True, tp_main := Sd_Release\<rparr>)
      | Sd_Release \<Rightarrow> Some (p\<lparr>tp_sem := tp_sem p + length (tp_workers p), tp_main := Sd_Clear 0\<rparr>)
      | Sd_Clear i \<Rightarrow>
          if i < length (tp_workers p) then Some (p\<lparr>tp_stop := i + 1, tp_main := Sd_Join i\<rparr>)
          else Some (p\<lparr>tp_main := Sd_Done\<rparr>)
      | Sd_Join i \<Rightarrow> if tp_workers p ! i = W_Done then Some (p\<lparr>tp_main := Sd_Clear (i + 1)\<rparr>) else None
      | Sd_Done \<Rightarrow> None)"

definition active_threads :: "pool \<Rightarrow> u64" where "active_threads p = tp_active p"
definition queuedTask :: "pool \<Rightarrow> u64" where "queuedTask p = tp_queued p"

datatype pool_event = Ev_Submit nat | Ev_Release | Ev_Worker nat | Ev_Shutdown

definition pool_next :: "pool_event \<Rightarrow> pool \<Rightarrow> pool option" where
  "pool_next e p =
     (case e of
        Ev_Submit task \<Rightarrow> (case submit task p of Inl _ \<Rightarrow> None | Inr q \<Rightarrow> Some q)
      | Ev_Release \<Rightarrow> submit_release p
      | Ev_Worker i \<Rightarrow> worker_step i p
      | Ev_Shutdown \<Rightarrow> shutdown_step p)"

inductive pool_step :: "pool \<Rightarrow> pool \<Rightarrow> bool" where
  event: "pool_next e p = Some q \<Longrightarrow> pool_step p q"

inductive_cases pool_stepE: "pool_step p q"

fun pool_run :: "pool_event list \<Rightarrow> pool \<Rightarrow> pool option" where
  "pool_run [] p = Some p"
| "pool_run (e # es) p = (case pool_next e p of None \<Rightarrow> None | Some q \<Rightarrow> pool_run es q)"

lemma pool_run_reachable: "pool_run es p = Some q \<Longrightarrow> pool_step\<^sup>*\<^sup>* p q"
  by (induction es arbitrary: p)
    (auto split: option.splits intro: converse_rtranclp_into_rtranclp pool_step.event)

subsection \<open>Accounting invariant\<close>

definition held :: "worker \<Rightarrow> nat list" where
  "held w = (case w of W_Start t \<Rightarrow> [t] | W_Run t \<Rightarrow> [t] | _ \<Rightarrow> [])"

definition in_flight :: "pool \<Rightarrow> nat multiset" where
  "in_flight p = mset (concat (map held (tp_workers p)))"

definition counted_active :: "worker \<Rightarrow> bool" where
  "counted_active w = (case w of W_Run _ \<Rightarrow> True | W_Finish \<Rightarrow> True | _ \<Rightarrow> False)"

definition has_permit :: "worker \<Rightarrow> bool" where
  "has_permit w \<longleftrightarrow> w = W_Check \<or> w = W_Take"

definition count_workers :: "(worker \<Rightarrow> bool) \<Rightarrow> pool \<Rightarrow> nat" where
  "count_workers P p = length (filter P (tp_workers p))"

definition permits :: "pool \<Rightarrow> nat" where
  "permits p = tp_sem p + tp_releasing p + count_workers has_permit p"

definition pool_inv :: "pool \<Rightarrow> bool" where
  "pool_inv p \<longleftrightarrow>
     mset (tp_submitted p) = mset (tp_executed p) + in_flight p + mset (tp_tasks p)
   \<and> tp_queued p = word_of_nat (length (tp_tasks p))
   \<and> tp_active p = word_of_nat (count_workers counted_active p)
   \<and> length (tp_tasks p) \<le> permits p
   \<and> (\<not> tp_shutdown p \<longrightarrow> permits p = length (tp_tasks p) \<and> W_Done \<notin> set (tp_workers p)
        \<and> tp_main p = Sd_Idle \<and> tp_stop p = 0)"

lemmas pool_measures = in_flight_def count_workers_def permits_def

lemma filter_update_count:
  "i < length xs \<Longrightarrow>
   length (filter P (xs[i := x])) + (if P (xs ! i) then 1 else 0) = length (filter P xs) + (if P x then 1 else 0)"
proof (induction xs arbitrary: i)
  case (Cons y ys)
  then show ?case by (cases i) (auto simp: algebra_simps)
qed simp

lemma mset_update_held:
  "i < length ws \<Longrightarrow>
   mset (concat (map held (ws[i := w]))) + mset (held (ws ! i)) = mset (concat (map held ws)) + mset (held w)"
proof (induction ws arbitrary: i)
  case (Cons y ys)
  show ?case
  proof (cases i)
    case (Suc j)
    with Cons.IH [of j] Cons.prems show ?thesis by (simp add: add.assoc)
  qed simp
qed simp

text \<open>What moving worker \<open>i\<close> from \<open>w\<close> to \<open>w'\<close> does to the measures.\<close>

lemma goto_measures:
  assumes "i < length (tp_workers p)" and "tp_workers p ! i = w"
  shows "in_flight (goto i w' p) + mset (held w) = in_flight p + mset (held w')"
    and "count_workers P (goto i w' p) + (if P w then 1 else 0) = count_workers P p + (if P w' then 1 else 0)"
  using mset_update_held [of i "tp_workers p" w'] filter_update_count [of i "tp_workers p" P w'] assms
  by (simp_all add: pool_measures goto_def)

lemma goto_fields [simp]:
  "tp_tasks (goto i w p) = tp_tasks p" "tp_sem (goto i w p) = tp_sem p"
  "tp_shutdown (goto i w p) = tp_shutdown p" "tp_active (goto i w p) = tp_active p"
  "tp_queued (goto i w p) = tp_queued p" "tp_releasing (goto i w p) = tp_releasing p"
  "tp_stop (goto i w p) = tp_stop p" "tp_main (goto i w p) = tp_main p"
  "tp_submitted (goto i w p) = tp_submitted p" "tp_executed (goto i w p) = tp_executed p"
  "tp_workers (goto i w p) = (tp_workers p)[i := w]"
  by (simp_all add: goto_def)

lemma submit_inv:
  assumes "pool_inv p" and "submit t p = Inr q"
  shows "pool_inv q"
  using assms by (auto simp: pool_inv_def submit_def pool_measures split: if_splits)

lemma release_inv:
  assumes "pool_inv p" and "submit_release p = Some q"
  shows "pool_inv q"
  using assms by (auto simp: pool_inv_def submit_release_def pool_measures split: if_splits)

lemma shutdown_inv:
  assumes "pool_inv p" and "shutdown_step p = Some q"
  shows "pool_inv q"
  using assms
  by (auto simp: pool_inv_def shutdown_step_def pool_measures split: shutdown_pc.splits if_splits)

abbreviation one_if :: "bool \<Rightarrow> nat" where "one_if b \<equiv> if b then 1 else 0"

text \<open>A worker step keeps the invariant when it balances tasks, counters and permits.\<close>

lemma worker_move_inv:
  assumes inv: "pool_inv p" and i: "i < length (tp_workers p)" and w: "tp_workers p ! i = w"
    and ws: "tp_workers p' = tp_workers p" and sub: "tp_submitted p' = tp_submitted p"
    and rel: "tp_releasing p' = tp_releasing p"
    and flags: "tp_shutdown p' = tp_shutdown p" "tp_main p' = tp_main p" "tp_stop p' = tp_stop p"
    and tasks: "mset (tp_executed p') + mset (held w') + mset (tp_tasks p') =
        mset (tp_executed p) + mset (held w) + mset (tp_tasks p)"
    and queued: "tp_queued p' = word_of_nat (length (tp_tasks p'))"
    and active: "tp_active p' + word_of_nat (one_if (counted_active w)) =
        tp_active p + word_of_nat (one_if (counted_active w'))"
    and le: "tp_tasks p' = [] \<or> length (tp_tasks p') + tp_sem p + one_if (has_permit w)
        \<le> length (tp_tasks p) + tp_sem p' + one_if (has_permit w')"
    and eq: "tp_shutdown p \<or> w' \<noteq> W_Done \<and> length (tp_tasks p') + tp_sem p + one_if (has_permit w)
        = length (tp_tasks p) + tp_sem p' + one_if (has_permit w')"
  shows "pool_inv (goto i w' p')"
proof -
  let ?q = "goto i w' p'"
  have i': "i < length (tp_workers p')" and w2: "tp_workers p' ! i = w" using i w ws by simp_all
  have same: "in_flight p' = in_flight p" "count_workers P p' = count_workers P p" for P
    using ws by (simp_all add: pool_measures)
  note m = goto_measures [OF i' w2, unfolded same]
  have f: "in_flight ?q + mset (held w) = in_flight p + mset (held w')" by (rule m(1))
  have "mset (tp_submitted ?q) + mset (held w) =
      (mset (tp_executed ?q) + in_flight ?q + mset (tp_tasks ?q)) + mset (held w)"
  proof -
    have "mset (tp_submitted ?q) + mset (held w) = mset (tp_executed p) + mset (held w) + mset (tp_tasks p) + in_flight p"
      using inv by (simp add: pool_inv_def sub)
    also have "\<dots> = mset (tp_executed p') + mset (tp_tasks p') + (in_flight p + mset (held w'))"
      unfolding tasks [symmetric] by (simp add: ac_simps)
    finally show ?thesis by (simp add: f [symmetric] ac_simps)
  qed
  then have subm: "mset (tp_submitted ?q) = mset (tp_executed ?q) + in_flight ?q + mset (tp_tasks ?q)"
    by (rule add_right_imp_eq)
  have "tp_active p' + word_of_nat (one_if (counted_active w))
      = word_of_nat (count_workers counted_active p + one_if (counted_active w'))"
    using active inv unfolding pool_inv_def of_nat_add by metis
  also have "\<dots> = word_of_nat (count_workers counted_active ?q) + word_of_nat (one_if (counted_active w))"
    unfolding m(2) [symmetric] of_nat_add ..
  finally have act: "tp_active ?q = word_of_nat (count_workers counted_active ?q)"
    unfolding goto_fields by (rule add_right_imp_eq)
  have P: "permits ?q + tp_sem p + one_if (has_permit w) = permits p + tp_sem p' + one_if (has_permit w')"
    using m(2) [of has_permit w'] by (simp only: permits_def rel goto_fields)
  have le': "length (tp_tasks ?q) \<le> permits ?q"
  proof (cases "tp_tasks p' = []")
    case False
    with le P inv show ?thesis unfolding pool_inv_def goto_fields by linarith
  qed simp
  have "\<not> tp_shutdown ?q \<longrightarrow> permits ?q = length (tp_tasks ?q) \<and> W_Done \<notin> set (tp_workers ?q)
        \<and> tp_main ?q = Sd_Idle \<and> tp_stop ?q = 0"
  proof
    assume "\<not> tp_shutdown ?q"
    then have ns: "\<not> tp_shutdown p" by (simp add: flags)
    with inv have np: "permits p = length (tp_tasks p)" "W_Done \<notin> set (tp_workers p)"
      "tp_main p = Sd_Idle" "tp_stop p = 0" by (simp_all add: pool_inv_def)
    have e: "w' \<noteq> W_Done" "length (tp_tasks p') + tp_sem p + one_if (has_permit w)
        = length (tp_tasks p) + tp_sem p' + one_if (has_permit w')" using eq ns by blast+
    have "permits ?q = length (tp_tasks ?q)" using P e(2) np(1) unfolding goto_fields by linarith
    moreover have "W_Done \<notin> set (tp_workers ?q)"
      using np(2) e(1) set_update_subset_insert [of "tp_workers p'" i w'] by (auto simp: ws)
    ultimately show "permits ?q = length (tp_tasks ?q) \<and> W_Done \<notin> set (tp_workers ?q)
        \<and> tp_main ?q = Sd_Idle \<and> tp_stop ?q = 0" using np flags by simp
  qed
  with subm queued act le' show ?thesis unfolding pool_inv_def goto_fields by blast
qed

lemmas worker_views = held_def counted_active_def has_permit_def

lemma worker_inv:
  assumes inv: "pool_inv p" and step: "worker_step i p = Some q"
  shows "pool_inv q"
proof -
  have i: "i < length (tp_workers p)" using step by (auto simp: worker_step_def split: if_splits)
  note move = worker_move_inv [OF inv i]
  have permit: "has_permit (tp_workers p ! i) \<Longrightarrow> \<not> tp_shutdown p \<Longrightarrow> tp_tasks p \<noteq> []"
    using inv i by (auto simp: pool_inv_def permits_def count_workers_def filter_empty_conv)
  have stop: "stop_requested i p \<Longrightarrow> tp_shutdown p" using inv by (auto simp: pool_inv_def stop_requested_def)
  have q: "tp_queued p = word_of_nat (length (tp_tasks p))" using inv by (simp add: pool_inv_def)
  show ?thesis
  proof (cases "tp_workers p ! i")
    case W_Loop
    then have "q = goto i (if stop_requested i p then W_Done else W_Acquire) p"
      using step i by (simp add: worker_step_def)
    with stop show ?thesis
      by (cases "stop_requested i p") (auto intro!: move [OF W_Loop] simp: worker_views q)
  next
    case W_Acquire
    then have "tp_sem p > 0" "q = goto i W_Check (p\<lparr>tp_sem := tp_sem p - 1\<rparr>)"
      using step i by (auto simp: worker_step_def split: if_splits)
    then show ?thesis by (auto intro!: move [OF W_Acquire] simp: worker_views q)
  next
    case W_Check
    then have "q = goto i (if tp_shutdown p \<and> tp_tasks p = [] then W_Done else W_Take) p"
      using step i by (simp add: worker_step_def)
    then show ?thesis
      by (cases "tp_shutdown p \<and> tp_tasks p = []") (auto intro!: move [OF W_Check] simp: worker_views q)
  next
    case W_Take
    show ?thesis
    proof (cases "tp_tasks p")
      case Nil
      then have "q = goto i W_Loop p" "tp_shutdown p"
        using step i W_Take permit by (auto simp: worker_step_def has_permit_def)
      then show ?thesis using Nil by (auto intro!: move [OF W_Take] simp: worker_views q)
    next
      case (Cons task rest)
      then have "q = goto i (W_Start task) (p\<lparr>tp_tasks := rest, tp_queued := tp_queued p - 1\<rparr>)"
        using step i W_Take by (simp add: worker_step_def)
      then show ?thesis using Cons by (auto intro!: move [OF W_Take] simp: worker_views q)
    qed
  next
    case (W_Start task)
    then have "q = goto i (W_Run task) (p\<lparr>tp_active := tp_active p + 1\<rparr>)"
      using step i by (simp add: worker_step_def)
    then show ?thesis by (auto intro!: move [OF W_Start] simp: worker_views q)
  next
    case (W_Run task)
    then have "q = goto i W_Finish (p\<lparr>tp_executed := tp_executed p @ [task]\<rparr>)"
      using step i by (simp add: worker_step_def)
    then show ?thesis by (auto intro!: move [OF W_Run] simp: worker_views q)
  next
    case W_Finish
    then have "q = goto i W_Loop (p\<lparr>tp_active := tp_active p - 1\<rparr>)"
      using step i by (simp add: worker_step_def)
    then show ?thesis by (auto intro!: move [OF W_Finish] simp: worker_views q)
  next
    case W_Done
    then show ?thesis using step i by (simp add: worker_step_def)
  qed
qed

lemma new_pool_inv: "pool_inv (new_pool n)"
  by (simp add: pool_inv_def new_pool_def pool_measures worker_views filter_empty_conv concat_eq_Nil_conv)

lemma pool_step_inv: "pool_inv p \<Longrightarrow> pool_step p q \<Longrightarrow> pool_inv q"
  by (erule pool_stepE)
    (auto simp: pool_next_def split: pool_event.splits sum.splits
      intro: submit_inv release_inv worker_inv shutdown_inv)

lemma new_pool_start: "\<exists>m. new_pool n = new_pool m" by blast

interpretation thread_pool: invariant_system "\<lambda>p. \<exists>n. p = new_pool n" pool_step pool_inv
  by unfold_locales (auto intro: new_pool_inv pool_step_inv)

subsection \<open>Properties\<close>

text \<open>C29: in every reachable state of the pool, each submitted task is exactly one of executed, held
  by a worker, or queued (none is lost or run twice), and \<open>queuedTask ()\<close> and \<open>active_threads ()\<close> report
  the queue length and the number of workers inside a task.\<close>

theorem thread_pool_accounts_tasks:
  assumes "pool_step\<^sup>*\<^sup>* (new_pool n) p"
  shows "mset (tp_submitted p) = mset (tp_executed p) + in_flight p + mset (tp_tasks p)
    \<and> queuedTask p = word_of_nat (length (tp_tasks p))
    \<and> active_threads p = word_of_nat (count_workers counted_active p)"
  using thread_pool.reachable_inv [OF new_pool_start assms]
  by (simp add: pool_inv_def queuedTask_def active_threads_def)

lemma progress_with_permits:
  assumes inv: "pool_inv p" and ns: "\<not> tp_shutdown p" and t: "tp_tasks p \<noteq> []"
    and rel: "tp_releasing p = 0" and ws: "tp_workers p \<noteq> []"
  shows "\<exists>i q. worker_step i p = Some q"
proof (cases "tp_sem p = 0")
  case True
  then have "0 < count_workers has_permit p"
    using inv t rel by (simp add: pool_inv_def permits_def ns)
  then obtain w where "w \<in> set (tp_workers p)" "has_permit w"
    by (auto simp: count_workers_def filter_empty_conv)
  then obtain i where "i < length (tp_workers p)" "has_permit (tp_workers p ! i)"
    by (auto simp: in_set_conv_nth)
  then have "\<exists>q. worker_step i p = Some q"
    by (auto simp: worker_step_def has_permit_def split: list.splits)
  then show ?thesis by blast
next
  case False
  have l: "0 < length (tp_workers p)" using ws by simp
  have "W_Done \<notin> set (tp_workers p)" using inv ns by (simp add: pool_inv_def)
  with nth_mem [OF l] have "tp_workers p ! 0 \<noteq> W_Done" by metis
  then have "\<exists>q. worker_step 0 p = Some q"
    using l False by (auto simp: worker_step_def split: worker.splits list.splits)
  then show ?thesis by blast
qed

lemma pool_step_workers: "pool_step p q \<Longrightarrow> length (tp_workers q) = length (tp_workers p)"
  by (erule pool_stepE)
    (auto simp: pool_next_def submit_def submit_release_def worker_step_def shutdown_step_def
      split: pool_event.splits sum.splits if_splits worker.splits list.splits shutdown_pc.splits)

lemma pool_run_workers: "pool_step\<^sup>*\<^sup>* p q \<Longrightarrow> length (tp_workers q) = length (tp_workers p)"
  by (induction rule: rtranclp_induct) (auto dest: pool_step_workers)

text \<open>C30: no wake-up is lost.  As long as the pool is not shut down and every submitter has returned,
  a queued task always finds some worker that can take a step: the pool never sleeps with work queued.\<close>

theorem thread_pool_no_lost_wakeup:
  assumes "pool_step\<^sup>*\<^sup>* (new_pool n) p" and "0 < n" and "\<not> tp_shutdown p"
    and "tp_tasks p \<noteq> []" and "tp_releasing p = 0"
  shows "\<exists>i q. worker_step i p = Some q"
proof -
  have "tp_workers p \<noteq> []" using pool_run_workers [OF assms(1)] assms(2) by (auto simp: new_pool_def)
  then show ?thesis
    using progress_with_permits thread_pool.reachable_inv [OF new_pool_start assms(1)] assms(3-5) by blast
qed

definition one_task :: "nat \<Rightarrow> pool" where
  "one_task n = (new_pool n)\<lparr>tp_tasks := [7], tp_queued := 1, tp_sem := 1, tp_submitted := [7]\<rparr>"

lemma one_task_run: "pool_run [Ev_Submit 7, Ev_Release] (new_pool n) = Some (one_task n)"
  by (simp add: pool_next_def submit_def submit_release_def one_task_def new_pool_def)

lemma thread_pool_no_lost_wakeup_witness: "\<exists>i q. worker_step i (one_task 2) = Some q"
  by (rule thread_pool_no_lost_wakeup [OF pool_run_reachable [OF one_task_run]])
    (simp_all add: one_task_def new_pool_def)

lemma thread_pool_accounts_tasks_witness:
  "mset (tp_submitted (one_task 2)) = mset (tp_executed (one_task 2)) + in_flight (one_task 2) + mset (tp_tasks (one_task 2))
    \<and> queuedTask (one_task 2) = word_of_nat (length (tp_tasks (one_task 2)))
    \<and> active_threads (one_task 2) = word_of_nat (count_workers counted_active (one_task 2))"
  by (rule thread_pool_accounts_tasks [OF pool_run_reachable [OF one_task_run]])

subsection \<open>Shutdown\<close>

definition deadlock_schedule :: "pool_event list" where
  "deadlock_schedule =
     [Ev_Submit 7, Ev_Release, Ev_Worker 0, Ev_Worker 1, Ev_Shutdown, Ev_Shutdown]
     @ replicate 2 (Ev_Worker 1) @ replicate 2 (Ev_Worker 0) @ replicate 5 (Ev_Worker 1)
     @ replicate 4 (Ev_Worker 0) @ replicate 3 Ev_Shutdown"

definition deadlocked :: pool where
  "deadlocked = \<lparr>tp_workers = [W_Done, W_Acquire], tp_tasks = [], tp_sem = 0, tp_shutdown = True,
     tp_active = 0, tp_queued = 0, tp_releasing = 0, tp_stop = 2, tp_main = Sd_Join 1,
     tp_submitted = [7], tp_executed = [7]\<rparr>"

lemmas pool_eval = pool_next_def submit_def submit_release_def worker_step_def shutdown_step_def
  goto_def stop_requested_def new_pool_def

lemma deadlock_run: "pool_run deadlock_schedule (new_pool 2) = Some deadlocked"
  by (simp add: deadlock_schedule_def deadlocked_def pool_eval numeral_eq_Suc)

text \<open>C31: \<open>shutdown ()\<close> can block for ever.  With two workers and one task, a worker that found the queue
  empty after passing the first check uses up the permit meant for the other one, which then waits on
  the semaphore while the destructor waits to join it; no step of any thread is possible.\<close>

theorem thread_pool_shutdown_deadlock:
  "\<exists>p. pool_step\<^sup>*\<^sup>* (new_pool 2) p \<and> tp_main p = Sd_Join 1 \<and> (\<nexists>q. pool_step p q)"
proof (intro exI conjI)
  show "pool_step\<^sup>*\<^sup>* (new_pool 2) deadlocked" using deadlock_run by (rule pool_run_reachable)
  show "tp_main deadlocked = Sd_Join 1" by (simp add: deadlocked_def)
  show "\<nexists>q. pool_step deadlocked q"
  proof
    assume "\<exists>q. pool_step deadlocked q"
    then obtain e where e: "pool_next e deadlocked \<noteq> None" by (auto elim!: pool_stepE)
    have "worker_step 0 deadlocked = None" "worker_step 1 deadlocked = None"
      by (simp_all add: deadlocked_def worker_step_def)
    moreover have "worker_step i deadlocked = None" if "2 \<le> i" for i
      using that by (simp add: deadlocked_def worker_step_def)
    ultimately have "worker_step i deadlocked = None" for i by (cases "i = 0"; cases "i = 1"; simp)
    with e show False
      by (cases e) (simp_all add: pool_next_def submit_def submit_release_def shutdown_step_def deadlocked_def)
  qed
qed

definition abandoned :: pool where
  "abandoned = (one_task 1)\<lparr>tp_workers := [W_Done], tp_shutdown := True, tp_sem := 2, tp_stop := 1,
     tp_main := Sd_Done\<rparr>"

lemma abandon_run:
  "pool_run [Ev_Submit 7, Ev_Release, Ev_Shutdown, Ev_Shutdown, Ev_Shutdown, Ev_Worker 0,
     Ev_Shutdown, Ev_Shutdown] (new_pool 1) = Some abandoned"
  by (simp add: abandoned_def one_task_def pool_eval)

text \<open>C32: \<open>shutdown ()\<close> may return with an accepted task still queued, which then never runs: a worker
  that sees the stop request leaves without looking at the queue.\<close>

theorem thread_pool_shutdown_drops_task:
  "\<exists>p. pool_step\<^sup>*\<^sup>* (new_pool 1) p \<and> tp_main p = Sd_Done \<and> tp_tasks p = tp_submitted p
     \<and> tp_submitted p \<noteq> [] \<and> tp_executed p = []"
  using pool_run_reachable [OF abandon_run]
  by (intro exI [of _ abandoned]) (simp add: abandoned_def one_task_def new_pool_def)

text \<open>The default pool has a positive number of workers on every machine, and every worker gets a
  non-zero affinity mask exactly when \<open>hardware_concurrency ()\<close> is known: where it reports 0, the
  constructor's own default of eight workers all evaluate a remainder by zero.\<close>

theorem default_pool_affinity:
  assumes "hw \<le> 64"
  shows "0 < pool_size hw 0
    \<and> (\<forall>i < pool_size hw 0. if hw = 0 then affinity_mask hw i = Inl DivideByZero
         else \<exists>m. affinity_mask hw i = Inr m \<and> m \<noteq> 0)"
proof -
  have "(push_bit k 1 :: u64) \<noteq> 0" if "k < 64" for k
  proof
    assume "(push_bit k 1 :: u64) = 0"
    then have "\<not> bit (push_bit k 1 :: u64) k" by (simp only: bit_0_eq bot_apply not_False_eq_True bot_bool_def)
    with that show False by (simp add: bit_push_bit_iff del: push_bit_of_1)
  qed
  moreover have "i mod hw < 64" if "hw \<noteq> 0" for i
    using that assms mod_less_divisor [of hw i] by linarith
  ultimately show ?thesis by (simp add: pool_size_def affinity_mask_def not_le)
qed

lemma default_pool_affinity_witness:
  "pool_size 0 0 = 8 \<and> affinity_mask 0 3 = Inl DivideByZero"
  using default_pool_affinity [of 0] by (simp add: pool_size_def)

end
