(* ===== verification/Kcp_Base.thy ===== *)
theory Kcp_Base
  imports Prelude
begin

text \<open>
  \<^verbatim>\<open>kcp-2.1.1/ikcp.c\<close> and \<^verbatim>\<open>ikcp.h\<close>, first part: the segment and the control block, the 24-byte
  segment header, creation and configuration.  A queue of segments is a list from head to tail;
  the counters the C code keeps beside each queue are separate fields.  \<open>IINT32\<close> fields are \<open>int\<close>,
  with every conversion to and from 32 bits written out, and arithmetic on them that can leave the range
  brought back into it by \<open>i32\<close>: C leaves signed overflow undefined, and the compilers this program is built with wrap.  The transport never installs a congestion
  module or a log writer, so \<open>ccops\<close> and \<open>writelog\<close> are NULL and the branches on them are the
  built-in ones; allocation is taken to succeed.
\<close>

subsection \<open>Constants\<close>

definition IKCP_RTO_NDL :: u32 where "IKCP_RTO_NDL = 30"
definition IKCP_RTO_MIN :: u32 where "IKCP_RTO_MIN = 100"
definition IKCP_RTO_DEF :: u32 where "IKCP_RTO_DEF = 200"
definition IKCP_RTO_MAX :: u32 where "IKCP_RTO_MAX = 60000"
definition IKCP_CMD_PUSH :: u32 where "IKCP_CMD_PUSH = 81"
definition IKCP_CMD_ACK :: u32 where "IKCP_CMD_ACK = 82"
definition IKCP_CMD_WASK :: u32 where "IKCP_CMD_WASK = 83"
definition IKCP_CMD_WINS :: u32 where "IKCP_CMD_WINS = 84"
definition IKCP_ASK_SEND :: u32 where "IKCP_ASK_SEND = 1"
definition IKCP_ASK_TELL :: u32 where "IKCP_ASK_TELL = 2"
definition IKCP_WND_SND :: u32 where "IKCP_WND_SND = 32"
definition IKCP_WND_RCV :: u32 where "IKCP_WND_RCV = 128"
definition IKCP_MTU_DEF :: u32 where "IKCP_MTU_DEF = 1400"
definition IKCP_INTERVAL :: u32 where "IKCP_INTERVAL = 100"
definition IKCP_OVERHEAD :: u32 where "IKCP_OVERHEAD = 24"
definition IKCP_DEADLINK :: u32 where "IKCP_DEADLINK = 20"
definition IKCP_THRESH_INIT :: u32 where "IKCP_THRESH_INIT = 2"
definition IKCP_THRESH_MIN :: u32 where "IKCP_THRESH_MIN = 2"
definition IKCP_PROBE_INIT :: u32 where "IKCP_PROBE_INIT = 5000"
definition IKCP_PROBE_LIMIT :: u32 where "IKCP_PROBE_LIMIT = 120000"
definition IKCP_FASTACK_LIMIT :: int where "IKCP_FASTACK_LIMIT = 5"

lemmas ikcp_cmds = IKCP_CMD_PUSH_def IKCP_CMD_ACK_def IKCP_CMD_WASK_def IKCP_CMD_WINS_def
lemmas ikcp_consts = IKCP_RTO_NDL_def IKCP_RTO_MIN_def IKCP_RTO_DEF_def IKCP_RTO_MAX_def
  IKCP_ASK_SEND_def IKCP_ASK_TELL_def IKCP_WND_SND_def IKCP_WND_RCV_def IKCP_MTU_DEF_def
  IKCP_INTERVAL_def IKCP_OVERHEAD_def IKCP_DEADLINK_def IKCP_THRESH_INIT_def IKCP_THRESH_MIN_def
  IKCP_PROBE_INIT_def IKCP_PROBE_LIMIT_def IKCP_FASTACK_LIMIT_def

subsection \<open>Encoding helpers\<close>

definition ikcp_encode8u :: "byte \<Rightarrow> byte list" where "ikcp_encode8u c = [c]"
definition ikcp_encode16u :: "u16 \<Rightarrow> byte list" where "ikcp_encode16u w = put16 w"
definition ikcp_encode32u :: "u32 \<Rightarrow> byte list" where "ikcp_encode32u l = put32 l"

text \<open>The decoders return the value and the advanced pointer.\<close>

definition ikcp_decode8u :: "byte list \<Rightarrow> byte \<times> byte list" where
  "ikcp_decode8u p = (hd p, drop 1 p)"

definition ikcp_decode16u :: "byte list \<Rightarrow> u16 \<times> byte list" where
  "ikcp_decode16u p = (get16 p, drop 2 p)"

definition ikcp_decode32u :: "byte list \<Rightarrow> u32 \<times> byte list" where
  "ikcp_decode32u p = (get32 p, drop 4 p)"

text \<open>The value an \<open>IINT32\<close>, or a \<open>long\<close> of 32 bits as on Windows, holds after it is assigned \<open>x\<close>.\<close>

definition i32 :: "int \<Rightarrow> int" where "i32 x = sint (word_of_int x :: u32)"

lemma i32_id: "- (2 ^ 31) \<le> x \<Longrightarrow> x < 2 ^ 31 \<Longrightarrow> i32 x = x"
  by (simp add: i32_def sint_word_of_int_small)

definition imin :: "u32 \<Rightarrow> u32 \<Rightarrow> u32" where "imin a b = (if a \<le> b then a else b)"
definition imax :: "u32 \<Rightarrow> u32 \<Rightarrow> u32" where "imax a b = (if a \<ge> b then a else b)"

definition ibound :: "u32 \<Rightarrow> u32 \<Rightarrow> u32 \<Rightarrow> u32" where
  "ibound lower middle upper = imin (imax lower middle) upper"

definition itimediff :: "u32 \<Rightarrow> u32 \<Rightarrow> int" where
  "itimediff later earlier = sint (later - earlier)"

subsection \<open>Segments\<close>

record IKCPSEG =
  sg_conv :: u32
  sg_cmd :: u32
  sg_frg :: u32
  sg_wnd :: u32
  sg_ts :: u32
  sg_sn :: u32
  sg_una :: u32
  sg_len :: u32
  sg_resendts :: u32
  sg_rto :: u32
  sg_fastack :: u32
  sg_xmit :: u32
  sg_data :: "byte list"

text \<open>A new segment holding \<open>bytes\<close>; \<open>ikcp_flush\<close> or \<open>ikcp_input\<close> assigns the fields that
  \<open>ikcp_segment_new\<close> leaves unset before they are read.\<close>

definition ikcp_segment_new :: "byte list \<Rightarrow> IKCPSEG" where
  "ikcp_segment_new bytes =
     \<lparr>sg_conv = 0, sg_cmd = 0, sg_frg = 0, sg_wnd = 0, sg_ts = 0, sg_sn = 0, sg_una = 0,
      sg_len = word_of_nat (length bytes), sg_resendts = 0, sg_rto = 0, sg_fastack = 0, sg_xmit = 0,
      sg_data = bytes\<rparr>"

text \<open>What \<open>memcpy (.., seg->data, seg->len)\<close> copies.\<close>

definition seg_bytes :: "IKCPSEG \<Rightarrow> byte list" where
  "seg_bytes s = take (unat (sg_len s)) (sg_data s)"

definition ikcp_encode_seg :: "IKCPSEG \<Rightarrow> byte list" where
  "ikcp_encode_seg s =
     ikcp_encode32u (sg_conv s) @ ikcp_encode8u (ucast (sg_cmd s)) @ ikcp_encode8u (ucast (sg_frg s))
     @ ikcp_encode16u (ucast (sg_wnd s)) @ ikcp_encode32u (sg_ts s) @ ikcp_encode32u (sg_sn s)
     @ ikcp_encode32u (sg_una s) @ ikcp_encode32u (sg_len s)"

text \<open>The header fields \<open>ikcp_input\<close> decodes, in its order.\<close>

record seg_header =
  h_conv :: u32
  h_cmd :: byte
  h_frg :: byte
  h_wnd :: u16
  h_ts :: u32
  h_sn :: u32
  h_una :: u32
  h_len :: u32

definition decode_header :: "byte list \<Rightarrow> seg_header \<times> byte list" where
  "decode_header data0 =
     (let (conv, data1) = ikcp_decode32u data0;
          (cmd, data2) = ikcp_decode8u data1;
          (frg, data3) = ikcp_decode8u data2;
          (wnd, data4) = ikcp_decode16u data3;
          (ts, data5) = ikcp_decode32u data4;
          (sn, data6) = ikcp_decode32u data5;
          (una, data7) = ikcp_decode32u data6;
          (len, data8) = ikcp_decode32u data7
      in (\<lparr>h_conv = conv, h_cmd = cmd, h_frg = frg, h_wnd = wnd, h_ts = ts, h_sn = sn,
           h_una = una, h_len = len\<rparr>, data8))"

definition header_of :: "IKCPSEG \<Rightarrow> seg_header" where
  "header_of s = \<lparr>h_conv = sg_conv s, h_cmd = ucast (sg_cmd s), h_frg = ucast (sg_frg s),
     h_wnd = ucast (sg_wnd s), h_ts = sg_ts s, h_sn = sg_sn s, h_una = sg_una s, h_len = sg_len s\<rparr>"

subsection \<open>The control block\<close>

record IKCPCB =
  kc_conv :: u32
  kc_mtu :: u32
  kc_mss :: u32
  kc_state :: u32
  kc_snd_una :: u32
  kc_snd_nxt :: u32
  kc_rcv_nxt :: u32
  kc_ts_recent :: u32
  kc_ts_lastack :: u32
  kc_ssthresh :: u32
  kc_rx_rttval :: int
  kc_rx_srtt :: int
  kc_rx_rto :: int
  kc_rx_minrto :: int
  kc_snd_wnd :: u32
  kc_rcv_wnd :: u32
  kc_rmt_wnd :: u32
  kc_cwnd :: u32
  kc_probe :: u32
  kc_current :: u32
  kc_interval :: u32
  kc_ts_flush :: u32
  kc_xmit :: u32
  kc_nrcv_buf :: u32
  kc_nsnd_buf :: u32
  kc_nrcv_que :: u32
  kc_nsnd_que :: u32
  kc_nodelay :: u32
  kc_updated :: u32
  kc_ts_probe :: u32
  kc_probe_wait :: u32
  kc_dead_link :: u32
  kc_incr :: u32
  kc_snd_queue :: "IKCPSEG list"
  kc_rcv_queue :: "IKCPSEG list"
  kc_snd_buf :: "IKCPSEG list"
  kc_rcv_buf :: "IKCPSEG list"
  kc_acklist :: "(u32 \<times> u32) list"
  kc_ackcount :: u32
  kc_ackblock :: u32
  kc_ackedlen :: u32
  kc_fastresend :: int
  kc_fastlimit :: int
  kc_nocwnd :: int
  kc_stream :: int

definition ikcp_create :: "u32 \<Rightarrow> IKCPCB" where
  "ikcp_create conv =
     \<lparr>kc_conv = conv, kc_mtu = IKCP_MTU_DEF, kc_mss = IKCP_MTU_DEF - IKCP_OVERHEAD, kc_state = 0,
      kc_snd_una = 0, kc_snd_nxt = 0, kc_rcv_nxt = 0, kc_ts_recent = 0, kc_ts_lastack = 0,
      kc_ssthresh = IKCP_THRESH_INIT, kc_rx_rttval = 0, kc_rx_srtt = 0,
      kc_rx_rto = sint IKCP_RTO_DEF, kc_rx_minrto = sint IKCP_RTO_MIN,
      kc_snd_wnd = IKCP_WND_SND, kc_rcv_wnd = IKCP_WND_RCV, kc_rmt_wnd = IKCP_WND_RCV,
      kc_cwnd = 0, kc_probe = 0, kc_current = 0, kc_interval = IKCP_INTERVAL,
      kc_ts_flush = IKCP_INTERVAL, kc_xmit = 0, kc_nrcv_buf = 0, kc_nsnd_buf = 0, kc_nrcv_que = 0,
      kc_nsnd_que = 0, kc_nodelay = 0, kc_updated = 0, kc_ts_probe = 0, kc_probe_wait = 0,
      kc_dead_link = IKCP_DEADLINK, kc_incr = 0, kc_snd_queue = [], kc_rcv_queue = [],
      kc_snd_buf = [], kc_rcv_buf = [], kc_acklist = [], kc_ackcount = 0, kc_ackblock = 0,
      kc_ackedlen = 0, kc_fastresend = 0, kc_fastlimit = IKCP_FASTACK_LIMIT, kc_nocwnd = 0,
      kc_stream = 0\<rparr>"

definition ikcp_setmtu :: "IKCPCB \<Rightarrow> int \<Rightarrow> int \<times> IKCPCB" where
  "ikcp_setmtu k mtu =
     (if mtu < 50 \<or> mtu < sint IKCP_OVERHEAD then (-1, k)
      else (0, k\<lparr>kc_mtu := word_of_int mtu, kc_mss := word_of_int mtu - IKCP_OVERHEAD\<rparr>))"

definition clamp_interval :: "int \<Rightarrow> int" where
  "clamp_interval interval = (if interval > 5000 then 5000 else if interval < 10 then 10 else interval)"

definition ikcp_interval :: "IKCPCB \<Rightarrow> int \<Rightarrow> int \<times> IKCPCB" where
  "ikcp_interval k interval = (0, k\<lparr>kc_interval := word_of_int (clamp_interval interval)\<rparr>)"

definition ikcp_nodelay :: "IKCPCB \<Rightarrow> int \<Rightarrow> int \<Rightarrow> int \<Rightarrow> int \<Rightarrow> int \<times> IKCPCB" where
  "ikcp_nodelay k nodelay interval resend nc =
     (let k1 = (if nodelay \<ge> 0
                then k\<lparr>kc_nodelay := word_of_int nodelay,
                       kc_rx_minrto := sint (if nodelay \<noteq> 0 then IKCP_RTO_NDL else IKCP_RTO_MIN)\<rparr>
                else k);
          k2 = (if interval \<ge> 0 then k1\<lparr>kc_interval := word_of_int (clamp_interval interval)\<rparr> else k1);
          k3 = (if resend \<ge> 0 then k2\<lparr>kc_fastresend := resend\<rparr> else k2);
          k4 = (if nc \<ge> 0 then k3\<lparr>kc_nocwnd := nc\<rparr> else k3)
      in (0, k4))"

definition ikcp_wndsize :: "IKCPCB \<Rightarrow> int \<Rightarrow> int \<Rightarrow> int \<times> IKCPCB" where
  "ikcp_wndsize k sndwnd rcvwnd =
     (let k1 = (if sndwnd > 0 then k\<lparr>kc_snd_wnd := word_of_int sndwnd\<rparr> else k);
          k2 = (if rcvwnd > 0 then k1\<lparr>kc_rcv_wnd := imax (word_of_int rcvwnd) IKCP_WND_RCV\<rparr> else k1)
      in (0, k2))"

definition ikcp_waitsnd :: "IKCPCB \<Rightarrow> int" where
  "ikcp_waitsnd k = sint (kc_nsnd_buf k + kc_nsnd_que k)"

definition ikcp_getconv :: "byte list \<Rightarrow> u32" where
  "ikcp_getconv ptr = fst (ikcp_decode32u ptr)"

subsection \<open>Parts of a control block\<close>

text \<open>The fields the send side, the receive side and the acknowledgement list consist of; an
  operation on one side leaves the others alone.\<close>

definition snd_part :: "IKCPCB \<Rightarrow> u32 \<times> u32 \<times> u32 \<times> int \<times> u32 \<times> IKCPSEG list \<times> IKCPSEG list \<times> u32 \<times> u32" where
  "snd_part k = (kc_conv k, kc_mtu k, kc_mss k, kc_stream k, kc_snd_nxt k, kc_snd_queue k,
     kc_snd_buf k, kc_nsnd_que k, kc_nsnd_buf k)"

definition rcv_part :: "IKCPCB \<Rightarrow> u32 \<times> u32 \<times> IKCPSEG list \<times> IKCPSEG list \<times> u32 \<times> u32" where
  "rcv_part k = (kc_rcv_nxt k, kc_rcv_wnd k, kc_rcv_queue k, kc_rcv_buf k, kc_nrcv_que k, kc_nrcv_buf k)"

definition ack_part :: "IKCPCB \<Rightarrow> (u32 \<times> u32) list \<times> u32 \<times> u32" where
  "ack_part k = (kc_acklist k, kc_ackcount k, kc_ackblock k)"

lemmas part_defs = snd_part_def rcv_part_def ack_part_def

subsection \<open>Sequence arithmetic\<close>

text \<open>Sequence numbers that stand for counters below \<open>2 ^ 30\<close> compare as the counters do.\<close>

lemma itimediff_of_nat:
  assumes "m \<le> 2 ^ 31" and "n < 2 ^ 31"
  shows "itimediff (word_of_nat n) (word_of_nat m) = int n - int m"
proof -
  have "(word_of_nat n - word_of_nat m :: u32) = word_of_int (int n - int m)" by simp
  moreover have "- (2 ^ 31) \<le> int n - int m" "int n - int m < 2 ^ 31" using assms by simp_all
  ultimately show ?thesis by (simp only: itimediff_def sint_word_of_int_small)
qed

lemma word_of_nat_inj32:
  assumes "m < 2 ^ 32" and "n < 2 ^ 32"
  shows "(word_of_nat m :: u32) = word_of_nat n \<longleftrightarrow> m = n"
proof
  assume "(word_of_nat m :: u32) = word_of_nat n"
  then have "unat (word_of_nat m :: u32) = unat (word_of_nat n :: u32)" by simp
  with assms show "m = n" by (simp add: unat_word_of_nat_small)
qed simp

lemma itimediff_self [simp]: "itimediff a a = 0"
  by (simp add: itimediff_def)

subsection \<open>The segment header codec\<close>

lemma length_encode_seg [simp]: "length (ikcp_encode_seg s) = 24"
  by (simp add: ikcp_encode_seg_def ikcp_encode8u_def ikcp_encode16u_def ikcp_encode32u_def)

lemma decode_encode_seg [simp, codec_simps]:
  "decode_header (ikcp_encode_seg s @ r) = (header_of s, r)"
  by (simp add: decode_header_def ikcp_encode_seg_def ikcp_encode8u_def ikcp_encode16u_def
      ikcp_encode32u_def ikcp_decode8u_def ikcp_decode16u_def ikcp_decode32u_def header_of_def)

end
