(* ===== verification/Kcp_Recv.thy ===== *)
theory Kcp_Recv
  imports Kcp_Base
begin

text \<open>
  \<^verbatim>\<open>ikcp.c\<close>, receive side: \<open>ikcp_peeksize\<close>, \<open>ikcp_recv\<close>, \<open>ikcp_ack_push\<close> and \<open>ikcp_parse_data\<close>.
  The invariant \<open>rcv_inv log got k\<close> relates a control block to the log of payloads the peer has
  numbered and the bytes already handed to the application: received and queued bytes are exactly a
  prefix of the log, and the out-of-order buffer holds log entries inside the window, sorted and
  without repetition.  Every operation keeps it.
\<close>

subsection \<open>The code\<close>

fun peek_sum :: "IKCPSEG list \<Rightarrow> u32 \<Rightarrow> u32" where
  "peek_sum [] len = len"
| "peek_sum (seg # p) len =
     (if sg_frg seg = 0 then len + sg_len seg else peek_sum p (len + sg_len seg))"

definition ikcp_peeksize :: "IKCPCB \<Rightarrow> int" where
  "ikcp_peeksize k =
     (case kc_rcv_queue k of
        [] \<Rightarrow> -1
      | seg # _ \<Rightarrow>
          if sg_frg seg = 0 then sint (sg_len seg)
          else if kc_nrcv_que k < sg_frg seg + 1 then -1
          else sint (peek_sum (kc_rcv_queue k) 0))"

text \<open>The segments of the first message and the rest of the queue.\<close>

fun merge_fragment :: "IKCPSEG list \<Rightarrow> IKCPSEG list \<times> IKCPSEG list" where
  "merge_fragment [] = ([], [])"
| "merge_fragment (seg # p) =
     (if sg_frg seg = 0 then ([seg], p)
      else let (segs, rest) = merge_fragment p in (seg # segs, rest))"

function move_rcv_buf :: "IKCPCB \<Rightarrow> IKCPCB" where
  "move_rcv_buf k =
     (case kc_rcv_buf k of
        [] \<Rightarrow> k
      | seg # rest \<Rightarrow>
          if sg_sn seg = kc_rcv_nxt k \<and> kc_nrcv_que k < kc_rcv_wnd k
          then move_rcv_buf (k\<lparr>kc_rcv_buf := rest, kc_nrcv_buf := kc_nrcv_buf k - 1,
                 kc_rcv_queue := kc_rcv_queue k @ [seg], kc_nrcv_que := kc_nrcv_que k + 1,
                 kc_rcv_nxt := kc_rcv_nxt k + 1\<rparr>)
          else k)"
  by pat_completeness auto
termination
  by (relation "measure (\<lambda>k. length (kc_rcv_buf k))") auto

declare move_rcv_buf.simps [simp del]

text \<open>\<open>ikcp_recv\<close> with a buffer: the return code, the bytes copied, and the control block.  A
  negative length only peeks.\<close>

definition ikcp_recv :: "IKCPCB \<Rightarrow> int \<Rightarrow> int \<times> byte list \<times> IKCPCB" where
  "ikcp_recv k len0 =
     (if kc_rcv_queue k = [] then (-1, [], k)
      else
        let ispeek = (len0 < 0);
            len = (if len0 < 0 then - len0 else len0);
            peeksize = ikcp_peeksize k
        in if peeksize < 0 then (-2, [], k)
           else if peeksize > len then (-3, [], k)
           else
             let recover = (kc_nrcv_que k \<ge> kc_rcv_wnd k);
                 (segs, rest) = merge_fragment (kc_rcv_queue k);
                 out = concat (map seg_bytes segs);
                 total = sum_list (map sg_len segs);
                 k1 = (if ispeek then k
                       else k\<lparr>kc_rcv_queue := rest,
                              kc_nrcv_que := kc_nrcv_que k - word_of_nat (length segs)\<rparr>);
                 k2 = move_rcv_buf k1;
                 k3 = (if kc_nrcv_que k2 < kc_rcv_wnd k2 \<and> recover
                       then k2\<lparr>kc_probe := kc_probe k2 OR IKCP_ASK_TELL\<rparr> else k2)
             in (sint total, out, k3))"

text \<open>The capacity loop of \<open>ikcp_ack_push\<close>: double from 8 until the new size fits.\<close>

function ack_capacity :: "nat \<Rightarrow> nat \<Rightarrow> nat" where
  "ack_capacity newsize newblock =
     (if 0 < newblock \<and> newblock < newsize then ack_capacity newsize (2 * newblock) else newblock)"
  by pat_completeness auto
termination
  by (relation "measure (\<lambda>(newsize, newblock). newsize - newblock)") auto

declare ack_capacity.simps [simp del]

definition ikcp_ack_push :: "IKCPCB \<Rightarrow> u32 \<Rightarrow> u32 \<Rightarrow> IKCPCB" where
  "ikcp_ack_push k sn ts =
     (let newsize = kc_ackcount k + 1;
          k1 = (if newsize > kc_ackblock k
                then k\<lparr>kc_ackblock := word_of_nat (ack_capacity (unat newsize) 8)\<rparr> else k)
      in k1\<lparr>kc_acklist := take (unat (kc_ackcount k)) (kc_acklist k) @ [(sn, ts)],
            kc_ackcount := kc_ackcount k + 1\<rparr>)"

definition ikcp_ack_get :: "IKCPCB \<Rightarrow> nat \<Rightarrow> u32 \<times> u32" where
  "ikcp_ack_get k p = kc_acklist k ! p"

text \<open>The backward search of \<open>ikcp_parse_data\<close> over the reversed buffer: \<open>None\<close> is a repeated
  sequence number.\<close>

fun insert_back :: "IKCPSEG \<Rightarrow> IKCPSEG list \<Rightarrow> IKCPSEG list option" where
  "insert_back new [] = Some [new]"
| "insert_back new (seg # prev) =
     (if sg_sn seg = sg_sn new then None
      else if itimediff (sg_sn new) (sg_sn seg) > 0 then Some (new # seg # prev)
      else map_option (\<lambda>r. seg # r) (insert_back new prev))"

definition ikcp_parse_data :: "IKCPCB \<Rightarrow> IKCPSEG \<Rightarrow> IKCPCB" where
  "ikcp_parse_data k newseg =
     (if itimediff (sg_sn newseg) (kc_rcv_nxt k + kc_rcv_wnd k) \<ge> 0
         \<or> itimediff (sg_sn newseg) (kc_rcv_nxt k) < 0 then k
      else
        let k1 = (case insert_back newseg (rev (kc_rcv_buf k)) of
                    Some r \<Rightarrow> k\<lparr>kc_rcv_buf := rev r, kc_nrcv_buf := kc_nrcv_buf k + 1\<rparr>
                  | None \<Rightarrow> k)
        in move_rcv_buf k1)"

subsection \<open>The invariant\<close>

definition seq :: "IKCPSEG \<Rightarrow> nat" where
  "seq s = unat (sg_sn s)"

definition rcv_pos :: "IKCPCB \<Rightarrow> nat" where
  "rcv_pos k = unat (kc_rcv_nxt k)"

text \<open>A segment that carries entry \<open>seq s\<close> of the log, in stream mode (no fragments).\<close>

definition carries :: "byte list list \<Rightarrow> IKCPSEG \<Rightarrow> bool" where
  "carries log s \<longleftrightarrow> seq s < length log \<and> seg_bytes s = log ! seq s \<and> sg_frg s = 0
     \<and> unat (sg_len s) = length (sg_data s) \<and> unat (sg_len s) < 2 ^ 31"

definition rcv_inv :: "byte list list \<Rightarrow> byte list \<Rightarrow> IKCPCB \<Rightarrow> bool" where
  "rcv_inv log got k \<longleftrightarrow>
     length log \<le> 2 ^ 30 \<and> 0 < unat (kc_rcv_wnd k) \<and> unat (kc_rcv_wnd k) \<le> 2 ^ 30
   \<and> rcv_pos k \<le> length log
   \<and> got @ concat (map seg_bytes (kc_rcv_queue k)) = concat (take (rcv_pos k) log)
   \<and> sorted_wrt (<) (map seq (kc_rcv_buf k))
   \<and> (\<forall>s\<in>set (kc_rcv_buf k). carries log s \<and> rcv_pos k \<le> seq s
        \<and> seq s < rcv_pos k + unat (kc_rcv_wnd k))
   \<and> (\<forall>s\<in>set (kc_rcv_queue k). sg_frg s = 0 \<and> unat (sg_len s) = length (sg_data s)
        \<and> unat (sg_len s) < 2 ^ 31)
   \<and> length (kc_rcv_queue k) \<le> unat (kc_rcv_wnd k)
   \<and> kc_nrcv_que k = word_of_nat (length (kc_rcv_queue k))
   \<and> kc_nrcv_buf k = word_of_nat (length (kc_rcv_buf k))"

text \<open>The log entries a control block has taken in, in order or not.\<close>

definition received :: "IKCPCB \<Rightarrow> nat set" where
  "received k = {n. n < rcv_pos k} \<union> seq ` set (kc_rcv_buf k)"

lemma word_of_nat_seq: "word_of_nat (seq s) = sg_sn s"
  by (simp add: seq_def)

lemma word_of_nat_rcv_pos: "word_of_nat (rcv_pos k) = kc_rcv_nxt k"
  by (simp add: rcv_pos_def)

lemma nrcv_que_less:
  assumes "rcv_inv log got k"
  shows "kc_nrcv_que k < kc_rcv_wnd k \<longleftrightarrow> length (kc_rcv_queue k) < unat (kc_rcv_wnd k)"
  using assms by (simp add: rcv_inv_def word_less_nat_alt unat_word_of_nat_small)

lemma rcv_pos_Suc:
  assumes "rcv_pos k < 2 ^ 30"
  shows "unat (kc_rcv_nxt k + 1) = Suc (rcv_pos k)"
proof -
  have "kc_rcv_nxt k + 1 = word_of_nat (Suc (rcv_pos k))"
    by (simp add: word_of_nat_rcv_pos add.commute)
  with assms show ?thesis by (simp add: unat_word_of_nat_small del: of_nat_Suc)
qed

abbreviation move_one :: "IKCPCB \<Rightarrow> IKCPSEG \<Rightarrow> IKCPSEG list \<Rightarrow> IKCPCB" where
  "move_one k seg rest \<equiv> k\<lparr>kc_rcv_buf := rest, kc_nrcv_buf := kc_nrcv_buf k - 1,
     kc_rcv_queue := kc_rcv_queue k @ [seg], kc_nrcv_que := kc_nrcv_que k + 1,
     kc_rcv_nxt := kc_rcv_nxt k + 1\<rparr>"

lemma move_step_inv:
  assumes inv: "rcv_inv log got k" and buf: "kc_rcv_buf k = seg # rest"
    and sn: "sg_sn seg = kc_rcv_nxt k" and room: "kc_nrcv_que k < kc_rcv_wnd k"
  shows "rcv_inv log got (move_one k seg rest)"
    and "rcv_pos (move_one k seg rest) = Suc (rcv_pos k)"
proof -
  let ?k' = "move_one k seg rest"
  have seq: "seq seg = rcv_pos k" by (simp add: seq_def rcv_pos_def sn)
  have car: "carries log seg" using inv buf by (simp add: rcv_inv_def)
  then have lt: "rcv_pos k < length log" and by_log: "seg_bytes seg = log ! rcv_pos k"
    by (auto simp: carries_def seq)
  have pos': "rcv_pos ?k' = Suc (rcv_pos k)"
    using lt inv rcv_pos_Suc [of k] by (simp add: rcv_inv_def rcv_pos_def)
  then show "rcv_pos ?k' = Suc (rcv_pos k)" .
  have gt: "\<forall>s\<in>set rest. Suc (rcv_pos k) \<le> seq s"
    using inv buf seq by (auto simp: rcv_inv_def Suc_le_eq)
  have tk: "concat (take (Suc (rcv_pos k)) log) = concat (take (rcv_pos k) log) @ log ! rcv_pos k"
    using lt by (simp add: take_Suc_conv_app_nth)
  have got': "got @ concat (map seg_bytes (kc_rcv_queue k @ [seg])) = concat (take (Suc (rcv_pos k)) log)"
    using inv by (simp add: rcv_inv_def tk by_log flip: append_assoc)
  have room': "length (kc_rcv_queue k) < unat (kc_rcv_wnd k)"
    using room nrcv_que_less [OF inv] by simp
  show "rcv_inv log got ?k'"
    unfolding rcv_inv_def pos'
    using inv buf lt gt got' room' car
    by (auto simp: rcv_inv_def carries_def simp del: map_append)
qed

lemma move_rcv_buf_inv:
  "rcv_inv log got k \<Longrightarrow>
   rcv_inv log got (move_rcv_buf k) \<and> received (move_rcv_buf k) = received k
   \<and> rcv_pos k \<le> rcv_pos (move_rcv_buf k)"
proof (induction k rule: move_rcv_buf.induct)
  case (1 k)
  show ?case
  proof (cases "kc_rcv_buf k")
    case Nil
    with 1 show ?thesis by (simp add: move_rcv_buf.simps [of k])
  next
    case (Cons seg rest)
    show ?thesis
    proof (cases "sg_sn seg = kc_rcv_nxt k \<and> kc_nrcv_que k < kc_rcv_wnd k")
      case False
      with 1 Cons show ?thesis by (auto simp add: move_rcv_buf.simps [of k])
    next
      case True
      let ?k' = "move_one k seg rest"
      have inv': "rcv_inv log got ?k'" and pos': "rcv_pos ?k' = Suc (rcv_pos k)"
        using move_step_inv [OF "1.prems" Cons] True by blast+
      have "seq seg = rcv_pos k" using True by (simp add: seq_def rcv_pos_def)
      then have "received ?k' = received k"
        using Cons pos' by (auto simp: received_def less_Suc_eq)
      with "1.IH" [OF Cons True inv'] pos' Cons True show ?thesis
        by (simp add: move_rcv_buf.simps [of k])
    qed
  qed
qed

lemma rcv_inv_cong: "rcv_part k = rcv_part k' \<Longrightarrow> rcv_inv log got k = rcv_inv log got k'"
  by (simp add: rcv_inv_def rcv_part_def rcv_pos_def)

lemma received_cong: "rcv_part k = rcv_part k' \<Longrightarrow> received k = received k'"
  by (simp add: received_def rcv_part_def rcv_pos_def)

lemma rcv_pos_cong: "rcv_part k = rcv_part k' \<Longrightarrow> rcv_pos k = rcv_pos k'"
  by (simp add: rcv_part_def rcv_pos_def)

lemma rcv_inv_log_append:
  assumes "rcv_inv log got k" and "length (log @ xs) \<le> 2 ^ 30"
  shows "rcv_inv (log @ xs) got k"
  using assms by (auto simp: rcv_inv_def carries_def nth_append)

lemma insert_back_spec:
  assumes "sorted_wrt (\<lambda>a b. seq a > seq b) r" and "\<forall>s\<in>set r. seq s < 2 ^ 31" and "seq new < 2 ^ 31"
  shows "case insert_back new r of
      None \<Rightarrow> seq new \<in> seq ` set r
    | Some r' \<Rightarrow> seq new \<notin> seq ` set r \<and> sorted_wrt (\<lambda>a b. seq a > seq b) r'
        \<and> set r' = insert new (set r) \<and> length r' = Suc (length r)"
  using assms
proof (induction r)
  case Nil
  then show ?case by simp
next
  case (Cons s r)
  have eq: "sg_sn s = sg_sn new \<longleftrightarrow> seq s = seq new"
    by (auto simp: seq_def word_unat_eq_iff)
  have diff: "itimediff (sg_sn new) (sg_sn s) = int (seq new) - int (seq s)"
    using itimediff_of_nat [of "seq s" "seq new"] Cons.prems by (simp add: word_of_nat_seq)
  consider "seq s = seq new" | "seq s < seq new" | "seq new < seq s" by linarith
  then show ?case
  proof cases
    case 1
    then show ?thesis by (simp add: eq)
  next
    case 2
    then show ?thesis using Cons.prems by (auto simp: eq diff)
  next
    case 3
    then have "insert_back new (s # r) = map_option (\<lambda>r'. s # r') (insert_back new r)"
      by (simp add: eq diff)
    with Cons.IH Cons.prems 3 show ?thesis by (auto split: option.splits)
  qed
qed

lemma sorted_wrt_rev_seq:
  "sorted_wrt (<) (map seq xs) \<longleftrightarrow> sorted_wrt (\<lambda>a b. seq a > seq b) (rev xs)"
  by (simp add: sorted_wrt_map sorted_wrt_rev)

lemma window_checks:
  assumes inv: "rcv_inv log got k" and n: "seq s < length log"
  shows "0 \<le> itimediff (sg_sn s) (kc_rcv_nxt k + kc_rcv_wnd k) \<longleftrightarrow> rcv_pos k + unat (kc_rcv_wnd k) \<le> seq s"
    and "itimediff (sg_sn s) (kc_rcv_nxt k + kc_rcv_wnd k) < 0 \<longleftrightarrow> seq s < rcv_pos k + unat (kc_rcv_wnd k)"
    and "itimediff (sg_sn s) (kc_rcv_nxt k) < 0 \<longleftrightarrow> seq s < rcv_pos k"
    and "0 \<le> itimediff (sg_sn s) (kc_rcv_nxt k) \<longleftrightarrow> rcv_pos k \<le> seq s"
proof -
  have b: "seq s < 2 ^ 31" "rcv_pos k + unat (kc_rcv_wnd k) \<le> 2 ^ 31" "rcv_pos k \<le> 2 ^ 31"
    using inv n by (auto simp: rcv_inv_def)
  have "kc_rcv_nxt k + kc_rcv_wnd k = word_of_nat (rcv_pos k + unat (kc_rcv_wnd k))"
    by (simp add: word_of_nat_rcv_pos)
  with itimediff_of_nat [OF b(2,1)]
  have "itimediff (sg_sn s) (kc_rcv_nxt k + kc_rcv_wnd k) = int (seq s) - int (rcv_pos k + unat (kc_rcv_wnd k))"
    by (simp only: word_of_nat_seq)
  then show "0 \<le> itimediff (sg_sn s) (kc_rcv_nxt k + kc_rcv_wnd k) \<longleftrightarrow> rcv_pos k + unat (kc_rcv_wnd k) \<le> seq s"
    and "itimediff (sg_sn s) (kc_rcv_nxt k + kc_rcv_wnd k) < 0 \<longleftrightarrow> seq s < rcv_pos k + unat (kc_rcv_wnd k)"
    by linarith+
  from itimediff_of_nat [OF b(3,1)]
  have "itimediff (sg_sn s) (kc_rcv_nxt k) = int (seq s) - int (rcv_pos k)"
    by (simp only: word_of_nat_seq word_of_nat_rcv_pos)
  then show "itimediff (sg_sn s) (kc_rcv_nxt k) < 0 \<longleftrightarrow> seq s < rcv_pos k"
    and "0 \<le> itimediff (sg_sn s) (kc_rcv_nxt k) \<longleftrightarrow> rcv_pos k \<le> seq s"
    by linarith+
qed

lemma parse_data_inv:
  assumes inv: "rcv_inv log got k" and car: "carries log s"
  shows "rcv_inv log got (ikcp_parse_data k s)
    \<and> received (ikcp_parse_data k s) =
        (if rcv_pos k \<le> seq s \<and> seq s < rcv_pos k + unat (kc_rcv_wnd k)
         then insert (seq s) (received k) else received k)
    \<and> rcv_pos k \<le> rcv_pos (ikcp_parse_data k s)"
proof (cases "rcv_pos k \<le> seq s \<and> seq s < rcv_pos k + unat (kc_rcv_wnd k)")
  case False
  then show ?thesis
    using inv window_checks [OF inv] car by (auto simp: ikcp_parse_data_def carries_def)
next
  case True
  define k1 where "k1 = (case insert_back s (rev (kc_rcv_buf k)) of
      Some r \<Rightarrow> k\<lparr>kc_rcv_buf := rev r, kc_nrcv_buf := kc_nrcv_buf k + 1\<rparr> | None \<Rightarrow> k)"
  have parse: "ikcp_parse_data k s = move_rcv_buf k1"
    using True window_checks [OF inv] car by (simp add: ikcp_parse_data_def carries_def k1_def)
  have ins: "case insert_back s (rev (kc_rcv_buf k)) of
      None \<Rightarrow> seq s \<in> seq ` set (rev (kc_rcv_buf k))
    | Some r' \<Rightarrow> seq s \<notin> seq ` set (rev (kc_rcv_buf k)) \<and> sorted_wrt (\<lambda>a b. seq a > seq b) r'
        \<and> set r' = insert s (set (rev (kc_rcv_buf k))) \<and> length r' = Suc (length (rev (kc_rcv_buf k)))"
    by (rule insert_back_spec)
      (use inv car in \<open>auto simp: rcv_inv_def carries_def sorted_wrt_rev_seq simp flip: sorted_wrt_rev_seq\<close>)
  have "rcv_inv log got k1 \<and> received k1 = insert (seq s) (received k) \<and> rcv_pos k1 = rcv_pos k"
  proof (cases "insert_back s (rev (kc_rcv_buf k))")
    case None
    with ins inv show ?thesis by (auto simp: k1_def received_def)
  next
    case (Some r)
    with ins have r: "sorted_wrt (<) (map seq (rev r))" "set r = insert s (set (kc_rcv_buf k))"
      "length r = Suc (length (kc_rcv_buf k))" by (auto simp: sorted_wrt_rev_seq)
    have pos: "rcv_pos k1 = rcv_pos k" by (simp add: k1_def Some rcv_pos_def)
    show ?thesis
      unfolding rcv_inv_def received_def pos
      using inv r car True Some by (auto simp: k1_def rcv_inv_def received_def)
  qed
  with True move_rcv_buf_inv [of log got k1] show ?thesis by (simp add: parse)
qed

subsection \<open>Frames\<close>

lemma move_rcv_buf_frame:
  "snd_part (move_rcv_buf k) = snd_part k" "ack_part (move_rcv_buf k) = ack_part k"
  "kc_rcv_wnd (move_rcv_buf k) = kc_rcv_wnd k" "kc_probe (move_rcv_buf k) = kc_probe k"
  by (induction k rule: move_rcv_buf.induct)
    (subst move_rcv_buf.simps, auto simp: part_defs split: list.splits)+

lemma parse_data_frame:
  "snd_part (ikcp_parse_data k s) = snd_part k" "ack_part (ikcp_parse_data k s) = ack_part k"
  by (auto simp: ikcp_parse_data_def Let_def move_rcv_buf_frame split: option.splits)
    (auto simp: part_defs)

lemma ack_push_frame:
  "snd_part (ikcp_ack_push k sn ts) = snd_part k" "rcv_part (ikcp_ack_push k sn ts) = rcv_part k"
  by (simp_all add: ikcp_ack_push_def Let_def part_defs)

text \<open>When moving stops, the out-of-order buffer does not start with the next expected segment
  unless the queue is full.\<close>

definition drained :: "IKCPCB \<Rightarrow> bool" where
  "drained k \<longleftrightarrow> (case kc_rcv_buf k of [] \<Rightarrow> True
     | seg # _ \<Rightarrow> sg_sn seg \<noteq> kc_rcv_nxt k \<or> \<not> kc_nrcv_que k < kc_rcv_wnd k)"

lemma move_rcv_buf_drained: "drained (move_rcv_buf k)"
proof (induction k rule: move_rcv_buf.induct)
  case (1 k)
  then show ?case
    by (subst move_rcv_buf.simps) (auto simp: drained_def split: list.splits)
qed

subsection \<open>Acknowledgement list\<close>

text \<open>The first \<open>ackcount\<close> entries of the list are pending; the rest is left over from earlier rounds.\<close>

definition pending_acks :: "IKCPCB \<Rightarrow> (u32 \<times> u32) list" where
  "pending_acks k = take (unat (kc_ackcount k)) (kc_acklist k)"

definition ack_wf :: "IKCPCB \<Rightarrow> bool" where
  "ack_wf k \<longleftrightarrow> unat (kc_ackcount k) \<le> length (kc_acklist k)"

lemma ack_capacity_ge: "0 < b \<Longrightarrow> n \<le> ack_capacity n b"
proof (induction n b rule: ack_capacity.induct)
  case (1 n b)
  then show ?case by (cases "b < n") (simp_all add: ack_capacity.simps [of n b])
qed

lemma ack_push_pending:
  assumes "ack_wf k" and "unat (kc_ackcount k) + 1 < 2 ^ 32"
  shows "pending_acks (ikcp_ack_push k sn ts) = pending_acks k @ [(sn, ts)]"
proof -
  have "unat (kc_ackcount k + 1) = Suc (unat (kc_ackcount k))"
    using assms(2) by (simp add: unat_word_ariths)
  with assms(1) show ?thesis
    by (simp add: ikcp_ack_push_def Let_def pending_acks_def ack_wf_def)
qed

lemma ack_push_wf:
  assumes "ack_wf k"
  shows "ack_wf (ikcp_ack_push k sn ts)"
    and "set (pending_acks (ikcp_ack_push k sn ts)) \<subseteq> insert (sn, ts) (set (pending_acks k))"
proof -
  have "unat (kc_ackcount k + 1) \<le> Suc (unat (kc_ackcount k))"
    by (simp add: unat_word_ariths)
  with assms show "ack_wf (ikcp_ack_push k sn ts)"
    by (simp add: ikcp_ack_push_def Let_def ack_wf_def)
  show "set (pending_acks (ikcp_ack_push k sn ts)) \<subseteq> insert (sn, ts) (set (pending_acks k))"
    using set_take_subset_set_take [of "min (unat (kc_ackcount k + 1)) (unat (kc_ackcount k))"
        "unat (kc_ackcount k)" "kc_acklist k"]
    by (auto simp: ikcp_ack_push_def Let_def pending_acks_def dest: in_set_takeD)
qed

subsection \<open>Handing data to the application\<close>

lemma recv_first:
  assumes inv: "rcv_inv log got k" and q: "kc_rcv_queue k = seg # rest" and len: "0 \<le> len"
  shows "ikcp_recv k len =
    (if int (length (seg_bytes seg)) > len then (-3, [], k)
     else (let k1 = k\<lparr>kc_rcv_queue := rest, kc_nrcv_que := kc_nrcv_que k - 1\<rparr>;
               k2 = move_rcv_buf k1
           in (int (length (seg_bytes seg)), seg_bytes seg,
               if kc_nrcv_que k2 < kc_rcv_wnd k2 \<and> kc_nrcv_que k \<ge> kc_rcv_wnd k
               then k2\<lparr>kc_probe := kc_probe k2 OR IKCP_ASK_TELL\<rparr> else k2)))"
proof -
  have f: "sg_frg seg = 0" and l: "unat (sg_len seg) = length (sg_data seg)" "unat (sg_len seg) < 2 ^ 31"
    using inv q by (auto simp: rcv_inv_def)
  then have s: "sint (sg_len seg) = int (length (sg_data seg))" by (simp add: sint_small)
  have b: "length (seg_bytes seg) = length (sg_data seg)" using l by (simp add: seg_bytes_def)
  have pk: "ikcp_peeksize k = int (length (seg_bytes seg))" by (simp add: ikcp_peeksize_def q f s b)
  show ?thesis using len by (simp add: ikcp_recv_def q pk f Let_def s b)
qed

lemma pop_inv:
  assumes inv: "rcv_inv log got k" and q: "kc_rcv_queue k = seg # rest"
  shows "rcv_inv log (got @ seg_bytes seg) (k\<lparr>kc_rcv_queue := rest, kc_nrcv_que := kc_nrcv_que k - 1\<rparr>)"
  using inv q by (auto simp: rcv_inv_def rcv_pos_def carries_def)

lemma recv_inv:
  assumes inv: "rcv_inv log got k" and len: "0 \<le> len" and r: "ikcp_recv k len = (ret, out, k')"
  shows "rcv_inv log (got @ out) k' \<and> received k' = received k \<and> rcv_pos k \<le> rcv_pos k'
    \<and> snd_part k' = snd_part k \<and> ack_part k' = ack_part k
    \<and> (0 \<le> ret \<longrightarrow> ret = int (length out)) \<and> (ret < 0 \<longrightarrow> k' = k \<and> out = [])"
proof (cases "kc_rcv_queue k")
  case Nil
  then have "ret = -1" "out = []" "k' = k" using r by (auto simp: ikcp_recv_def)
  with inv show ?thesis by simp
next
  case (Cons seg rest)
  show ?thesis
  proof (cases "int (length (seg_bytes seg)) > len")
    case True
    then show ?thesis using r recv_first [OF inv Cons len] inv by simp
  next
    case False
    let ?k1 = "k\<lparr>kc_rcv_queue := rest, kc_nrcv_que := kc_nrcv_que k - 1\<rparr>"
    have inv1: "rcv_inv log (got @ seg_bytes seg) ?k1" using pop_inv [OF inv Cons] .
    have same: "received ?k1 = received k" "rcv_pos ?k1 = rcv_pos k"
      "snd_part ?k1 = snd_part k" "ack_part ?k1 = ack_part k"
      by (simp_all add: received_def rcv_pos_def part_defs)
    have out: "out = seg_bytes seg" and ret: "ret = int (length out)"
      and rp: "rcv_part k' = rcv_part (move_rcv_buf ?k1)"
      and sp: "snd_part k' = snd_part (move_rcv_buf ?k1)" "ack_part k' = ack_part (move_rcv_buf ?k1)"
      using r recv_first [OF inv Cons len] False by (auto simp: Let_def part_defs split: if_splits)
    show ?thesis
      using move_rcv_buf_inv [OF inv1] rcv_inv_cong [OF rp] received_cong [OF rp] rcv_pos_cong [OF rp]
        same sp move_rcv_buf_frame [of ?k1] out ret by simp
  qed
qed

lemma move_rcv_buf_length:
  "length (kc_rcv_queue (move_rcv_buf k)) + length (kc_rcv_buf (move_rcv_buf k))
   = length (kc_rcv_queue k) + length (kc_rcv_buf k)"
  by (induction k rule: move_rcv_buf.induct) (subst (1 2) move_rcv_buf.simps, auto split: list.splits)

text \<open>With an empty queue the receive position is the first number that is missing.\<close>

lemma drained_pos:
  assumes inv: "rcv_inv log got k" and d: "drained k" and q: "kc_rcv_queue k = []" and all: "\<forall>m<n. m \<in> received k"
  shows "n \<le> rcv_pos k"
proof (rule ccontr)
  assume "\<not> n \<le> rcv_pos k"
  then have "rcv_pos k \<in> received k" using all by simp
  then have mem: "rcv_pos k \<in> seq ` set (kc_rcv_buf k)" by (simp add: received_def)
  then obtain s rest where b: "kc_rcv_buf k = s # rest" by (cases "kc_rcv_buf k") auto
  have "seq s = rcv_pos k" using inv mem b by (force simp: rcv_inv_def)
  then have "sg_sn s = kc_rcv_nxt k" by (metis word_of_nat_rcv_pos word_of_nat_seq)
  moreover have "kc_nrcv_que k < kc_rcv_wnd k" using inv q by (simp add: rcv_inv_def word_less_nat_alt)
  ultimately show False using d b by (simp add: drained_def)
qed

end
