(* ===== verification/Kcp_Send.thy ===== *)
theory Kcp_Send
  imports Kcp_Recv "HOL-Library.Signed_Division"
begin

text \<open>
  \<^verbatim>\<open>ikcp.c\<close>, send side: \<open>ikcp_send\<close> and the processing of acknowledgements (\<open>ikcp_update_ack\<close>,
  \<open>ikcp_shrink_buf\<close>, \<open>ikcp_parse_ack\<close>, \<open>ikcp_parse_una\<close>, \<open>ikcp_parse_fastack\<close>).  The lemmas show
  that in stream mode sending appends exactly the accepted bytes to the queued stream in segments of
  at most \<open>mss\<close> bytes, and that an acknowledgement removes only the segments it names.  The bounds of the
  retransmission timeout are in \<^theory_text>\<open>Kcp_Control\<close>.
\<close>

subsection \<open>The code\<close>

text \<open>The fragment loop of \<open>ikcp_send\<close>; the first argument is \<open>count - i\<close>.\<close>

fun send_fragments :: "nat \<Rightarrow> IKCPCB \<Rightarrow> byte list \<Rightarrow> int \<Rightarrow> int \<Rightarrow> int \<times> IKCPCB" where
  "send_fragments 0 k buffer len sent = (sent, k)"
| "send_fragments (Suc c) k buffer len sent =
     (let size = (if len > sint (kc_mss k) then sint (kc_mss k) else len);
          seg = (ikcp_segment_new (take (nat size) buffer))
                  \<lparr>sg_frg := (if kc_stream k = 0 then word_of_nat c else 0)\<rparr>
      in send_fragments c (k\<lparr>kc_snd_queue := kc_snd_queue k @ [seg], kc_nsnd_que := kc_nsnd_que k + 1\<rparr>)
           (drop (nat size) buffer) (len - size) (sent + size))"

text \<open>Streaming mode: extend the last queued segment.  Returns the control block, the rest of the
  buffer and its length, and the bytes taken.\<close>

definition send_extend :: "IKCPCB \<Rightarrow> byte list \<Rightarrow> int \<Rightarrow> IKCPCB \<times> byte list \<times> int \<times> int" where
  "send_extend k buffer len =
     (if kc_stream k \<noteq> 0 \<and> kc_snd_queue k \<noteq> [] \<and> sg_len (last (kc_snd_queue k)) < kc_mss k
      then let old = last (kc_snd_queue k);
               capacity = sint (kc_mss k - sg_len old);
               extend = (if len < capacity then len else capacity);
               seg = ikcp_segment_new (seg_bytes old @ take (nat extend) buffer)
           in (k\<lparr>kc_snd_queue := butlast (kc_snd_queue k) @ [seg]\<rparr>, drop (nat extend) buffer,
               len - extend, extend)
      else (k, buffer, len, 0))"

definition ikcp_send :: "IKCPCB \<Rightarrow> byte list \<Rightarrow> int \<Rightarrow> int \<times> IKCPCB" where
  "ikcp_send k buffer0 len0 =
     (if len0 < 0 then (-1, k)
      else let (k1, buffer, len, sent) = send_extend k buffer0 len0
           in if kc_stream k1 \<noteq> 0 \<and> len \<le> 0 then (sent, k1)
              else let count = (if len \<le> sint (kc_mss k1) then 1
                                else sint ((word_of_int len + kc_mss k1 - 1) div kc_mss k1))
                   in if count \<ge> sint IKCP_WND_RCV
                      then (if kc_stream k1 \<noteq> 0 \<and> sent > 0 then (sent, k1) else (-2, k1))
                      else send_fragments (nat (if count = 0 then 1 else count)) k1 buffer len sent)"

definition ikcp_update_ack :: "IKCPCB \<Rightarrow> int \<Rightarrow> IKCPCB" where
  "ikcp_update_ack k rtt =
     (let k1 = (if kc_rx_srtt k = 0
                then k\<lparr>kc_rx_srtt := rtt, kc_rx_rttval := rtt sdiv 2\<rparr>
                else let delta0 = i32 (rtt - kc_rx_srtt k);
                         delta = (if delta0 < 0 then i32 (- delta0) else delta0);
                         srtt = i32 (7 * kc_rx_srtt k + rtt) sdiv 8
                     in k\<lparr>kc_rx_rttval := i32 (3 * kc_rx_rttval k + delta) sdiv 4,
                          kc_rx_srtt := (if srtt < 1 then 1 else srtt)\<rparr>);
          rto = sint (word_of_int (kc_rx_srtt k1)
                      + imax (kc_interval k1) (word_of_int (4 * kc_rx_rttval k1)) :: u32)
      in k1\<lparr>kc_rx_rto := sint (ibound (word_of_int (kc_rx_minrto k1)) (word_of_int rto) IKCP_RTO_MAX)\<rparr>)"

definition ikcp_shrink_buf :: "IKCPCB \<Rightarrow> IKCPCB" where
  "ikcp_shrink_buf k =
     (case kc_snd_buf k of
        seg # _ \<Rightarrow> k\<lparr>kc_snd_una := sg_sn seg\<rparr>
      | [] \<Rightarrow> k\<lparr>kc_snd_una := kc_snd_nxt k\<rparr>)"

text \<open>The search of \<open>ikcp_parse_ack\<close>: the segment removed, if any, and the remaining buffer.\<close>

fun ack_remove :: "u32 \<Rightarrow> IKCPSEG list \<Rightarrow> IKCPSEG option \<times> IKCPSEG list" where
  "ack_remove sn [] = (None, [])"
| "ack_remove sn (seg # next) =
     (if sn = sg_sn seg then (Some seg, next)
      else if itimediff sn (sg_sn seg) < 0 then (None, seg # next)
      else let (r, rest) = ack_remove sn next in (r, seg # rest))"

definition ikcp_parse_ack :: "IKCPCB \<Rightarrow> u32 \<Rightarrow> IKCPCB" where
  "ikcp_parse_ack k sn =
     (if itimediff sn (kc_snd_una k) < 0 \<or> itimediff sn (kc_snd_nxt k) \<ge> 0 then k
      else case ack_remove sn (kc_snd_buf k) of
        (None, _) \<Rightarrow> k
      | (Some seg, rest) \<Rightarrow> k\<lparr>kc_ackedlen := kc_ackedlen k + sg_len seg, kc_snd_buf := rest,
                               kc_nsnd_buf := kc_nsnd_buf k - 1\<rparr>)"

fun una_remove :: "u32 \<Rightarrow> IKCPSEG list \<Rightarrow> IKCPSEG list \<times> IKCPSEG list" where
  "una_remove una [] = ([], [])"
| "una_remove una (seg # next) =
     (if itimediff una (sg_sn seg) > 0
      then let (gone, rest) = una_remove una next in (seg # gone, rest)
      else ([], seg # next))"

definition ikcp_parse_una :: "IKCPCB \<Rightarrow> u32 \<Rightarrow> IKCPCB" where
  "ikcp_parse_una k una =
     (let (gone, rest) = una_remove una (kc_snd_buf k)
      in k\<lparr>kc_ackedlen := kc_ackedlen k + sum_list (map sg_len gone), kc_snd_buf := rest,
           kc_nsnd_buf := kc_nsnd_buf k - word_of_nat (length gone)\<rparr>)"

fun fastack_loop :: "u32 \<Rightarrow> u32 \<Rightarrow> IKCPSEG list \<Rightarrow> IKCPSEG list" where
  "fastack_loop sn ts [] = []"
| "fastack_loop sn ts (seg # next) =
     (if itimediff sn (sg_sn seg) < 0 then seg # next
      else if sn \<noteq> sg_sn seg
      then (if itimediff ts (sg_ts seg) \<ge> 0 then seg\<lparr>sg_fastack := sg_fastack seg + 1\<rparr> else seg)
           # fastack_loop sn ts next
      else seg # fastack_loop sn ts next)"

definition ikcp_parse_fastack :: "IKCPCB \<Rightarrow> u32 \<Rightarrow> u32 \<Rightarrow> IKCPCB" where
  "ikcp_parse_fastack k sn ts =
     (if itimediff sn (kc_snd_una k) < 0 \<or> itimediff sn (kc_snd_nxt k) \<ge> 0 then k
      else k\<lparr>kc_snd_buf := fastack_loop sn ts (kc_snd_buf k)\<rparr>)"

subsection \<open>Sending in stream mode\<close>

definition queue_bytes :: "IKCPSEG list \<Rightarrow> byte list" where
  "queue_bytes q = concat (map seg_bytes q)"

text \<open>A segment waiting in the send queue: its length field is its data, at most \<open>mss\<close> bytes.\<close>

definition seg_ok :: "u32 \<Rightarrow> IKCPSEG \<Rightarrow> bool" where
  "seg_ok mss s \<longleftrightarrow> unat (sg_len s) = length (sg_data s) \<and> length (sg_data s) \<le> unat mss \<and> sg_frg s = 0"

text \<open>A stream-mode control block with room for 1033 bytes in a segment, so that 128 KiB, the most the
  transport sends at once, need fewer than 128 segments.\<close>

definition stream_ok :: "IKCPCB \<Rightarrow> bool" where
  "stream_ok k \<longleftrightarrow> kc_stream k \<noteq> 0 \<and> 1033 \<le> unat (kc_mss k) \<and> unat (kc_mss k) < 2 ^ 30
     \<and> (\<forall>s\<in>set (kc_snd_queue k). seg_ok (kc_mss k) s)"

lemma queue_bytes_simps [simp]:
  "queue_bytes [] = []" "queue_bytes (s # q) = seg_bytes s @ queue_bytes q"
  "queue_bytes (q @ r) = queue_bytes q @ queue_bytes r"
  by (simp_all add: queue_bytes_def)

lemma seg_bytes_new: "length bs < 2 ^ 32 \<Longrightarrow> seg_bytes (ikcp_segment_new bs) = bs"
  by (simp add: seg_bytes_def ikcp_segment_new_def unat_word_of_nat_small)

lemma seg_ok_new:
  "length bs \<le> unat mss \<Longrightarrow> seg_ok mss (ikcp_segment_new bs)"
proof -
  assume b: "length bs \<le> unat mss"
  then have "length bs < 2 ^ 32" using unat_less_width [of mss] by simp
  with b show ?thesis by (simp add: seg_ok_def ikcp_segment_new_def unat_word_of_nat_small)
qed

lemma seg_bytes_ok: "seg_ok mss s \<Longrightarrow> seg_bytes s = sg_data s"
  by (simp add: seg_ok_def seg_bytes_def)

lemma send_fragments_stream:
  assumes "stream_ok k" and "length buffer \<le> c * unat (kc_mss k)" and "length buffer < 2 ^ 31"
  shows "\<exists>q. send_fragments c k buffer (int (length buffer)) sent =
      (sent + int (length buffer), k\<lparr>kc_snd_queue := kc_snd_queue k @ q,
        kc_nsnd_que := kc_nsnd_que k + word_of_nat (length q)\<rparr>)
    \<and> queue_bytes q = buffer \<and> length q = c \<and> (\<forall>s\<in>set q. seg_ok (kc_mss k) s)"
  using assms
proof (induction c arbitrary: k buffer sent)
  case 0
  then show ?case by (intro exI [of _ "[]"]) simp
next
  case (Suc c)
  define m where "m = unat (kc_mss k)"
  have m: "sint (kc_mss k) = int m" "m < 2 ^ 30"
    using Suc.prems(1) sint_small [of "kc_mss k"] by (auto simp: stream_ok_def m_def)
  define n where "n = min m (length buffer)"
  have size: "(if int (length buffer) > int m then int m else int (length buffer)) = int n"
    by (simp add: n_def min_def)
  let ?b = "take n buffer"
  define s where "s = (ikcp_segment_new ?b)\<lparr>sg_frg := 0\<rparr>"
  define k' where "k' = k\<lparr>kc_snd_queue := kc_snd_queue k @ [s], kc_nsnd_que := kc_nsnd_que k + 1\<rparr>"
  have "s = ikcp_segment_new ?b" by (simp add: s_def ikcp_segment_new_def)
  then have s: "seg_bytes s = ?b" "seg_ok (kc_mss k) s"
    using m by (simp_all add: seg_bytes_new seg_ok_new n_def m_def)
  have ok': "stream_ok k'" and mss': "kc_mss k' = kc_mss k"
    using Suc.prems(1) s by (simp_all add: stream_ok_def k'_def)
  have step: "send_fragments (Suc c) k buffer (int (length buffer)) sent =
      send_fragments c k' (drop n buffer) (int (length (drop n buffer))) (sent + int n)"
    using Suc.prems(1)
    by (simp add: m size s_def k'_def stream_ok_def of_nat_diff n_def Let_def)
  have "length (drop n buffer) \<le> c * unat (kc_mss k')" and "length (drop n buffer) < 2 ^ 31"
    using Suc.prems(2,3) by (auto simp: n_def mss' m_def)
  from Suc.IH [OF ok' this] obtain q where
    q: "send_fragments c k' (drop n buffer) (int (length (drop n buffer))) (sent + int n) =
        (sent + int n + int (length (drop n buffer)), k'\<lparr>kc_snd_queue := kc_snd_queue k' @ q,
          kc_nsnd_que := kc_nsnd_que k' + word_of_nat (length q)\<rparr>)"
      "queue_bytes q = drop n buffer" "length q = c" "\<forall>s\<in>set q. seg_ok (kc_mss k') s" by blast
  show ?case
    by (intro exI [of _ "s # q"])
      (use step q s in \<open>simp add: k'_def n_def add.assoc of_nat_diff\<close>)
qed

lemma send_extend_stream:
  assumes ok: "stream_ok k" and len: "length buffer < 2 ^ 31"
  shows "\<exists>e q. send_extend k buffer (int (length buffer)) =
      (k\<lparr>kc_snd_queue := q\<rparr>, drop e buffer, int (length (drop e buffer)), int e)
    \<and> e \<le> length buffer \<and> length q = length (kc_snd_queue k)
    \<and> queue_bytes q = queue_bytes (kc_snd_queue k) @ take e buffer
    \<and> (\<forall>s\<in>set q. seg_ok (kc_mss k) s)"
proof (cases "kc_snd_queue k \<noteq> [] \<and> sg_len (last (kc_snd_queue k)) < kc_mss k")
  case False
  with ok show ?thesis
    by (intro exI [of _ 0] exI [of _ "kc_snd_queue k"]) (auto simp: send_extend_def stream_ok_def)
next
  case True
  define old where "old = last (kc_snd_queue k)"
  define m where "m = unat (kc_mss k)"
  have q: "kc_snd_queue k = butlast (kc_snd_queue k) @ [old]" using True by (simp add: old_def)
  have okold: "seg_ok (kc_mss k) old" using ok True by (simp add: stream_ok_def old_def)
  then have l: "unat (sg_len old) = length (sg_data old)" by (simp add: seg_ok_def)
  have lt: "length (sg_data old) < m" using True l by (simp add: old_def m_def word_less_nat_alt)
  have m: "m < 2 ^ 30" using ok by (simp add: stream_ok_def m_def)
  have "unat (kc_mss k - sg_len old) = m - length (sg_data old)"
    using lt l by (subst unat_sub) (auto simp: word_le_nat_alt m_def)
  then have cap: "sint (kc_mss k - sg_len old) = int (m - length (sg_data old))"
    using m by (subst sint_small) auto
  define e where "e = min (length buffer) (m - length (sg_data old))"
  have ext: "(if int (length buffer) < int (m - length (sg_data old)) then int (length buffer)
      else int (m - length (sg_data old))) = int e"
    by (simp add: e_def min_def)
  define seg where "seg = ikcp_segment_new (seg_bytes old @ take e buffer)"
  have fit: "length (sg_data old @ take e buffer) \<le> m" using lt by (auto simp: e_def)
  have seg: "seg_bytes seg = seg_bytes old @ take e buffer" "seg_ok (kc_mss k) seg"
    unfolding seg_def seg_bytes_ok [OF okold]
    using fit m by (simp_all add: seg_bytes_new seg_ok_new m_def del: length_append)
  have ex: "send_extend k buffer (int (length buffer)) =
      (k\<lparr>kc_snd_queue := butlast (kc_snd_queue k) @ [seg]\<rparr>, drop e buffer,
       int (length buffer) - int e, int e)"
    using ok True by (auto simp: send_extend_def stream_ok_def Let_def cap seg_def e_def min_def
        simp flip: old_def)
  have "queue_bytes (kc_snd_queue k) = queue_bytes (butlast (kc_snd_queue k)) @ seg_bytes old"
    by (subst q) simp
  then have "queue_bytes (butlast (kc_snd_queue k) @ [seg]) = queue_bytes (kc_snd_queue k) @ take e buffer"
    by (simp add: seg)
  moreover have "\<forall>s\<in>set (butlast (kc_snd_queue k) @ [seg]). seg_ok (kc_mss k) s"
    using ok seg by (auto simp: stream_ok_def dest: in_set_butlastD)
  moreover have "e \<le> length buffer" by (simp add: e_def)
  ultimately show ?thesis
    using ex True by (intro exI [of _ e] exI [of _ "butlast (kc_snd_queue k) @ [seg]"])
      (simp add: of_nat_diff)
qed

text \<open>The number of fragments, computed with wrapping 32-bit arithmetic, is the rounded-up quotient.\<close>

lemma rounded_quotient_small:
  assumes "L < 2 ^ 31" and "m < 2 ^ 30" and "0 < (m :: nat)"
  shows "(L + m - 1) div m < 2 ^ 31"
proof (cases "m = 1")
  case True
  with assms show ?thesis by simp
next
  case False
  then have "(L + m - 1) div m \<le> (L + m - 1) div 2" using assms(3) by (intro div_le_mono2) auto
  also have "\<dots> < 2 ^ 31" using assms by (simp add: less_mult_imp_div_less)
  finally show ?thesis .
qed

lemma fragment_count:
  fixes mss :: u32
  assumes "0 < unat mss" and "unat mss < 2 ^ 30" and "length b < 2 ^ 31"
  shows "sint ((word_of_int (int (length b)) + mss - 1) div mss) = int ((length b + unat mss - 1) div unat mss)"
proof -
  have "unat (mss - 1) = unat mss - 1"
    using assms(1) by (intro unat_minus_one) auto
  moreover have "unat (word_of_nat (length b) :: u32) = length b"
    using assms(3) by (simp add: unat_word_of_nat_small)
  ultimately have "unat (word_of_nat (length b) + (mss - 1) :: u32) = length b + (unat mss - 1)"
    using assms by (subst unat_add_lem [THEN iffD1]) auto
  then have "unat ((word_of_nat (length b) + mss - 1) div mss) = (length b + unat mss - 1) div unat mss"
    using assms(1) by (simp add: unat_div add_diff_eq)
  with rounded_quotient_small [OF assms(3,2,1)] show ?thesis by (simp add: sint_small)
qed

lemma rounded_quotient:
  assumes "0 < (m :: nat)"
  shows "L \<le> (L + m - 1) div m * m" and "L \<le> c * m \<Longrightarrow> (L + m - 1) div m \<le> c"
proof -
  have "(L + m - 1) div m * m + (L + m - 1) mod m = L + m - 1" by simp
  moreover have "(L + m - 1) mod m < m" using assms by simp
  ultimately show "L \<le> (L + m - 1) div m * m" by linarith
  assume "L \<le> c * m"
  then have "L + m - 1 < Suc c * m" using assms by simp
  then have "(L + m - 1) div m < Suc c" by (rule less_mult_imp_div_less)
  then show "(L + m - 1) div m \<le> c" by simp
qed

text \<open>What a send in stream mode does: the accepted prefix of the buffer is appended to the queued
  bytes; everything is accepted when it needs fewer than 128 fragments.\<close>

definition sent_spec :: "IKCPCB \<Rightarrow> byte list \<Rightarrow> int \<Rightarrow> IKCPCB \<Rightarrow> bool" where
  "sent_spec k buffer ret k' \<longleftrightarrow>
     (\<exists>q. k' = k\<lparr>kc_snd_queue := q,
            kc_nsnd_que := kc_nsnd_que k + word_of_nat (length q - length (kc_snd_queue k))\<rparr>
        \<and> length (kc_snd_queue k) \<le> length q \<and> length q \<le> length (kc_snd_queue k) + length buffer
        \<and> queue_bytes q = queue_bytes (kc_snd_queue k) @ take (nat ret) buffer
        \<and> (\<forall>s\<in>set q. seg_ok (kc_mss k) s))
     \<and> ret \<le> int (length buffer)"

lemma sent_specI:
  assumes "length (kc_snd_queue k) \<le> length q" and "length q \<le> length (kc_snd_queue k) + length buffer"
    and "queue_bytes q = queue_bytes (kc_snd_queue k) @ take (nat ret) buffer"
    and "\<forall>s\<in>set q. seg_ok (kc_mss k) s" and "ret \<le> int (length buffer)"
    and "k' = k\<lparr>kc_snd_queue := q,
            kc_nsnd_que := kc_nsnd_que k + word_of_nat (length q - length (kc_snd_queue k))\<rparr>"
  shows "sent_spec k buffer ret k'"
  using assms unfolding sent_spec_def by blast

lemma sint_WND_RCV [simp]: "sint IKCP_WND_RCV = 128"
  by (simp add: IKCP_WND_RCV_def)

lemma send_rest:
  assumes ok: "stream_ok k" and len: "length b < 2 ^ 31" and b: "b \<noteq> []"
  defines "m \<equiv> unat (kc_mss k)"
  defines "count \<equiv> (if int (length b) \<le> sint (kc_mss k) then 1
                     else sint ((word_of_int (int (length b)) + kc_mss k - 1) div kc_mss k))"
  shows "length b \<le> nat count * m" and "length b \<le> 127 * m \<Longrightarrow> count < 128" and "0 < count"
    and "nat count \<le> length b"
proof -
  have m: "sint (kc_mss k) = int m" "m < 2 ^ 30" "0 < m"
    using ok sint_small [of "kc_mss k"] by (auto simp: stream_ok_def m_def)
  have c: "count = (if length b \<le> m then 1 else int ((length b + m - 1) div m))"
    using m(2,3) len fragment_count [of "kc_mss k" b] unfolding count_def m(1) of_nat_le_iff m_def by simp
  show 1: "length b \<le> nat count * m" using rounded_quotient(1) [OF m(3), of "length b"] by (simp add: c)
  show "length b \<le> 127 * m \<Longrightarrow> count < 128" using rounded_quotient(2) [OF m(3), of "length b" 127] by (simp add: c)
  show "0 < count" using 1 b by (cases "nat count") auto
  have "length b \<le> length b * m" using m(3) by simp
  from rounded_quotient(2) [OF m(3) this] show "nat count \<le> length b"
    using b by (cases b) (simp_all add: c)
qed

lemma send_stream:
  assumes ok: "stream_ok k" and len: "length buffer < 2 ^ 31"
    and r: "ikcp_send k buffer (int (length buffer)) = (ret, k')"
  shows "sent_spec k buffer ret k'"
    and "length buffer \<le> 127 * unat (kc_mss k) \<Longrightarrow> ret = int (length buffer)"
proof -
  obtain e q where ex: "send_extend k buffer (int (length buffer)) =
      (k\<lparr>kc_snd_queue := q\<rparr>, drop e buffer, int (length (drop e buffer)), int e)"
    and e: "e \<le> length buffer" and lq: "length q = length (kc_snd_queue k)"
    and qb: "queue_bytes q = queue_bytes (kc_snd_queue k) @ take e buffer"
    and qok: "\<forall>s\<in>set q. seg_ok (kc_mss k) s"
    using send_extend_stream [OF ok len] by blast
  let ?k1 = "k\<lparr>kc_snd_queue := q\<rparr>" and ?b = "drop e buffer"
  have ok1: "stream_ok ?k1" and str: "kc_stream k \<noteq> 0" using ok qok by (simp_all add: stream_ok_def)
  have blen: "length ?b < 2 ^ 31" using len by simp
  have base: "sent_spec k buffer (int e) ?k1"
    using lq qb qok e by (intro sent_specI [of _ q]) simp_all
  have none: "sent_spec k buffer (- 2) ?k1" if "e = 0"
    using lq qb qok that by (intro sent_specI [of _ q]) simp_all
  define count where "count = (if int (length ?b) \<le> sint (kc_mss k) then 1
                     else sint ((word_of_int (int (length ?b)) + kc_mss k - 1) div kc_mss k))"
  have frag: "length ?b \<le> nat count * unat (kc_mss k)"
    "length buffer \<le> 127 * unat (kc_mss k) \<Longrightarrow> count < 128" "0 < count" "nat count \<le> length ?b" if "?b \<noteq> []"
    using send_rest [OF ok blen that, folded count_def] by (auto simp del: drop_eq_Nil)
  have eq: "ikcp_send k buffer (int (length buffer)) =
      (if ?b = [] then (int e, ?k1)
       else if count \<ge> 128 then (if e > 0 then (int e, ?k1) else (-2, ?k1))
       else send_fragments (nat (if count = 0 then 1 else count)) ?k1 ?b (int (length ?b)) (int e))"
    using str unfolding ikcp_send_def ex count_def Let_def by (simp del: length_drop)
  consider "?b = []" | "?b \<noteq> []" "count \<ge> 128" | "?b \<noteq> []" "count < 128" by linarith
  then have "sent_spec k buffer ret k' \<and> (length buffer \<le> 127 * unat (kc_mss k) \<longrightarrow> ret = int (length buffer))"
  proof cases
    case 1
    then show ?thesis using base r eq e by auto
  next
    case 2
    then show ?thesis using base none r eq frag(2) by (auto split: if_splits)
  next
    case 3
    obtain q' where fr: "send_fragments (nat count) ?k1 ?b (int (length ?b)) (int e) =
        (int e + int (length ?b), ?k1\<lparr>kc_snd_queue := q @ q',
          kc_nsnd_que := kc_nsnd_que k + word_of_nat (length q')\<rparr>)"
      and q': "queue_bytes q' = ?b" "\<forall>s\<in>set q'. seg_ok (kc_mss k) s" "length q' = nat count"
      using send_fragments_stream [OF ok1, of ?b "nat count" "int e"] frag(1) 3(1) blen by auto
    have ret: "ret = int (length buffer)" and k': "k' = k\<lparr>kc_snd_queue := q @ q',
          kc_nsnd_que := kc_nsnd_que k + word_of_nat (length q')\<rparr>"
      using 3 frag(3) r eq fr e by (auto split: if_splits)
    have "sent_spec k buffer ret k'"
      using lq qb qok q' frag(4) [OF 3(1)] by (intro sent_specI [of _ "q @ q'"]) (auto simp: ret k')
    with ret show ?thesis by simp
  qed
  then show "sent_spec k buffer ret k'"
    and "length buffer \<le> 127 * unat (kc_mss k) \<Longrightarrow> ret = int (length buffer)" by blast+
qed

end
