(* ===== verification/Kcp_Input.thy ===== *)
theory Kcp_Input
  imports Kcp_Send
begin

text \<open>
  \<^verbatim>\<open>ikcp.c\<close>: \<open>ikcp_input\<close>, the processing of one datagram.  A datagram is the list of its bytes, so
  \<open>size\<close> is its length.  The loop over the segments of a datagram ends because each one consumes its
  header; for a datagram that is a concatenation of encoded segments it is a fold over the segments.
\<close>

subsection \<open>The code\<close>

text \<open>The local variables \<open>flag\<close>, \<open>maxack\<close> and \<open>latest_ts\<close>.\<close>

type_synonym ack_seen = "bool \<times> u32 \<times> u32"

definition note_ack :: "u32 \<Rightarrow> u32 \<Rightarrow> ack_seen \<Rightarrow> ack_seen" where
  "note_ack sn ts acc =
     (case acc of (flag, maxack, latest_ts) \<Rightarrow>
        if \<not> flag then (True, sn, ts)
        else if itimediff sn maxack > 0 \<and> itimediff ts latest_ts > 0 then (True, sn, ts)
        else (flag, maxack, latest_ts))"

definition new_push :: "seg_header \<Rightarrow> byte list \<Rightarrow> IKCPSEG" where
  "new_push h bytes =
     (ikcp_segment_new bytes)\<lparr>sg_conv := h_conv h, sg_cmd := ucast (h_cmd h), sg_frg := ucast (h_frg h),
        sg_wnd := ucast (h_wnd h), sg_ts := h_ts h, sg_sn := h_sn h, sg_una := h_una h, sg_len := h_len h\<rparr>"

definition input_push :: "IKCPCB \<Rightarrow> seg_header \<Rightarrow> byte list \<Rightarrow> IKCPCB" where
  "input_push k h bytes =
     (if itimediff (h_sn h) (kc_rcv_nxt k + kc_rcv_wnd k) < 0
      then let k1 = ikcp_ack_push k (h_sn h) (h_ts h)
           in if itimediff (h_sn h) (kc_rcv_nxt k1) \<ge> 0 then ikcp_parse_data k1 (new_push h bytes) else k1
      else k)"

definition input_ack :: "IKCPCB \<Rightarrow> seg_header \<Rightarrow> IKCPCB" where
  "input_ack k h =
     (let rtt = itimediff (kc_current k) (h_ts h);
          k1 = (if rtt \<ge> 0 then ikcp_update_ack k rtt else k)
      in ikcp_shrink_buf (ikcp_parse_ack k1 (h_sn h)))"

definition known_cmd :: "byte \<Rightarrow> bool" where
  "known_cmd c \<longleftrightarrow> ucast c = IKCP_CMD_PUSH \<or> ucast c = IKCP_CMD_ACK \<or> ucast c = IKCP_CMD_WASK
     \<or> ucast c = IKCP_CMD_WINS"

text \<open>One accepted segment: header \<open>h\<close> and its payload.\<close>

definition input_segment :: "seg_header \<Rightarrow> byte list \<Rightarrow> IKCPCB \<times> ack_seen \<Rightarrow> IKCPCB \<times> ack_seen" where
  "input_segment h bytes st =
     (case st of (k, acc) \<Rightarrow>
        let k1 = ikcp_shrink_buf (ikcp_parse_una (k\<lparr>kc_rmt_wnd := ucast (h_wnd h)\<rparr>) (h_una h))
        in if ucast (h_cmd h) = IKCP_CMD_ACK then (input_ack k1 h, note_ack (h_sn h) (h_ts h) acc)
           else if ucast (h_cmd h) = IKCP_CMD_PUSH then (input_push k1 h bytes, acc)
           else if ucast (h_cmd h) = IKCP_CMD_WASK
           then (k1\<lparr>kc_probe := kc_probe k1 OR IKCP_ASK_TELL\<rparr>, acc)
           else (k1, acc))"

function input_loop :: "byte list \<Rightarrow> IKCPCB \<times> ack_seen \<Rightarrow> int \<times> IKCPCB \<times> ack_seen" where
  "input_loop data st =
     (if int (length data) < sint IKCP_OVERHEAD then (0, st)
      else let (h, data1) = decode_header data
           in if h_conv h \<noteq> kc_conv (fst st) then (-1, st)
              else if int (length data1) < sint (h_len h) \<or> sint (h_len h) < 0 then (-2, st)
              else if \<not> known_cmd (h_cmd h) then (-3, st)
              else input_loop (drop (unat (h_len h)) data1)
                     (input_segment h (take (unat (h_len h)) data1) st))"
  by pat_completeness auto
termination
  by (relation "measure (\<lambda>(data, st). length data)")
    (auto simp: IKCP_OVERHEAD_def decode_header_def ikcp_decode8u_def ikcp_decode16u_def
      ikcp_decode32u_def Let_def)

declare input_loop.simps [simp del]

text \<open>Congestion window after an advance of \<open>snd_una\<close>.\<close>

definition grow_cwnd :: "IKCPCB \<Rightarrow> IKCPCB" where
  "grow_cwnd k =
     (if kc_cwnd k < kc_rmt_wnd k
      then let mss = kc_mss k;
               k1 = (if kc_cwnd k < kc_ssthresh k
                     then k\<lparr>kc_cwnd := kc_cwnd k + 1, kc_incr := kc_incr k + mss\<rparr>
                     else let incr0 = (if kc_incr k < mss then mss else kc_incr k);
                              incr = incr0 + (mss * mss div incr0 + mss div 16)
                          in if (kc_cwnd k + 1) * mss \<le> incr
                             then k\<lparr>kc_incr := incr,
                                    kc_cwnd := (incr + mss - 1) div (if mss > 0 then mss else 1)\<rparr>
                             else k\<lparr>kc_incr := incr\<rparr>)
           in if kc_cwnd k1 > kc_rmt_wnd k1
              then k1\<lparr>kc_cwnd := kc_rmt_wnd k1, kc_incr := kc_rmt_wnd k1 * mss\<rparr> else k1
      else k)"

definition ikcp_input :: "IKCPCB \<Rightarrow> byte list \<Rightarrow> int \<times> IKCPCB" where
  "ikcp_input k data =
     (let prev_una = kc_snd_una k; k0 = k\<lparr>kc_ackedlen := 0\<rparr>
      in if int (length data) < sint IKCP_OVERHEAD then (-1, k0)
         else case input_loop data (k0, (False, 0, 0)) of
           (ret, k1, (flag, maxack, latest_ts)) \<Rightarrow>
             if ret \<noteq> 0 then (ret, k1)
             else let k2 = (if flag then ikcp_parse_fastack k1 maxack latest_ts else k1)
                  in (0, if itimediff (kc_snd_una k2) prev_una > 0 then grow_cwnd k2 else k2))"

subsection \<open>Datagrams of encoded segments\<close>

text \<open>The image of a segment on the wire and the segments a peer may send.\<close>

definition wire :: "IKCPSEG \<Rightarrow> byte list" where
  "wire s = ikcp_encode_seg s @ seg_bytes s"

definition sendable :: "u32 \<Rightarrow> IKCPSEG \<Rightarrow> bool" where
  "sendable conv s \<longleftrightarrow> sg_conv s = conv \<and> known_cmd (ucast (sg_cmd s))
     \<and> unat (sg_len s) = length (sg_data s) \<and> length (sg_data s) < 2 ^ 31"

lemma shrink_buf_frame:
  "snd_part (ikcp_shrink_buf k) = snd_part k" "rcv_part (ikcp_shrink_buf k) = rcv_part k"
  "ack_part (ikcp_shrink_buf k) = ack_part k"
  by (auto simp: ikcp_shrink_buf_def part_defs split: list.splits)

lemma update_ack_frame:
  "snd_part (ikcp_update_ack k rtt) = snd_part k" "rcv_part (ikcp_update_ack k rtt) = rcv_part k"
  "ack_part (ikcp_update_ack k rtt) = ack_part k"
  by (auto simp: ikcp_update_ack_def Let_def part_defs)

lemma parse_ack_frame:
  "rcv_part (ikcp_parse_ack k sn) = rcv_part k" "ack_part (ikcp_parse_ack k sn) = ack_part k"
  by (auto simp: ikcp_parse_ack_def part_defs split: prod.splits option.splits)

lemma parse_una_frame:
  "rcv_part (ikcp_parse_una k una) = rcv_part k" "ack_part (ikcp_parse_una k una) = ack_part k"
  by (auto simp: ikcp_parse_una_def part_defs split: prod.splits)

lemma parse_fastack_frame:
  "rcv_part (ikcp_parse_fastack k sn ts) = rcv_part k" "ack_part (ikcp_parse_fastack k sn ts) = ack_part k"
  by (auto simp: ikcp_parse_fastack_def part_defs)

lemma grow_cwnd_frame:
  "snd_part (grow_cwnd k) = snd_part k" "rcv_part (grow_cwnd k) = rcv_part k"
  "ack_part (grow_cwnd k) = ack_part k"
  by (auto simp: grow_cwnd_def Let_def part_defs)

lemma conv_of_snd_part: "snd_part k = snd_part k' \<Longrightarrow> kc_conv k = kc_conv k'"
  by (simp add: snd_part_def)

lemma parse_conv [simp]:
  "kc_conv (ikcp_parse_ack k sn) = kc_conv k" "kc_conv (ikcp_parse_una k una) = kc_conv k"
  by (auto simp: ikcp_parse_ack_def ikcp_parse_una_def split: prod.splits option.splits)

lemmas input_conv = conv_of_snd_part [OF shrink_buf_frame(1)] conv_of_snd_part [OF update_ack_frame(1)]
  conv_of_snd_part [OF parse_data_frame(1)] conv_of_snd_part [OF ack_push_frame(1)]

lemma input_segment_conv [simp]: "kc_conv (fst (input_segment h bs st)) = kc_conv (fst st)"
  by (auto simp: input_segment_def input_ack_def input_push_def Let_def input_conv split: prod.splits)

lemma input_loop_wire:
  assumes "\<forall>s\<in>set segs. sendable (kc_conv (fst st)) s"
  shows "input_loop (concat (map wire segs)) st =
    (0, fold (\<lambda>s. input_segment (header_of s) (seg_bytes s)) segs st)"
  using assms
proof (induction segs arbitrary: st)
  case Nil
  then show ?case by (simp add: input_loop.simps IKCP_OVERHEAD_def)
next
  case (Cons s segs)
  have s: "sg_conv s = kc_conv (fst st)" "known_cmd (ucast (sg_cmd s))"
    "unat (sg_len s) = length (sg_data s)" "unat (sg_len s) < 2 ^ 31"
    using Cons.prems by (simp_all add: sendable_def)
  then have len: "sint (sg_len s) = int (length (sg_data s))" by (simp add: sint_small)
  have b: "seg_bytes s = sg_data s" using s(3) by (simp add: seg_bytes_def)
  have "input_loop (concat (map wire (s # segs))) st =
      input_loop (concat (map wire segs)) (input_segment (header_of s) (seg_bytes s) st)"
    by (subst input_loop.simps) (simp add: wire_def IKCP_OVERHEAD_def header_of_def s len b)
  with Cons show ?case by simp
qed

end
