(* ===== verification/Kcp_Flush.thy ===== *)
theory Kcp_Flush
  imports Kcp_Input
begin

text \<open>
  \<^verbatim>\<open>ikcp.c\<close>: \<open>ikcp_flush\<close>, \<open>ikcp_update\<close> and \<open>ikcp_check\<close>.  The transmit buffer is the list of bytes
  between \<open>buffer\<close> and \<open>ptr\<close>; the datagrams handed to \<open>ikcp_output\<close> are collected in order.
\<close>

subsection \<open>The code\<close>

type_synonym out_acc = "byte list list \<times> byte list"

definition ikcp_output :: "byte list \<Rightarrow> byte list list \<Rightarrow> byte list list" where
  "ikcp_output data outs = (if data = [] then outs else outs @ [data])"

text \<open>Send the buffer when \<open>need\<close> more bytes do not fit the datagram.\<close>

definition make_room :: "IKCPCB \<Rightarrow> int \<Rightarrow> out_acc \<Rightarrow> out_acc" where
  "make_room k need acc =
     (case acc of (outs, buf) \<Rightarrow>
        if int (length buf) + need > sint (kc_mtu k) then (ikcp_output buf outs, []) else (outs, buf))"

definition append_buf :: "byte list \<Rightarrow> out_acc \<Rightarrow> out_acc" where
  "append_buf bs acc = (case acc of (outs, buf) \<Rightarrow> (outs, buf @ bs))"

definition ikcp_wnd_unused :: "IKCPCB \<Rightarrow> u32" where
  "ikcp_wnd_unused k = (if kc_nrcv_que k < kc_rcv_wnd k then kc_rcv_wnd k - kc_nrcv_que k else 0)"

definition ack_segment :: "IKCPCB \<Rightarrow> IKCPSEG" where
  "ack_segment k = (ikcp_segment_new [])\<lparr>sg_conv := kc_conv k, sg_cmd := IKCP_CMD_ACK,
     sg_wnd := ikcp_wnd_unused k, sg_una := kc_rcv_nxt k\<rparr>"

definition put_control :: "IKCPCB \<Rightarrow> IKCPSEG \<Rightarrow> out_acc \<Rightarrow> out_acc" where
  "put_control k seg acc = append_buf (ikcp_encode_seg seg) (make_room k (sint IKCP_OVERHEAD) acc)"

fun flush_acks :: "IKCPCB \<Rightarrow> nat list \<Rightarrow> IKCPSEG \<times> out_acc \<Rightarrow> IKCPSEG \<times> out_acc" where
  "flush_acks k [] st = st"
| "flush_acks k (i # is) (seg, acc) =
     (let (sn, ts) = ikcp_ack_get k i; seg' = seg\<lparr>sg_sn := sn, sg_ts := ts\<rparr>
      in flush_acks k is (seg', put_control k seg' acc))"

definition probe_timer :: "IKCPCB \<Rightarrow> IKCPCB" where
  "probe_timer k =
     (if kc_rmt_wnd k = 0
      then if kc_probe_wait k = 0
           then k\<lparr>kc_probe_wait := IKCP_PROBE_INIT, kc_ts_probe := kc_current k + IKCP_PROBE_INIT\<rparr>
           else if itimediff (kc_current k) (kc_ts_probe k) \<ge> 0
           then let w0 = (if kc_probe_wait k < IKCP_PROBE_INIT then IKCP_PROBE_INIT else kc_probe_wait k);
                    w1 = w0 + w0 div 2;
                    w2 = (if w1 > IKCP_PROBE_LIMIT then IKCP_PROBE_LIMIT else w1)
                in k\<lparr>kc_probe_wait := w2, kc_ts_probe := kc_current k + w2,
                     kc_probe := kc_probe k OR IKCP_ASK_SEND\<rparr>
           else k
      else k\<lparr>kc_ts_probe := 0, kc_probe_wait := 0\<rparr>)"

definition flush_probes :: "IKCPCB \<Rightarrow> IKCPSEG \<Rightarrow> out_acc \<Rightarrow> out_acc" where
  "flush_probes k seg acc =
     (let acc1 = (if kc_probe k AND IKCP_ASK_SEND \<noteq> 0
                  then put_control k (seg\<lparr>sg_cmd := IKCP_CMD_WASK\<rparr>) acc else acc)
      in if kc_probe k AND IKCP_ASK_TELL \<noteq> 0
         then put_control k (seg\<lparr>sg_cmd := IKCP_CMD_WINS\<rparr>) acc1 else acc1)"

definition send_window :: "IKCPCB \<Rightarrow> u32" where
  "send_window k =
     (let cwnd = imin (kc_snd_wnd k) (kc_rmt_wnd k)
      in if kc_nocwnd k = 0 then imin (kc_cwnd k) cwnd else cwnd)"

text \<open>Move data from \<open>snd_queue\<close> to \<open>snd_buf\<close>.\<close>

definition number_segment :: "IKCPCB \<Rightarrow> u32 \<Rightarrow> IKCPSEG \<Rightarrow> IKCPSEG" where
  "number_segment k wnd seg =
     seg\<lparr>sg_conv := kc_conv k, sg_cmd := IKCP_CMD_PUSH, sg_wnd := wnd, sg_ts := kc_current k,
         sg_sn := kc_snd_nxt k, sg_una := kc_rcv_nxt k, sg_resendts := kc_current k,
         sg_rto := word_of_int (kc_rx_rto k), sg_fastack := 0, sg_xmit := 0\<rparr>"

function move_snd_queue :: "u32 \<Rightarrow> u32 \<Rightarrow> IKCPCB \<Rightarrow> IKCPCB" where
  "move_snd_queue cwnd wnd k =
     (if itimediff (kc_snd_nxt k) (kc_snd_una k + cwnd) < 0
      then (case kc_snd_queue k of
          [] \<Rightarrow> k
        | newseg # rest \<Rightarrow>
            move_snd_queue cwnd wnd
              (k\<lparr>kc_snd_queue := rest, kc_snd_buf := kc_snd_buf k @ [number_segment k wnd newseg],
                 kc_nsnd_que := kc_nsnd_que k - 1, kc_nsnd_buf := kc_nsnd_buf k + 1,
                 kc_snd_nxt := kc_snd_nxt k + 1\<rparr>))
      else k)"
  by pat_completeness auto
termination
  by (relation "measure (\<lambda>(cwnd, wnd, k). length (kc_snd_queue k))") auto

declare move_snd_queue.simps [simp del]

definition resent_limit :: "IKCPCB \<Rightarrow> u32" where
  "resent_limit k = (if kc_fastresend k > 0 then word_of_int (kc_fastresend k) else 0xffffffff)"

definition rto_min :: "IKCPCB \<Rightarrow> u32" where
  "rto_min k = (if kc_nodelay k = 0 then word_of_int (kc_rx_rto k div 8) else 0)"

text \<open>Why a segment is transmitted in this round.\<close>

datatype transmit = No_Send | First_Send | Timeout_Send | Fast_Send

definition transmit_kind :: "IKCPCB \<Rightarrow> IKCPSEG \<Rightarrow> transmit" where
  "transmit_kind k segment =
     (if sg_xmit segment = 0 then First_Send
      else if itimediff (kc_current k) (sg_resendts segment) \<ge> 0 then Timeout_Send
      else if sg_fastack segment \<ge> resent_limit k
              \<and> (sint (sg_xmit segment) \<le> kc_fastlimit k \<or> kc_fastlimit k \<le> 0) then Fast_Send
      else No_Send)"

definition backoff_rto :: "IKCPCB \<Rightarrow> u32 \<Rightarrow> u32" where
  "backoff_rto k rto =
     (if kc_nodelay k = 0 then rto + imax rto (word_of_int (kc_rx_rto k))
      else rto + word_of_int ((if kc_nodelay k < 2 then sint rto else kc_rx_rto k) sdiv 2))"

definition schedule :: "IKCPCB \<Rightarrow> IKCPSEG \<Rightarrow> IKCPSEG" where
  "schedule k segment =
     (case transmit_kind k segment of
        No_Send \<Rightarrow> segment
      | First_Send \<Rightarrow> segment\<lparr>sg_xmit := sg_xmit segment + 1, sg_rto := word_of_int (kc_rx_rto k),
            sg_resendts := kc_current k + word_of_int (kc_rx_rto k) + rto_min k\<rparr>
      | Timeout_Send \<Rightarrow> segment\<lparr>sg_xmit := sg_xmit segment + 1, sg_rto := backoff_rto k (sg_rto segment),
            sg_resendts := kc_current k + backoff_rto k (sg_rto segment)\<rparr>
      | Fast_Send \<Rightarrow> segment\<lparr>sg_xmit := sg_xmit segment + 1, sg_fastack := 0,
            sg_resendts := kc_current k + sg_rto segment\<rparr>)"

definition stamp :: "IKCPCB \<Rightarrow> u32 \<Rightarrow> IKCPSEG \<Rightarrow> IKCPSEG" where
  "stamp k wnd segment = segment\<lparr>sg_ts := kc_current k, sg_wnd := wnd, sg_una := kc_rcv_nxt k\<rparr>"

definition put_data :: "IKCPCB \<Rightarrow> IKCPSEG \<Rightarrow> out_acc \<Rightarrow> out_acc" where
  "put_data k segment acc =
     append_buf (ikcp_encode_seg segment @ seg_bytes segment)
       (make_room k (sint (IKCP_OVERHEAD + sg_len segment)) acc)"

text \<open>Flush data segments: the segments left to visit, then \<open>change\<close>, \<open>lost\<close>, the control block
  (for \<open>xmit\<close> and \<open>state\<close>) and the output; returns the updated segments first.\<close>

fun flush_data :: "u32 \<Rightarrow> IKCPSEG list \<Rightarrow> bool \<times> bool \<times> IKCPCB \<times> out_acc
    \<Rightarrow> IKCPSEG list \<times> bool \<times> bool \<times> IKCPCB \<times> out_acc" where
  "flush_data wnd [] st = ([], st)"
| "flush_data wnd (segment # p) (change, lost, k, acc) =
     (let kind = transmit_kind k segment;
          seg1 = schedule k segment;
          k1 = (if kind = Timeout_Send then k\<lparr>kc_xmit := kc_xmit k + 1\<rparr> else k);
          seg2 = (if kind = No_Send then seg1 else stamp k wnd seg1);
          acc1 = (if kind = No_Send then acc else put_data k seg2 acc);
          k2 = (if kind \<noteq> No_Send \<and> sg_xmit seg2 \<ge> kc_dead_link k then k1\<lparr>kc_state := - 1\<rparr> else k1);
          (segs, rest) = flush_data wnd p
             (change \<or> kind = Fast_Send, lost \<or> kind = Timeout_Send, k2, acc1)
      in (seg2 # segs, rest))"

definition after_change :: "IKCPCB \<Rightarrow> IKCPCB" where
  "after_change k =
     (let half = (kc_snd_nxt k - kc_snd_una k) div 2;
          ssthresh = (if half < IKCP_THRESH_MIN then IKCP_THRESH_MIN else half);
          cwnd = ssthresh + resent_limit k
      in k\<lparr>kc_ssthresh := ssthresh, kc_cwnd := cwnd, kc_incr := cwnd * kc_mss k\<rparr>)"

definition after_loss :: "u32 \<Rightarrow> IKCPCB \<Rightarrow> IKCPCB" where
  "after_loss prior_cwnd k =
     k\<lparr>kc_ssthresh := (if prior_cwnd div 2 < IKCP_THRESH_MIN then IKCP_THRESH_MIN else prior_cwnd div 2),
       kc_cwnd := 1, kc_incr := kc_mss k\<rparr>"

text \<open>The window update after a flush; the first argument is \<open>kcp->cwnd\<close> on entry.\<close>

definition flush_cwnd :: "u32 \<Rightarrow> bool \<Rightarrow> bool \<Rightarrow> IKCPCB \<Rightarrow> IKCPCB" where
  "flush_cwnd prior_cwnd change lost k =
     (let k1 = (if change then after_change k else k);
          k2 = (if lost then after_loss prior_cwnd k1 else k1)
      in if kc_cwnd k2 < 1 then k2\<lparr>kc_cwnd := 1, kc_incr := kc_mss k2\<rparr> else k2)"

definition ikcp_flush :: "IKCPCB \<Rightarrow> byte list list \<times> IKCPCB" where
  "ikcp_flush k =
     (if kc_updated k = 0 then ([], k)
      else
        let (seg, acc1) = flush_acks k [0..<nat (sint (kc_ackcount k))] (ack_segment k, ([], []));
            k1 = probe_timer (k\<lparr>kc_ackcount := 0\<rparr>);
            acc2 = flush_probes k1 seg acc1;
            k2 = k1\<lparr>kc_probe := 0\<rparr>;
            k3 = move_snd_queue (send_window k2) (sg_wnd seg) k2;
            (segs, change, lost, k4, acc3) = flush_data (sg_wnd seg) (kc_snd_buf k3) (False, False, k3, acc2);
            k5 = k4\<lparr>kc_snd_buf := segs\<rparr>
        in (case acc3 of (outs, buf) \<Rightarrow> ikcp_output buf outs, flush_cwnd (kc_cwnd k) change lost k5))"

text \<open>The clock part of \<open>ikcp_update\<close>: \<open>slap\<close> and the control block with its clocks set.\<close>

definition update_clock :: "IKCPCB \<Rightarrow> u32 \<Rightarrow> int \<times> IKCPCB" where
  "update_clock k current =
     (let k1 = k\<lparr>kc_current := current\<rparr>;
          k2 = (if kc_updated k1 = 0 then k1\<lparr>kc_updated := 1, kc_ts_flush := current\<rparr> else k1);
          slap = itimediff current (kc_ts_flush k2)
      in if slap \<ge> 10000 \<or> slap < - 10000 then (0, k2\<lparr>kc_ts_flush := current\<rparr>) else (slap, k2))"

definition ikcp_update :: "IKCPCB \<Rightarrow> u32 \<Rightarrow> byte list list \<times> IKCPCB" where
  "ikcp_update k current =
     (let (slap, k3) = update_clock k current
      in if slap \<ge> 0
         then let next = kc_ts_flush k3 + kc_interval k3
              in ikcp_flush (k3\<lparr>kc_ts_flush :=
                   (if itimediff current next \<ge> 0 then current + kc_interval k3 else next)\<rparr>)
         else ([], k3))"

text \<open>The search of \<open>ikcp_check\<close> over \<open>snd_buf\<close>: \<open>None\<close> when some segment is already due.\<close>

fun earliest_packet :: "u32 \<Rightarrow> IKCPSEG list \<Rightarrow> int \<Rightarrow> int option" where
  "earliest_packet current [] tm_packet = Some tm_packet"
| "earliest_packet current (seg # p) tm_packet =
     (let diff = itimediff (sg_resendts seg) current
      in if diff \<le> 0 then None
         else earliest_packet current p (if diff < tm_packet then diff else tm_packet))"

definition ikcp_check :: "IKCPCB \<Rightarrow> u32 \<Rightarrow> u32" where
  "ikcp_check k current =
     (if kc_updated k = 0 then current
      else let d = itimediff current (kc_ts_flush k);
               ts_flush = (if d \<ge> 10000 \<or> d < - 10000 then current else kc_ts_flush k)
           in if itimediff current ts_flush \<ge> 0 then current
              else let tm_flush = itimediff ts_flush current
                   in case earliest_packet current (kc_snd_buf k) 0x7fffffff of
                        None \<Rightarrow> current
                      | Some tm_packet \<Rightarrow>
                          let minimal = word_of_int (if tm_packet < tm_flush then tm_packet else tm_flush)
                          in current + (if minimal \<ge> kc_interval k then kc_interval k else minimal))"

end
