(* ===== verification/Kcp_Endpoint.thy ===== *)
theory Kcp_Endpoint
  imports Kcp_Flush
begin

text \<open>
  The invariant of one KCP endpoint and its preservation by \<open>ikcp_send\<close>, \<open>ikcp_input\<close>, \<open>ikcp_recv\<close>,
  \<open>ikcp_flush\<close> and \<open>ikcp_update\<close>.  It is stated relative to the history of the connection: the
  payloads the endpoint has numbered so far (\<open>out\<close>), the bytes its application has handed over (\<open>app\<close>),
  the set \<open>acked\<close> of those payloads its peer has, the peer's payloads (\<open>inn\<close>) and the bytes already
  delivered to the application (\<open>got\<close>).  Datagrams are described by \<open>datagram_ok\<close>.
\<close>

subsection \<open>Invariant\<close>

text \<open>At most \<open>2 ^ 30\<close> segments are numbered in the life of a connection, so that sequence numbers do
  not wrap; at the transport's segment size that is 16 TiB.\<close>

definition snd_inv :: "byte list list \<Rightarrow> byte list \<Rightarrow> nat set \<Rightarrow> IKCPCB \<Rightarrow> bool" where
  "snd_inv out app acked k \<longleftrightarrow>
     stream_ok k \<and> unat (kc_mtu k) = unat (kc_mss k) + 24
   \<and> length out + length (kc_snd_queue k) \<le> 2 ^ 30
   \<and> kc_snd_nxt k = word_of_nat (length out)
   \<and> concat out @ queue_bytes (kc_snd_queue k) = app
   \<and> sorted_wrt (<) (map seq (kc_snd_buf k))
   \<and> (\<forall>s\<in>set (kc_snd_buf k). carries out s \<and> sg_conv s = kc_conv k \<and> sg_cmd s = IKCP_CMD_PUSH
        \<and> length (sg_data s) \<le> unat (kc_mss k))
   \<and> (\<forall>n<length out. n \<in> seq ` set (kc_snd_buf k) \<or> n \<in> acked)
   \<and> kc_nsnd_buf k = word_of_nat (length (kc_snd_buf k))
   \<and> kc_nsnd_que k = word_of_nat (length (kc_snd_queue k))"

definition ack_inv :: "IKCPCB \<Rightarrow> bool" where
  "ack_inv k \<longleftrightarrow> ack_wf k \<and> (\<forall>(sn, ts)\<in>set (pending_acks k). unat sn \<in> received k)"

definition endpoint_inv ::
    "byte list list \<Rightarrow> byte list \<Rightarrow> nat set \<Rightarrow> byte list list \<Rightarrow> byte list \<Rightarrow> IKCPCB \<Rightarrow> bool" where
  "endpoint_inv out app acked inn got k \<longleftrightarrow>
     snd_inv out app acked k \<and> rcv_inv inn got k \<and> ack_inv k \<and> drained k"

text \<open>A segment an endpoint may put on the wire: data carries its log, an acknowledgement names data
  it has, and everything below \<open>una\<close> is data it has.\<close>

definition segment_ok :: "u32 \<Rightarrow> byte list list \<Rightarrow> nat set \<Rightarrow> IKCPSEG \<Rightarrow> bool" where
  "segment_ok conv out rcvd s \<longleftrightarrow>
     sendable conv s \<and> sg_cmd s \<in> {IKCP_CMD_PUSH, IKCP_CMD_ACK, IKCP_CMD_WASK, IKCP_CMD_WINS}
   \<and> (sg_cmd s = IKCP_CMD_PUSH \<longrightarrow> carries out s)
   \<and> (sg_cmd s = IKCP_CMD_ACK \<longrightarrow> unat (sg_sn s) \<in> rcvd)
   \<and> unat (sg_una s) \<le> 2 ^ 30 \<and> (\<forall>n<unat (sg_una s). n \<in> rcvd)"

definition datagram_ok :: "u32 \<Rightarrow> byte list list \<Rightarrow> nat set \<Rightarrow> byte list \<Rightarrow> bool" where
  "datagram_ok conv out rcvd d \<longleftrightarrow>
     (\<exists>segs. d = concat (map wire segs) \<and> (\<forall>s\<in>set segs. segment_ok conv out rcvd s))"

lemma snd_inv_cong: "snd_part k = snd_part k' \<Longrightarrow> snd_inv out app h k = snd_inv out app h k'"
  by (simp add: snd_inv_def snd_part_def stream_ok_def)

lemma snd_inv_ackedmono: "snd_inv out app h k \<Longrightarrow> h \<subseteq> h' \<Longrightarrow> snd_inv out app h' k"
  by (auto simp: snd_inv_def)

lemma ack_inv_cong:
  "ack_part k = ack_part k' \<Longrightarrow> rcv_part k = rcv_part k' \<Longrightarrow> ack_inv k = ack_inv k'"
  using received_cong [of k k'] by (simp add: ack_inv_def ack_wf_def pending_acks_def ack_part_def)

lemma drained_cong: "rcv_part k = rcv_part k' \<Longrightarrow> drained k = drained k'"
  by (auto simp: drained_def rcv_part_def split: list.splits)

lemma endpoint_inv_cong:
  assumes "snd_part k = snd_part k'" and "rcv_part k = rcv_part k'" and "ack_part k = ack_part k'"
  shows "endpoint_inv out app h inn got k = endpoint_inv out app h inn got k'"
  unfolding endpoint_inv_def snd_inv_cong [OF assms(1)] rcv_inv_cong [OF assms(2)]
    ack_inv_cong [OF assms(3,2)] drained_cong [OF assms(2)] ..

lemma endpoint_inv_mono:
  assumes "endpoint_inv out app h inn got k" and "h \<subseteq> h'" and "length (inn @ xs) \<le> 2 ^ 30"
  shows "endpoint_inv out app h' (inn @ xs) got k"
  using assms snd_inv_ackedmono rcv_inv_log_append unfolding endpoint_inv_def by blast

lemma carries_append: "carries log s \<Longrightarrow> carries (log @ xs) s"
  by (auto simp: carries_def nth_append)

lemma datagram_ok_mono:
  assumes "datagram_ok conv out r d" and "r \<subseteq> r'"
  shows "datagram_ok conv (out @ xs) r' d"
proof -
  have "segment_ok conv (out @ xs) r' s" if "segment_ok conv out r s" for s
    using that assms(2) by (auto simp: segment_ok_def carries_append)
  with assms(1) show ?thesis unfolding datagram_ok_def by blast
qed

lemma carries_core:
  assumes "sg_sn s' = sg_sn s" and "sg_len s' = sg_len s" and "sg_data s' = sg_data s" and "sg_frg s' = sg_frg s"
  shows "carries log s' = carries log s" and "seq s' = seq s"
  using assms by (simp_all add: carries_def seq_def seg_bytes_def)

subsection \<open>Acknowledgements\<close>

lemma ack_remove_spec:
  assumes "ack_remove sn q = (r, rest)"
  shows "case r of None \<Rightarrow> rest = q
    | Some seg \<Rightarrow> sg_sn seg = sn \<and> (\<exists>xs ys. q = xs @ seg # ys \<and> rest = xs @ ys)"
  using assms
proof (induction q arbitrary: r rest)
  case (Cons s q)
  show ?case
  proof (cases "sn = sg_sn s")
    case True
    with Cons.prems have "r = Some s" "rest = q" by auto
    moreover have "\<exists>xs ys. s # q = xs @ s # ys \<and> q = xs @ ys" by (rule exI [of _ "[]"]) simp
    ultimately show ?thesis using True by simp
  next
    case False
    obtain r' rest' where q: "ack_remove sn q = (r', rest')" by fastforce
    show ?thesis
    proof (cases "itimediff sn (sg_sn s) < 0")
      case True
      with False Cons.prems show ?thesis by auto
    next
      case ge: False
      then have r: "r = r'" "rest = s # rest'" using Cons.prems False q by auto
      show ?thesis
      proof (cases r')
        case None
        with Cons.IH [OF q] r show ?thesis by simp
      next
        case (Some seg)
        with Cons.IH [OF q] obtain xs ys where "sg_sn seg = sn" "q = xs @ seg # ys" "rest' = xs @ ys" by auto
        then show ?thesis using r Some by (auto intro: exI [of _ "s # xs"])
      qed
    qed
  qed
qed simp

lemma una_remove_spec:
  "una_remove una q = (gone, rest) \<Longrightarrow> q = gone @ rest \<and> (\<forall>s\<in>set gone. itimediff una (sg_sn s) > 0)"
  by (induction q arbitrary: gone rest) (auto split: if_splits prod.splits)

text \<open>Dropping segments the peer has keeps the invariant.\<close>

lemma snd_inv_drop:
  assumes inv: "snd_inv out app h k" and q: "kc_snd_buf k = xs @ gone @ ys"
    and known: "seq ` set gone \<subseteq> h"
  shows "snd_inv out app h (k\<lparr>kc_ackedlen := a, kc_snd_buf := xs @ ys,
           kc_nsnd_buf := kc_nsnd_buf k - word_of_nat (length gone)\<rparr>)"
proof -
  have "n \<in> seq ` set (xs @ ys) \<or> n \<in> h" if "n < length out" for n
  proof -
    have "n \<in> seq ` set (kc_snd_buf k) \<or> n \<in> h" using inv that by (simp add: snd_inv_def)
    then show ?thesis using known unfolding q set_append image_Un by blast
  qed
  with inv q show ?thesis by (auto simp: snd_inv_def stream_ok_def sorted_wrt_append)
qed

lemma parse_ack_inv:
  assumes inv: "snd_inv out app h k" and known: "unat sn \<in> h"
  shows "snd_inv out app h (ikcp_parse_ack k sn)"
proof (cases "itimediff sn (kc_snd_una k) < 0 \<or> itimediff sn (kc_snd_nxt k) \<ge> 0")
  case True
  with inv show ?thesis by (simp add: ikcp_parse_ack_def)
next
  case False
  obtain r rest where r: "ack_remove sn (kc_snd_buf k) = (r, rest)" by fastforce
  show ?thesis
  proof (cases r)
    case None
    with inv r False show ?thesis by (simp add: ikcp_parse_ack_def)
  next
    case (Some seg)
    with ack_remove_spec [OF r] obtain xs ys where
      s: "sg_sn seg = sn" "kc_snd_buf k = xs @ [seg] @ ys" "rest = xs @ ys" by auto
    have "seq ` set [seg] \<subseteq> h" using s(1) known by (simp add: seq_def)
    from snd_inv_drop [OF inv s(2) this, of "kc_ackedlen k + sg_len seg"]
    show ?thesis using r Some False s(3) by (simp add: ikcp_parse_ack_def)
  qed
qed

lemma parse_una_inv:
  assumes inv: "snd_inv out app h k" and una: "unat una \<le> 2 ^ 30" "\<forall>n<unat una. n \<in> h"
  shows "snd_inv out app h (ikcp_parse_una k una)"
proof -
  obtain gone rest where r: "una_remove una (kc_snd_buf k) = (gone, rest)" by fastforce
  then have q: "kc_snd_buf k = [] @ gone @ rest" and gt: "\<forall>s\<in>set gone. itimediff una (sg_sn s) > 0"
    using una_remove_spec by fastforce+
  have "seq s \<in> h" if "s \<in> set gone" for s
  proof -
    have "carries out s" using inv q that by (simp add: snd_inv_def)
    then have "seq s \<le> 2 ^ 30" using inv by (auto simp: carries_def snd_inv_def)
    then have "itimediff (word_of_nat (unat una)) (word_of_nat (seq s)) = int (unat una) - int (seq s)"
      using una(1) by (intro itimediff_of_nat) auto
    moreover have una_w: "word_of_nat (unat una) = una" by simp
    moreover have "itimediff una (sg_sn s) > 0" using gt that by blast
    ultimately have "int (seq s) < int (unat una)" unfolding word_of_nat_seq una_w by linarith
    then have "seq s < unat una" by (simp only: of_nat_less_iff)
    with una(2) show ?thesis by blast
  qed
  then have "seq ` set gone \<subseteq> h" by blast
  from snd_inv_drop [OF inv q this, of "kc_ackedlen k + sum_list (map sg_len gone)"]
  show ?thesis by (simp add: ikcp_parse_una_def r)
qed

lemma fastack_loop_core:
  "map (\<lambda>s. (sg_conv s, sg_cmd s, sg_frg s, sg_sn s, sg_len s, sg_data s)) (fastack_loop sn ts q)
   = map (\<lambda>s. (sg_conv s, sg_cmd s, sg_frg s, sg_sn s, sg_len s, sg_data s)) q"
  by (induction q) auto

text \<open>Only these fields of a buffered segment matter to the invariant.\<close>

definition seg_core :: "IKCPSEG \<Rightarrow> u32 \<times> u32 \<times> u32 \<times> u32 \<times> u32 \<times> byte list" where
  "seg_core s = (sg_conv s, sg_cmd s, sg_frg s, sg_sn s, sg_len s, sg_data s)"

lemma seg_core_carries: "seg_core s = seg_core s' \<Longrightarrow> carries log s = carries log s'"
  by (rule carries_core(1)) (auto simp: seg_core_def)

lemma seg_core_seq: "seg_core s = seg_core s' \<Longrightarrow> seq s = seq s'"
  by (rule carries_core(2)) (auto simp: seg_core_def)

lemma snd_inv_rebuf:
  assumes inv: "snd_inv out app h k" and core: "map seg_core q = map seg_core (kc_snd_buf k)"
  shows "snd_inv out app h (k\<lparr>kc_snd_buf := q\<rparr>)"
proof -
  have len: "length q = length (kc_snd_buf k)" using map_eq_imp_length_eq [OF core] .
  have nth: "seg_core (q ! i) = seg_core (kc_snd_buf k ! i)" if "i < length q" for i
    using that len core by (metis nth_map)
  have seqs: "map seq q = map seq (kc_snd_buf k)"
    using nth len by (intro nth_equalityI) (auto intro: seg_core_seq)
  have seqset: "seq ` set q = seq ` set (kc_snd_buf k)"
    using arg_cong [OF seqs, of set] by simp
  have "carries out s \<and> sg_conv s = kc_conv k \<and> sg_cmd s = IKCP_CMD_PUSH
        \<and> length (sg_data s) \<le> unat (kc_mss k)" if mem: "s \<in> set q" for s
  proof -
    obtain i where i: "i < length q" "s = q ! i" using mem unfolding in_set_conv_nth by blast
    define s' where "s' = kc_snd_buf k ! i"
    have s': "s' \<in> set (kc_snd_buf k)" "seg_core s = seg_core s'"
      using nth [OF i(1)] i len by (simp_all add: s'_def)
    from inv s'(1) have "carries out s' \<and> sg_conv s' = kc_conv k \<and> sg_cmd s' = IKCP_CMD_PUSH
        \<and> length (sg_data s') \<le> unat (kc_mss k)" by (simp add: snd_inv_def)
    with s'(2) seg_core_carries [OF s'(2)] show ?thesis by (simp add: seg_core_def)
  qed
  with inv len seqs seqset show ?thesis by (simp add: snd_inv_def stream_ok_def)
qed

lemma parse_fastack_inv:
  assumes "snd_inv out app h k"
  shows "snd_inv out app h (ikcp_parse_fastack k sn ts)"
  using assms snd_inv_rebuf [OF assms] fastack_loop_core
  by (auto simp: ikcp_parse_fastack_def seg_core_def [abs_def])

subsection \<open>Input\<close>

lemma new_push_carries:
  assumes "carries log s"
  shows "carries log (new_push (header_of s) (seg_bytes s))" and "seq (new_push (header_of s) (seg_bytes s)) = seq s"
  using assms by (auto simp: carries_def new_push_def header_of_def ikcp_segment_new_def seq_def seg_bytes_def)

lemma parse_data_drained: "drained k \<Longrightarrow> drained (ikcp_parse_data k s)"
  by (simp add: ikcp_parse_data_def Let_def move_rcv_buf_drained)

lemma ack_push_endpoint:
  assumes inv: "endpoint_inv out app h inn got k" and sn: "unat sn \<in> received k"
  shows "endpoint_inv out app h inn got (ikcp_ack_push k sn ts)"
proof -
  note f = ack_push_frame [of k sn ts]
  have a: "ack_wf k" "\<forall>(sn, ts)\<in>set (pending_acks k). unat sn \<in> received k"
    using inv by (simp_all add: endpoint_inv_def ack_inv_def)
  have "ack_inv (ikcp_ack_push k sn ts)"
    unfolding ack_inv_def received_cong [OF f(2)] using a sn ack_push_wf [OF a(1), of sn ts] by blast
  with inv show ?thesis
    unfolding endpoint_inv_def snd_inv_cong [OF f(1)] rcv_inv_cong [OF f(2)] drained_cong [OF f(2)] by blast
qed

lemma input_push_endpoint:
  assumes inv: "endpoint_inv out app h inn got k" and car: "carries inn s"
  shows "endpoint_inv out app h inn got (input_push k (header_of s) (seg_bytes s))
    \<and> received k \<subseteq> received (input_push k (header_of s) (seg_bytes s))"
proof -
  let ?n = "new_push (header_of s) (seg_bytes s)"
  have r: "rcv_inv inn got k" using inv by (simp add: endpoint_inv_def)
  have lt: "seq s < length inn" using car by (simp add: carries_def)
  note w = window_checks [OF r lt]
  let ?k1 = "ikcp_ack_push k (sg_sn s) (sg_ts s)"
  note f = ack_push_frame [of k "sg_sn s" "sg_ts s"]
  have part: "rcv_part ?k1 = rcv_part k" by (rule f(2))
  have nxt: "kc_rcv_nxt ?k1 = kc_rcv_nxt k" using part by (simp add: rcv_part_def)
  consider "rcv_pos k + unat (kc_rcv_wnd k) \<le> seq s" | "seq s < rcv_pos k"
    | "rcv_pos k \<le> seq s" "seq s < rcv_pos k + unat (kc_rcv_wnd k)" by linarith
  then show ?thesis
  proof cases
    case 1
    then show ?thesis using inv w by (simp add: input_push_def header_of_def)
  next
    case 2
    then have "seq s \<in> received k" by (simp add: received_def)
    then have "endpoint_inv out app h inn got ?k1" by (intro ack_push_endpoint [OF inv]) (simp add: seq_def)
    moreover have "seq s < rcv_pos k + unat (kc_rcv_wnd k)" using 2 by simp
    ultimately show ?thesis using 2 w received_cong [OF part] nxt by (simp add: input_push_def header_of_def)
  next
    case 3
    have eq: "input_push k (header_of s) (seg_bytes s) = ikcp_parse_data ?k1 ?n"
      using 3 w nxt by (simp add: input_push_def header_of_def)
    have ack1: "ack_wf ?k1" "set (pending_acks ?k1) \<subseteq> insert (sg_sn s, sg_ts s) (set (pending_acks k))"
      using ack_push_wf inv by (auto simp: endpoint_inv_def ack_inv_def)
    have r1: "rcv_inv inn got ?k1" using r rcv_inv_cong [OF part] by simp
    note c = new_push_carries [OF car]
    note d = parse_data_inv [OF r1 c(1)]
    have pos: "rcv_pos ?k1 = rcv_pos k" "kc_rcv_wnd ?k1 = kc_rcv_wnd k"
      using part by (simp_all add: rcv_part_def rcv_pos_def)
    let ?k2 = "ikcp_parse_data ?k1 ?n"
    have got: "received ?k2 = insert (seq s) (received k)"
      using d 3 by (simp add: c(2) pos received_cong [OF part])
    note g = parse_data_frame [of ?k1 ?n]
    have "ack_wf ?k2" "pending_acks ?k2 = pending_acks ?k1"
      using g(2) ack1(1) by (auto simp: ack_part_def ack_wf_def pending_acks_def)
    then have "ack_inv ?k2"
      using ack1(2) inv unfolding ack_inv_def got by (fastforce simp: endpoint_inv_def ack_inv_def seq_def)
    moreover have "drained ?k2" using inv parse_data_drained drained_cong [OF part] by (simp add: endpoint_inv_def)
    moreover have "snd_inv out app h ?k2" using inv snd_inv_cong g(1) f(1) by (metis endpoint_inv_def)
    ultimately show ?thesis using d got eq by (auto simp: endpoint_inv_def)
  qed
qed

lemma input_ack_endpoint:
  assumes inv: "endpoint_inv out app h inn got k" and known: "unat (h_sn hdr) \<in> h"
  shows "endpoint_inv out app h inn got (input_ack k hdr) \<and> rcv_part (input_ack k hdr) = rcv_part k"
proof -
  define k1 where "k1 = (if itimediff (kc_current k) (h_ts hdr) \<ge> 0
    then ikcp_update_ack k (itimediff (kc_current k) (h_ts hdr)) else k)"
  have p1: "snd_part k1 = snd_part k" "rcv_part k1 = rcv_part k" "ack_part k1 = ack_part k"
    by (simp_all add: k1_def update_ack_frame)
  have eq: "input_ack k hdr = ikcp_shrink_buf (ikcp_parse_ack k1 (h_sn hdr))"
    by (simp add: input_ack_def k1_def Let_def)
  have rp: "rcv_part (input_ack k hdr) = rcv_part k" "ack_part (input_ack k hdr) = ack_part k"
    by (simp_all add: eq shrink_buf_frame parse_ack_frame p1)
  have "snd_inv out app h k1" using inv snd_inv_cong [OF p1(1)] by (simp add: endpoint_inv_def)
  then have "snd_inv out app h (input_ack k hdr)"
    unfolding eq snd_inv_cong [OF shrink_buf_frame(1)] using known by (rule parse_ack_inv)
  with inv rp show ?thesis
    unfolding endpoint_inv_def rcv_inv_cong [OF rp(1)] ack_inv_cong [OF rp(2,1)] drained_cong [OF rp(1)] by blast
qed

lemma known_cmd_ucast:
  assumes "sg_cmd s \<in> {IKCP_CMD_PUSH, IKCP_CMD_ACK, IKCP_CMD_WASK, IKCP_CMD_WINS}"
  shows "(ucast (h_cmd (header_of s)) :: u32) = sg_cmd s"
  using assms by (auto simp: header_of_def ikcp_cmds)

lemma input_segment_endpoint:
  assumes inv: "endpoint_inv out app h inn got k" and ok: "segment_ok (kc_conv k) inn h s"
    and st: "input_segment (header_of s) (seg_bytes s) (k, acc) = (k', acc')"
  shows "endpoint_inv out app h inn got k' \<and> received k \<subseteq> received k'"
proof -
  let ?hdr = "header_of s"
  let ?k0 = "k\<lparr>kc_rmt_wnd := ucast (h_wnd ?hdr)\<rparr>"
  define k1 where "k1 = ikcp_shrink_buf (ikcp_parse_una ?k0 (h_una ?hdr))"
  have c: "(ucast (h_cmd ?hdr) :: u32) = sg_cmd s"
    using ok known_cmd_ucast unfolding segment_ok_def by blast
  have p0: "snd_part ?k0 = snd_part k" "rcv_part ?k0 = rcv_part k" "ack_part ?k0 = ack_part k"
    by (simp_all add: part_defs)
  have rp: "rcv_part k1 = rcv_part k" "ack_part k1 = ack_part k"
    by (simp_all add: k1_def shrink_buf_frame parse_una_frame p0)
  have "snd_inv out app h ?k0" using inv snd_inv_cong [OF p0(1)] by (simp add: endpoint_inv_def)
  then have "snd_inv out app h k1"
    unfolding k1_def snd_inv_cong [OF shrink_buf_frame(1)]
    using ok by (intro parse_una_inv) (simp_all add: segment_ok_def header_of_def)
  with inv have i1: "endpoint_inv out app h inn got k1"
    unfolding endpoint_inv_def rcv_inv_cong [OF rp(1)] ack_inv_cong [OF rp(2,1)] drained_cong [OF rp(1)] by blast
  have r1: "received k1 = received k" by (rule received_cong [OF rp(1)])
  have eq: "k' = (if sg_cmd s = IKCP_CMD_ACK then input_ack k1 ?hdr
      else if sg_cmd s = IKCP_CMD_PUSH then input_push k1 ?hdr (seg_bytes s)
      else if sg_cmd s = IKCP_CMD_WASK then k1\<lparr>kc_probe := kc_probe k1 OR IKCP_ASK_TELL\<rparr> else k1)"
    using st unfolding input_segment_def Let_def prod.case k1_def [symmetric] c by (simp split: if_splits)
  consider "sg_cmd s = IKCP_CMD_ACK" | "sg_cmd s = IKCP_CMD_PUSH" | "sg_cmd s = IKCP_CMD_WASK"
    | "sg_cmd s = IKCP_CMD_WINS" using ok by (auto simp: segment_ok_def)
  then show ?thesis
  proof cases
    case 1
    then have "unat (h_sn ?hdr) \<in> h" using ok by (simp add: segment_ok_def header_of_def)
    from input_ack_endpoint [OF i1 this] received_cong [of "input_ack k1 ?hdr" k1]
    show ?thesis using 1 eq r1 by simp
  next
    case 2
    then have "carries inn s" using ok by (simp add: segment_ok_def)
    from input_push_endpoint [OF i1 this] show ?thesis using 2 eq r1 by (simp add: ikcp_cmds)
  next
    case 3
    let ?k2 = "k1\<lparr>kc_probe := kc_probe k1 OR IKCP_ASK_TELL\<rparr>"
    have p2: "snd_part ?k2 = snd_part k1" "rcv_part ?k2 = rcv_part k1" "ack_part ?k2 = ack_part k1"
      by (simp_all add: part_defs)
    have "k' = ?k2" using 3 eq by (simp add: ikcp_cmds)
    then show ?thesis using i1 endpoint_inv_cong [OF p2] received_cong [OF p2(2)] r1 by simp
  next
    case 4
    then show ?thesis using eq i1 r1 by (simp add: ikcp_cmds)
  qed
qed

lemma input_fold_endpoint:
  assumes "endpoint_inv out app h inn got k" and "\<forall>s\<in>set segs. segment_ok (kc_conv k) inn h s"
    and "fold (\<lambda>s. input_segment (header_of s) (seg_bytes s)) segs (k, acc) = (k', acc')"
  shows "endpoint_inv out app h inn got k' \<and> received k \<subseteq> received k' \<and> kc_conv k' = kc_conv k"
  using assms
proof (induction segs arbitrary: k acc)
  case (Cons s segs)
  obtain k1 acc1 where s1: "input_segment (header_of s) (seg_bytes s) (k, acc) = (k1, acc1)"
    by (rule prod.exhaust)
  have i1: "endpoint_inv out app h inn got k1 \<and> received k \<subseteq> received k1"
    using input_segment_endpoint [OF Cons.prems(1) _ s1] Cons.prems(2) by simp
  have c1: "kc_conv k1 = kc_conv k" using input_segment_conv [of "header_of s" "seg_bytes s" "(k, acc)"] by (simp add: s1)
  then have "endpoint_inv out app h inn got k' \<and> received k1 \<subseteq> received k' \<and> kc_conv k' = kc_conv k1"
    using Cons.IH [of k1 acc1] i1 Cons.prems(2,3) s1 by simp
  with i1 c1 show ?case by auto
qed simp

lemma input_endpoint:
  assumes inv: "endpoint_inv out app h inn got k" and d: "datagram_ok (kc_conv k) inn h d"
    and r: "ikcp_input k d = (ret, k')"
  shows "endpoint_inv out app h inn got k' \<and> received k \<subseteq> received k' \<and> kc_conv k' = kc_conv k"
proof -
  let ?k0 = "k\<lparr>kc_ackedlen := 0\<rparr>"
  have p0: "snd_part ?k0 = snd_part k" "rcv_part ?k0 = rcv_part k" "ack_part ?k0 = ack_part k"
    by (simp_all add: part_defs)
  have i0: "endpoint_inv out app h inn got ?k0" "received ?k0 = received k"
    using inv endpoint_inv_cong [OF p0] received_cong [OF p0(2)] by simp_all
  obtain segs where segs: "d = concat (map wire segs)" "\<forall>s\<in>set segs. segment_ok (kc_conv k) inn h s"
    using d by (auto simp: datagram_ok_def)
  obtain k1 flag maxack ts where
    f: "fold (\<lambda>s. input_segment (header_of s) (seg_bytes s)) segs (?k0, False, 0, 0) = (k1, flag, maxack, ts)"
    by (rule prod_cases4)
  have l: "input_loop d (?k0, False, 0, 0) = (0, k1, flag, maxack, ts)"
    using input_loop_wire [of segs "(?k0, False, 0, 0)"] segs unfolding f by (simp add: segment_ok_def)
  have i1: "endpoint_inv out app h inn got k1 \<and> received k \<subseteq> received k1 \<and> kc_conv k1 = kc_conv k"
    using input_fold_endpoint [OF i0(1) _ f] segs(2) i0(2) by simp
  define k2 where "k2 = (if flag then ikcp_parse_fastack k1 maxack ts else k1)"
  have p2: "rcv_part k2 = rcv_part k1" "ack_part k2 = ack_part k1"
    by (simp_all add: k2_def parse_fastack_frame)
  have "snd_inv out app h k2" using i1 parse_fastack_inv by (simp add: k2_def endpoint_inv_def)
  moreover have "kc_conv k2 = kc_conv k" using i1 by (simp add: k2_def ikcp_parse_fastack_def)
  ultimately have i2: "endpoint_inv out app h inn got k2 \<and> received k \<subseteq> received k2 \<and> kc_conv k2 = kc_conv k"
    using i1
    unfolding endpoint_inv_def rcv_inv_cong [OF p2(1)] ack_inv_cong [OF p2(2,1)] drained_cong [OF p2(1)]
      received_cong [OF p2(1)] by blast
  have "k' = ?k0 \<or> k' = k2 \<or> k' = grow_cwnd k2"
    using r unfolding ikcp_input_def Let_def l prod.case k2_def [symmetric] by (simp split: if_splits)
  moreover have "endpoint_inv out app h inn got (grow_cwnd k2) \<and> received k \<subseteq> received (grow_cwnd k2)
      \<and> kc_conv (grow_cwnd k2) = kc_conv k"
    using i2 unfolding endpoint_inv_cong [OF grow_cwnd_frame] received_cong [OF grow_cwnd_frame(2)]
      conv_of_snd_part [OF grow_cwnd_frame(1)] .
  moreover have "endpoint_inv out app h inn got ?k0 \<and> received k \<subseteq> received ?k0 \<and> kc_conv ?k0 = kc_conv k"
    using i0 by simp
  ultimately show ?thesis using i2 by blast
qed

subsection \<open>The application's side\<close>

lemma send_endpoint:
  assumes inv: "endpoint_inv out app h inn got k" and len: "length buffer < 2 ^ 31"
    and r: "ikcp_send k buffer (int (length buffer)) = (ret, k')"
    and room: "unat (kc_snd_nxt k') + length (kc_snd_queue k') \<le> 2 ^ 30"
  shows "endpoint_inv out (app @ take (nat ret) buffer) h inn got k' \<and> rcv_part k' = rcv_part k
    \<and> kc_conv k' = kc_conv k"
proof -
  have s: "snd_inv out app h k" using inv by (simp add: endpoint_inv_def)
  then have "stream_ok k" by (simp add: snd_inv_def)
  from send_stream(1) [OF this len r] obtain q where
    k': "k' = k\<lparr>kc_snd_queue := q,
            kc_nsnd_que := kc_nsnd_que k + word_of_nat (length q - length (kc_snd_queue k))\<rparr>"
    and q: "length (kc_snd_queue k) \<le> length q"
      "queue_bytes q = queue_bytes (kc_snd_queue k) @ take (nat ret) buffer"
      "\<forall>s\<in>set q. seg_ok (kc_mss k) s" by (auto simp: sent_spec_def)
  have p: "rcv_part k' = rcv_part k" "ack_part k' = ack_part k" by (simp_all add: k' part_defs)
  have "unat (kc_snd_nxt k') = length out"
    using s by (simp add: k' snd_inv_def unat_word_of_nat_small)
  moreover have "kc_nsnd_que k' = word_of_nat (length q)" using s q(1) by (simp add: snd_inv_def k' of_nat_diff)
  ultimately have "snd_inv out (app @ take (nat ret) buffer) h k'"
    using s room q by (auto simp: snd_inv_def k' stream_ok_def)
  with inv show ?thesis
    unfolding endpoint_inv_def rcv_inv_cong [OF p(1)] ack_inv_cong [OF p(2,1)] drained_cong [OF p(1)]
    by (simp add: p(1)) (simp add: k')
qed

lemma recv_drained:
  assumes inv: "rcv_inv log got k" and d: "drained k" and len: "0 \<le> len" and r: "ikcp_recv k len = (ret, bs, k')"
  shows "drained k'"
proof (cases "kc_rcv_queue k")
  case Nil
  then have "k' = k" using r by (auto simp: ikcp_recv_def)
  with d show ?thesis by simp
next
  case (Cons seg rest)
  let ?k1 = "k\<lparr>kc_rcv_queue := rest, kc_nrcv_que := kc_nrcv_que k - 1\<rparr>"
  have "k' = k \<or> rcv_part k' = rcv_part (move_rcv_buf ?k1)"
    using r recv_first [OF inv Cons len] by (auto simp: Let_def rcv_part_def split: if_splits)
  with d drained_cong move_rcv_buf_drained show ?thesis by blast
qed

lemma recv_endpoint:
  assumes inv: "endpoint_inv out app h inn got k" and len: "0 \<le> len"
    and r: "ikcp_recv k len = (ret, bs, k')"
  shows "endpoint_inv out app h inn (got @ bs) k' \<and> received k' = received k \<and> kc_conv k' = kc_conv k"
proof -
  have i: "rcv_inv inn got k" "drained k" "ack_inv k" "snd_inv out app h k" using inv by (simp_all add: endpoint_inv_def)
  note f = recv_inv [OF i(1) len r]
  have sp: "snd_part k' = snd_part k" and ap: "ack_part k' = ack_part k" and rc: "received k' = received k"
    and ri: "rcv_inv inn (got @ bs) k'" using f by blast+
  have "ack_inv k'"
    using ap i(3) unfolding ack_inv_def rc by (simp add: ack_wf_def pending_acks_def ack_part_def)
  moreover have "snd_inv out app h k'" using i(4) unfolding snd_inv_cong [OF sp] .
  ultimately show ?thesis
    using ri rc recv_drained [OF i(1,2) len r] conv_of_snd_part [OF sp] unfolding endpoint_inv_def by blast
qed

subsection \<open>Output\<close>

text \<open>The datagrams built so far: each a sequence of good segments of at most \<open>mtu\<close> bytes.\<close>

definition packed :: "(IKCPSEG \<Rightarrow> bool) \<Rightarrow> byte list \<Rightarrow> bool" where
  "packed P d \<longleftrightarrow> (\<exists>segs. d = concat (map wire segs) \<and> (\<forall>s\<in>set segs. P s))"

definition acc_ok :: "(IKCPSEG \<Rightarrow> bool) \<Rightarrow> nat \<Rightarrow> out_acc \<Rightarrow> bool" where
  "acc_ok P mtu acc \<longleftrightarrow>
     (\<forall>d\<in>set (fst acc). packed P d \<and> length d \<le> mtu) \<and> packed P (snd acc) \<and> length (snd acc) \<le> mtu"

lemma packed_append: "packed P d \<Longrightarrow> P s \<Longrightarrow> packed P (d @ wire s)"
proof -
  assume "packed P d" and s: "P s"
  then obtain segs where "d = concat (map wire segs)" "\<forall>s\<in>set segs. P s" by (auto simp: packed_def)
  with s show ?thesis unfolding packed_def by (intro exI [of _ "segs @ [s]"]) auto
qed

lemma packed_Nil: "packed P []"
  unfolding packed_def by (intro exI [of _ "[]"]) simp

lemma acc_ok_put:
  assumes ok: "acc_ok P (unat (kc_mtu k)) acc" and s: "P s" and mtu: "unat (kc_mtu k) < 2 ^ 31"
    and need: "need = int (length (wire s))" and fits: "length (wire s) \<le> unat (kc_mtu k)"
  shows "acc_ok P (unat (kc_mtu k)) (append_buf (wire s) (make_room k need acc))"
proof -
  obtain outs buf where acc: "acc = (outs, buf)" by (rule prod.exhaust)
  have m: "sint (kc_mtu k) = int (unat (kc_mtu k))" by (rule sint_small [OF mtu])
  show ?thesis
  proof (cases "length buf + length (wire s) > unat (kc_mtu k)")
    case True
    then have "int (length buf) + need > sint (kc_mtu k)" unfolding m need by linarith
    then show ?thesis
      using ok s fits packed_append [of P "[]" s] packed_Nil
      by (auto simp: acc make_room_def append_buf_def ikcp_output_def acc_ok_def)
  next
    case False
    then have "\<not> int (length buf) + need > sint (kc_mtu k)" unfolding m need by linarith
    then show ?thesis
      using ok s False packed_append [of P buf s]
      by (simp add: acc make_room_def append_buf_def acc_ok_def)
  qed
qed

lemma acc_ok_control:
  assumes "acc_ok P (unat (kc_mtu k)) acc" and "P s" and "unat (kc_mtu k) < 2 ^ 31" "24 \<le> unat (kc_mtu k)"
    and "sg_len s = 0"
  shows "acc_ok P (unat (kc_mtu k)) (put_control k s acc)"
proof -
  have w: "wire s = ikcp_encode_seg s" using assms(5) by (simp add: wire_def seg_bytes_def)
  show ?thesis
    unfolding put_control_def w [symmetric]
    by (rule acc_ok_put [OF assms(1-3)]) (use assms(4) in \<open>simp_all add: w IKCP_OVERHEAD_def\<close>)
qed

lemma acc_ok_data:
  assumes "acc_ok P (unat (kc_mtu k)) acc" and "P s" and mtu: "unat (kc_mtu k) < 2 ^ 31"
    and len: "unat (sg_len s) = length (sg_data s)" and fit: "24 + length (sg_data s) \<le> unat (kc_mtu k)"
  shows "acc_ok P (unat (kc_mtu k)) (put_data k s acc)"
proof -
  have l: "length (wire s) = 24 + length (sg_data s)" using len by (simp add: wire_def seg_bytes_def)
  have "unat (IKCP_OVERHEAD + sg_len s) = 24 + length (sg_data s)"
    using len fit mtu by (subst unat_add_lem [THEN iffD1]) (auto simp: IKCP_OVERHEAD_def)
  then have "sint (IKCP_OVERHEAD + sg_len s) = int (length (wire s))"
    using fit mtu l by (subst sint_small) auto
  then show ?thesis
    unfolding put_data_def wire_def [symmetric] using l fit by (intro acc_ok_put [OF assms(1-3)]) auto
qed

text \<open>A control segment built by the flush of \<open>k\<close>.\<close>

definition control :: "IKCPCB \<Rightarrow> IKCPSEG \<Rightarrow> bool" where
  "control k s \<longleftrightarrow> sg_conv s = kc_conv k \<and> sg_una s = kc_rcv_nxt k \<and> sg_len s = 0 \<and> sg_data s = []"

lemma rcv_prefix:
  assumes "rcv_inv inn got k"
  shows "unat (kc_rcv_nxt k) \<le> 2 ^ 30" and "\<forall>n<unat (kc_rcv_nxt k). n \<in> received k"
  using assms by (auto simp: rcv_inv_def rcv_pos_def received_def)

lemma control_segment_ok:
  assumes "rcv_inv inn got k" and "control k s"
    and "sg_cmd s \<in> {IKCP_CMD_ACK, IKCP_CMD_WASK, IKCP_CMD_WINS}"
    and "sg_cmd s = IKCP_CMD_ACK \<Longrightarrow> unat (sg_sn s) \<in> received k"
  shows "segment_ok (kc_conv k) out (received k) s"
  using assms rcv_prefix [OF assms(1)]
  by (auto simp: segment_ok_def sendable_def control_def known_cmd_def ikcp_cmds)

lemma flush_acks_ok:
  assumes inv: "rcv_inv inn got k" and ack: "ack_inv k" and mtu: "unat (kc_mtu k) < 2 ^ 31" "24 \<le> unat (kc_mtu k)"
    and "\<forall>i\<in>set is. i < unat (kc_ackcount k)"
    and "acc_ok (segment_ok (kc_conv k) out (received k)) (unat (kc_mtu k)) acc"
    and "control k seg" and "sg_cmd seg = IKCP_CMD_ACK"
    and "flush_acks k is (seg, acc) = (seg', acc')"
  shows "acc_ok (segment_ok (kc_conv k) out (received k)) (unat (kc_mtu k)) acc'
    \<and> control k seg' \<and> sg_wnd seg' = sg_wnd seg"
  using assms(5-)
proof (induction "is" arbitrary: seg acc)
  case (Cons i idx)
  obtain sn ts where a: "ikcp_ack_get k i = (sn, ts)" by (rule prod.exhaust)
  let ?s = "seg\<lparr>sg_sn := sn, sg_ts := ts\<rparr>"
  have "i < length (pending_acks k)" "pending_acks k ! i = (sn, ts)"
    using Cons.prems(1) ack a by (auto simp: ack_inv_def ack_wf_def pending_acks_def ikcp_ack_get_def)
  then have "(sn, ts) \<in> set (pending_acks k)" by (metis nth_mem)
  then have "unat sn \<in> received k" using ack by (auto simp: ack_inv_def)
  moreover have c: "control k ?s" using Cons.prems(3) by (simp add: control_def)
  ultimately have "segment_ok (kc_conv k) out (received k) ?s"
    using control_segment_ok [OF inv c] Cons.prems(4) by simp
  then have "acc_ok (segment_ok (kc_conv k) out (received k)) (unat (kc_mtu k)) (put_control k ?s acc)"
    using Cons.prems(2) mtu c by (intro acc_ok_control) (simp_all add: control_def)
  from Cons.IH [OF _ this c] Cons.prems a show ?case by (simp add: Let_def)
qed simp

lemma flush_probes_ok:
  assumes inv: "rcv_inv inn got k" and mtu: "unat (kc_mtu k) < 2 ^ 31" "24 \<le> unat (kc_mtu k)"
    and acc: "acc_ok (segment_ok (kc_conv k) out (received k)) (unat (kc_mtu k)) acc"
    and c: "control k seg"
  shows "acc_ok (segment_ok (kc_conv k) out (received k)) (unat (kc_mtu k)) (flush_probes k seg acc)"
proof -
  have ok: "segment_ok (kc_conv k) out (received k) (seg\<lparr>sg_cmd := cmd\<rparr>)"
    if "cmd \<in> {IKCP_CMD_WASK, IKCP_CMD_WINS}" for cmd
    using control_segment_ok [OF inv, of "seg\<lparr>sg_cmd := cmd\<rparr>"] c that
    by (auto simp: control_def ikcp_cmds)
  show ?thesis
    using acc mtu ok c by (auto simp: control_def flush_probes_def Let_def intro!: acc_ok_control)
qed

lemma probe_timer_frame:
  "snd_part (probe_timer k) = snd_part k" "rcv_part (probe_timer k) = rcv_part k"
  "ack_part (probe_timer k) = ack_part k"
  by (simp_all add: probe_timer_def Let_def part_defs)

lemma flush_cwnd_frame:
  "snd_part (flush_cwnd c ch l k) = snd_part k" "rcv_part (flush_cwnd c ch l k) = rcv_part k"
  "ack_part (flush_cwnd c ch l k) = ack_part k"
  by (simp_all add: flush_cwnd_def after_change_def after_loss_def Let_def part_defs)

lemma number_segment_inv:
  assumes inv: "snd_inv out app h k" and q: "kc_snd_queue k = newseg # rest"
  shows "snd_inv (out @ [seg_bytes newseg]) app h
    (k\<lparr>kc_snd_queue := rest, kc_snd_buf := kc_snd_buf k @ [number_segment k wnd newseg],
       kc_nsnd_que := kc_nsnd_que k - 1, kc_nsnd_buf := kc_nsnd_buf k + 1, kc_snd_nxt := kc_snd_nxt k + 1\<rparr>)"
proof -
  let ?n = "number_segment k wnd newseg"
  have ok: "seg_ok (kc_mss k) newseg" and mss: "unat (kc_mss k) < 2 ^ 30"
    and lo: "length out < 2 ^ 30" and nxt: "kc_snd_nxt k = word_of_nat (length out)"
    using inv q by (auto simp: snd_inv_def stream_ok_def)
  have sq: "seq ?n = length out"
    using lo by (simp add: number_segment_def seq_def nxt unat_word_of_nat_small)
  have car: "carries (out @ [seg_bytes newseg]) ?n"
    using ok mss sq by (auto simp: carries_def seg_ok_def seg_bytes_def number_segment_def nth_append)
  have old: "\<forall>s\<in>set (kc_snd_buf k). seq s < length out \<and> carries (out @ [seg_bytes newseg]) s"
  proof
    fix s assume "s \<in> set (kc_snd_buf k)"
    then have "carries out s" using inv by (simp add: snd_inv_def)
    then show "seq s < length out \<and> carries (out @ [seg_bytes newseg]) s"
      using carries_append by (auto simp: carries_def)
  qed
  have "sg_conv ?n = kc_conv k \<and> sg_cmd ?n = IKCP_CMD_PUSH \<and> length (sg_data ?n) \<le> unat (kc_mss k)"
    using ok by (simp add: number_segment_def seg_ok_def)
  moreover have "sorted_wrt (<) (map seq (kc_snd_buf k @ [?n]))"
    using inv old sq by (auto simp: snd_inv_def sorted_wrt_append)
  moreover have "\<forall>n<length (out @ [seg_bytes newseg]). n \<in> seq ` set (kc_snd_buf k @ [?n]) \<or> n \<in> h"
    using inv sq by (auto simp: snd_inv_def less_Suc_eq)
  ultimately show ?thesis
    using inv q car old by (auto simp: snd_inv_def stream_ok_def)
qed

lemma move_snd_queue_inv:
  assumes "snd_inv out app h k"
  shows "\<exists>xs. snd_inv (out @ xs) app h (move_snd_queue cwnd wnd k)"
    and "rcv_part (move_snd_queue cwnd wnd k) = rcv_part k" "ack_part (move_snd_queue cwnd wnd k) = ack_part k"
    and "kc_conv (move_snd_queue cwnd wnd k) = kc_conv k" "kc_mtu (move_snd_queue cwnd wnd k) = kc_mtu k"
proof -
  have "(\<exists>xs. snd_inv (out @ xs) app h (move_snd_queue cwnd wnd k))
    \<and> rcv_part (move_snd_queue cwnd wnd k) = rcv_part k \<and> ack_part (move_snd_queue cwnd wnd k) = ack_part k
    \<and> kc_conv (move_snd_queue cwnd wnd k) = kc_conv k \<and> kc_mtu (move_snd_queue cwnd wnd k) = kc_mtu k"
    using assms
  proof (induction cwnd wnd k arbitrary: out rule: move_snd_queue.induct)
    case (1 cwnd wnd k)
    show ?case
    proof (cases "itimediff (kc_snd_nxt k) (kc_snd_una k + cwnd) < 0 \<and> kc_snd_queue k \<noteq> []")
      case False
      then have "move_snd_queue cwnd wnd k = k"
        by (auto simp: move_snd_queue.simps [of cwnd wnd k])
      with "1.prems" show ?thesis by (auto intro: exI [of _ "[]"])
    next
      case True
      then obtain newseg rest where q: "kc_snd_queue k = newseg # rest" by (auto simp: neq_Nil_conv)
      let ?k = "k\<lparr>kc_snd_queue := rest, kc_snd_buf := kc_snd_buf k @ [number_segment k wnd newseg],
         kc_nsnd_que := kc_nsnd_que k - 1, kc_nsnd_buf := kc_nsnd_buf k + 1, kc_snd_nxt := kc_snd_nxt k + 1\<rparr>"
      have eq: "move_snd_queue cwnd wnd k = move_snd_queue cwnd wnd ?k"
        using True q by (simp add: move_snd_queue.simps [of cwnd wnd k])
      have p: "rcv_part ?k = rcv_part k" "ack_part ?k = ack_part k" "kc_conv ?k = kc_conv k" "kc_mtu ?k = kc_mtu k"
        by (simp_all add: part_defs)
      from "1.IH" [OF conjunct1 [OF True] q number_segment_inv [OF "1.prems" q]]
      show ?thesis unfolding eq p append_assoc by blast
    qed
  qed
  then show "\<exists>xs. snd_inv (out @ xs) app h (move_snd_queue cwnd wnd k)"
    and "rcv_part (move_snd_queue cwnd wnd k) = rcv_part k" "ack_part (move_snd_queue cwnd wnd k) = ack_part k"
    and "kc_conv (move_snd_queue cwnd wnd k) = kc_conv k" "kc_mtu (move_snd_queue cwnd wnd k) = kc_mtu k"
    by blast+
qed

lemma schedule_core [simp]: "seg_core (schedule k s) = seg_core s" "seg_core (stamp k wnd s) = seg_core s"
  by (simp_all add: schedule_def stamp_def seg_core_def split: transmit.splits)

text \<open>Segments of the send buffer as the flush sends them.\<close>

definition data_ok :: "IKCPCB \<Rightarrow> byte list list \<Rightarrow> IKCPSEG \<Rightarrow> bool" where
  "data_ok k out s \<longleftrightarrow> carries out s \<and> sg_conv s = kc_conv k \<and> sg_cmd s = IKCP_CMD_PUSH
     \<and> 24 + length (sg_data s) \<le> unat (kc_mtu k)"

lemma data_ok_core: "seg_core s = seg_core s' \<Longrightarrow> data_ok k out s = data_ok k out s'"
  using seg_core_carries [of s s'] by (simp add: data_ok_def seg_core_def)

lemma data_segment_ok:
  assumes inv: "rcv_inv inn got k" and d: "data_ok k out s" and u: "sg_una s = kc_rcv_nxt k"
  shows "segment_ok (kc_conv k) out (received k) s"
  using d u rcv_prefix [OF inv]
  by (auto simp: segment_ok_def sendable_def data_ok_def carries_def known_cmd_def ikcp_cmds)

lemma flush_data_ok:
  assumes "flush_data wnd q (change, lost, k, acc) = (segs, change', lost', k', acc')"
    and "rcv_inv inn got k" and "unat (kc_mtu k) < 2 ^ 31"
    and "\<forall>s\<in>set q. data_ok k out s"
    and "acc_ok (segment_ok (kc_conv k) out (received k)) (unat (kc_mtu k)) acc"
  shows "map seg_core segs = map seg_core q
    \<and> snd_part k' = snd_part k \<and> rcv_part k' = rcv_part k \<and> ack_part k' = ack_part k
    \<and> acc_ok (segment_ok (kc_conv k) out (received k)) (unat (kc_mtu k)) acc'"
  using assms
proof (induction q arbitrary: change lost k acc segs)
  case Nil
  then show ?case by simp
next
  case (Cons s q)
  let ?kind = "transmit_kind k s"
  define s2 where "s2 = (if ?kind = No_Send then schedule k s else stamp k wnd (schedule k s))"
  define acc1 where "acc1 = (if ?kind = No_Send then acc else put_data k s2 acc)"
  define k1 where "k1 = (if ?kind = Timeout_Send then k\<lparr>kc_xmit := kc_xmit k + 1\<rparr> else k)"
  define k2 where "k2 = (if ?kind \<noteq> No_Send \<and> sg_xmit s2 \<ge> kc_dead_link k then k1\<lparr>kc_state := - 1\<rparr> else k1)"
  have p: "snd_part k2 = snd_part k" "rcv_part k2 = rcv_part k" "ack_part k2 = ack_part k"
    "kc_conv k2 = kc_conv k" "kc_mtu k2 = kc_mtu k"
    by (simp_all add: k2_def k1_def part_defs)
  have rc: "received k2 = received k" by (rule received_cong [OF p(2)])
  have core: "seg_core s2 = seg_core s" by (simp add: s2_def)
  obtain segs1 where tl: "flush_data wnd q (change \<or> ?kind = Fast_Send, lost \<or> ?kind = Timeout_Send, k2, acc1)
      = (segs1, change', lost', k', acc')" and segs: "segs = s2 # segs1"
    using Cons.prems(1)
    unfolding flush_data.simps Let_def s2_def [symmetric] k1_def [symmetric] acc1_def [symmetric] k2_def [symmetric]
    by (auto split: prod.splits)
  have d2: "data_ok k out s2" using Cons.prems(4) data_ok_core [OF core] by simp
  have "acc_ok (segment_ok (kc_conv k) out (received k)) (unat (kc_mtu k)) acc1"
  proof (cases "?kind = No_Send")
    case True
    then show ?thesis using Cons.prems(5) by (simp add: acc1_def)
  next
    case False
    then have "sg_una s2 = kc_rcv_nxt k" by (simp add: s2_def stamp_def)
    then have "segment_ok (kc_conv k) out (received k) s2" by (rule data_segment_ok [OF Cons.prems(2) d2])
    then show ?thesis
      using False Cons.prems(3,5) d2 by (auto simp: acc1_def data_ok_def carries_def intro: acc_ok_data)
  qed
  moreover have "\<forall>s\<in>set q. data_ok k2 out s" using Cons.prems(4) p(4,5) by (simp add: data_ok_def)
  ultimately have "map seg_core segs1 = map seg_core q
    \<and> snd_part k' = snd_part k2 \<and> rcv_part k' = rcv_part k2 \<and> ack_part k' = ack_part k2
    \<and> acc_ok (segment_ok (kc_conv k) out (received k)) (unat (kc_mtu k)) acc'"
    using Cons.IH [OF tl] Cons.prems(2,3) rcv_inv_cong [OF p(2)] by (simp add: p(4,5) rc)
  then show ?case using p segs core by simp
qed

text \<open>What a flush does: some queued payloads are numbered, and the datagrams carry good segments and
  fit the MTU.\<close>

definition flushed :: "byte list list \<Rightarrow> byte list \<Rightarrow> nat set \<Rightarrow> byte list list \<Rightarrow> byte list \<Rightarrow> IKCPCB
    \<Rightarrow> byte list list \<Rightarrow> byte list list \<Rightarrow> IKCPCB \<Rightarrow> bool" where
  "flushed out app h inn got k outs xs k' \<longleftrightarrow>
     endpoint_inv (out @ xs) app h inn got k' \<and> received k' = received k \<and> kc_conv k' = kc_conv k
     \<and> (\<forall>d\<in>set outs. datagram_ok (kc_conv k) (out @ xs) (received k) d \<and> length d \<le> unat (kc_mtu k))"

lemma ack_indices: "\<forall>i\<in>set [0..<nat (sint (w :: u32))]. i < unat w"
proof (cases "unat w < 2 ^ 31")
  case True
  then show ?thesis by (simp add: sint_small)
next
  case False
  have "sint w < 2 ^ 31" using sint_lt [of w] by simp
  with False show ?thesis by auto
qed

lemma flush_endpoint:
  assumes inv: "endpoint_inv out app h inn got k" and r: "ikcp_flush k = (outs, k')"
  shows "\<exists>xs. flushed out app h inn got k outs xs k'"
proof (cases "kc_updated k = 0")
  case True
  then show ?thesis using inv r by (intro exI [of _ "[]"]) (simp add: ikcp_flush_def flushed_def)
next
  case False
  have i: "snd_inv out app h k" "rcv_inv inn got k" "ack_inv k" "drained k"
    using inv by (simp_all add: endpoint_inv_def)
  have mtu: "unat (kc_mtu k) < 2 ^ 31" "24 \<le> unat (kc_mtu k)"
    using i(1) by (auto simp: snd_inv_def stream_ok_def)
  obtain seg acc1 where a: "flush_acks k [0..<nat (sint (kc_ackcount k))] (ack_segment k, ([], [])) = (seg, acc1)"
    by (rule prod.exhaust)
  define k1 where "k1 = probe_timer (k\<lparr>kc_ackcount := 0\<rparr>)"
  define k2 where "k2 = k1\<lparr>kc_probe := 0\<rparr>"
  define k3 where "k3 = move_snd_queue (send_window k2) (sg_wnd seg) k2"
  obtain segs change lost k4 acc3 where
    d: "flush_data (sg_wnd seg) (kc_snd_buf k3) (False, False, k3, flush_probes k1 seg acc1)
        = (segs, change, lost, k4, acc3)" by (rule prod_cases5)
  define k5 where "k5 = k4\<lparr>kc_snd_buf := segs\<rparr>"
  have eq: "outs = ikcp_output (snd acc3) (fst acc3)" "k' = flush_cwnd (kc_cwnd k) change lost k5"
    using r False a d
    by (simp_all add: ikcp_flush_def Let_def flip: k1_def k2_def k3_def k5_def split: prod.splits)
  have p2: "snd_part k2 = snd_part k" "rcv_part k2 = rcv_part k" "snd_part k1 = snd_part k" "rcv_part k1 = rcv_part k"
    by (simp_all add: k2_def k1_def part_defs probe_timer_def Let_def)
  have ac2: "kc_ackcount k2 = 0" by (simp add: k2_def k1_def probe_timer_def Let_def)
  have s2: "snd_inv out app h k2" using i(1) unfolding snd_inv_cong [OF p2(1)] .
  note m = move_snd_queue_inv [OF s2, of "send_window k2" "sg_wnd seg", folded k3_def]
  obtain xs where s3: "snd_inv (out @ xs) app h k3" using m(1) by blast
  have p3: "rcv_part k3 = rcv_part k" "kc_conv k3 = kc_conv k" "kc_mtu k3 = kc_mtu k"
    "kc_conv k1 = kc_conv k" "kc_mtu k1 = kc_mtu k" "kc_rcv_nxt k1 = kc_rcv_nxt k" "kc_ackcount k3 = 0"
    using m p2 ac2 by (simp_all add: part_defs)
  let ?P = "segment_ok (kc_conv k) (out @ xs) (received k)" and ?mtu = "unat (kc_mtu k)"
  have "acc_ok ?P ?mtu ([], [])" by (simp add: acc_ok_def packed_Nil)
  moreover have "control k (ack_segment k)" "sg_cmd (ack_segment k) = IKCP_CMD_ACK"
    by (simp_all add: control_def ack_segment_def ikcp_segment_new_def)
  ultimately have acc1: "acc_ok ?P ?mtu acc1" "control k seg"
    using flush_acks_ok [OF i(2,3) mtu ack_indices _ _ _ a] by blast+
  have "control k1 seg" using acc1(2) p3 by (simp add: control_def)
  then have acc2: "acc_ok ?P ?mtu (flush_probes k1 seg acc1)"
    using flush_probes_ok [of inn got k1 "out @ xs" acc1 seg] i(2) rcv_inv_cong [OF p2(4)] mtu acc1
    by (simp add: p3 received_cong [OF p2(4)])
  have q3: "\<forall>s\<in>set (kc_snd_buf k3). data_ok k3 (out @ xs) s"
    using s3 by (auto simp: snd_inv_def data_ok_def)
  have r3: "rcv_inv inn got k3" using i(2) rcv_inv_cong [OF p3(1)] by simp
  have f: "map seg_core segs = map seg_core (kc_snd_buf k3)
    \<and> snd_part k4 = snd_part k3 \<and> rcv_part k4 = rcv_part k3 \<and> ack_part k4 = ack_part k3 \<and> acc_ok ?P ?mtu acc3"
    using flush_data_ok [OF d r3 _ q3] mtu(1) acc2 by (simp add: p3 received_cong [OF p3(1)])
  have c5: "snd_part k5 = snd_part (k3\<lparr>kc_snd_buf := segs\<rparr>)" "rcv_part k5 = rcv_part k" "kc_ackcount k5 = 0"
    using f p3 by (simp_all add: k5_def part_defs)
  have "snd_inv (out @ xs) app h k5"
    using snd_inv_rebuf [OF s3] f unfolding snd_inv_cong [OF c5(1)] by blast
  moreover have "ack_inv k5" using c5(3) by (simp add: ack_inv_def ack_wf_def pending_acks_def)
  ultimately have "endpoint_inv (out @ xs) app h inn got k5"
    using i unfolding endpoint_inv_def rcv_inv_cong [OF c5(2)] drained_cong [OF c5(2)] by blast
  then have e: "endpoint_inv (out @ xs) app h inn got k'" "received k' = received k" "kc_conv k' = kc_conv k"
    unfolding eq(2) endpoint_inv_cong [OF flush_cwnd_frame] received_cong [OF flush_cwnd_frame(2)]
      received_cong [OF c5(2)] conv_of_snd_part [OF flush_cwnd_frame(1)] conv_of_snd_part [OF c5(1)]
    using p3(2) by simp_all
  have "\<forall>d\<in>set outs. packed ?P d \<and> length d \<le> ?mtu"
    using f by (auto simp: eq(1) ikcp_output_def acc_ok_def)
  with e have "flushed out app h inn got k outs xs k'"
    by (simp add: flushed_def datagram_ok_def packed_def)
  then show ?thesis ..
qed

lemma update_endpoint:
  assumes inv: "endpoint_inv out app h inn got k" and r: "ikcp_update k current = (outs, k')"
  shows "\<exists>xs. flushed out app h inn got k outs xs k'"
proof -
  obtain slap k3 where c: "update_clock k current = (slap, k3)" by (rule prod.exhaust)
  have p3: "snd_part k3 = snd_part k" "rcv_part k3 = rcv_part k" "ack_part k3 = ack_part k"
    using c by (auto simp: update_clock_def Let_def part_defs split: if_splits)
  have "snd_part (k3\<lparr>kc_ts_flush := x\<rparr>) = snd_part k \<and> rcv_part (k3\<lparr>kc_ts_flush := x\<rparr>) = rcv_part k
      \<and> ack_part (k3\<lparr>kc_ts_flush := x\<rparr>) = ack_part k" for x
    using p3 by (simp add: part_defs)
  moreover have "(\<exists>x. ikcp_flush (k3\<lparr>kc_ts_flush := x\<rparr>) = (outs, k')) \<or> outs = [] \<and> k' = k3"
    using r unfolding ikcp_update_def c prod.case Let_def by (auto split: if_split_asm)
  ultimately have "\<exists>k0. snd_part k0 = snd_part k \<and> rcv_part k0 = rcv_part k \<and> ack_part k0 = ack_part k
      \<and> (ikcp_flush k0 = (outs, k') \<or> outs = [] \<and> k' = k0)"
    using p3 by metis
  then obtain k0 where p: "snd_part k0 = snd_part k" "rcv_part k0 = rcv_part k" "ack_part k0 = ack_part k"
    and k0: "ikcp_flush k0 = (outs, k') \<or> outs = [] \<and> k' = k0" by blast
  have i0: "endpoint_inv out app h inn got k0" using inv unfolding endpoint_inv_cong [OF p] .
  have same: "received k0 = received k" "kc_conv k0 = kc_conv k" "kc_mtu k0 = kc_mtu k"
    using received_cong [OF p(2)] p(1) by (simp_all add: snd_part_def)
  from k0 show ?thesis
  proof
    assume "ikcp_flush k0 = (outs, k')"
    from flush_endpoint [OF i0 this] show ?thesis by (simp add: flushed_def same)
  next
    assume "outs = [] \<and> k' = k0"
    with i0 show ?thesis by (intro exI [of _ "[]"]) (simp add: flushed_def same)
  qed
qed

end
