(* ===== verification/Kcp_Link.thy ===== *)
theory Kcp_Link
  imports Kcp_Endpoint "HOL-Library.Sublist"
begin

text \<open>
  Two KCP endpoints over an unreliable datagram network.  An endpoint may send, receive, flush and
  update at any time, and may be handed any datagram its peer has ever emitted, any number of times and
  in any order: loss, duplication, reordering and delay are all covered.  The system keeps the
  invariant of \<^theory_text>\<open>Kcp_Endpoint\<close>; from it follow that the bytes delivered are always a prefix of the
  bytes sent and that an empty send window means nothing was lost.
\<close>

subsection \<open>The system\<close>

text \<open>A stream as \<open>connect\<close> and \<open>listen\<close> of \<^verbatim>\<open>transport.cpp\<close> configure it (default \<open>Config\<close>).\<close>

definition new_stream :: "u32 \<Rightarrow> IKCPCB" where
  "new_stream conv =
     (let k1 = ikcp_create conv;
          k2 = snd (ikcp_nodelay k1 1 5 2 1);
          k3 = snd (ikcp_wndsize k2 4096 4096);
          k4 = snd (ikcp_setmtu k3 16384)
      in k4\<lparr>kc_stream := 1\<rparr>)"

text \<open>An endpoint: its control block, the bytes accepted from and delivered to its application, and
  every datagram it has emitted.\<close>

record endpoint =
  ep_kcp :: IKCPCB
  ep_sent :: "byte list"
  ep_got :: "byte list"
  ep_emitted :: "byte list list"

type_synonym link = "endpoint \<times> endpoint"

definition new_endpoint :: "u32 \<Rightarrow> endpoint" where
  "new_endpoint conv = \<lparr>ep_kcp = new_stream conv, ep_sent = [], ep_got = [], ep_emitted = []\<rparr>"

inductive ep_step :: "byte list list \<Rightarrow> endpoint \<Rightarrow> endpoint \<Rightarrow> bool" where
  send: "ikcp_send (ep_kcp x) buffer (int (length buffer)) = (ret, k) \<Longrightarrow> length buffer < 2 ^ 31 \<Longrightarrow>
    unat (kc_snd_nxt k) + length (kc_snd_queue k) \<le> 2 ^ 30 \<Longrightarrow>
    ep_step net x (x\<lparr>ep_kcp := k, ep_sent := ep_sent x @ take (nat ret) buffer\<rparr>)"
| recv: "ikcp_recv (ep_kcp x) len = (ret, bs, k) \<Longrightarrow> 0 \<le> len \<Longrightarrow>
    ep_step net x (x\<lparr>ep_kcp := k, ep_got := ep_got x @ bs\<rparr>)"
| input: "d \<in> set net \<Longrightarrow> ikcp_input (ep_kcp x) d = (ret, k) \<Longrightarrow> ep_step net x (x\<lparr>ep_kcp := k\<rparr>)"
| flush: "ikcp_flush (ep_kcp x) = (outs, k) \<Longrightarrow>
    ep_step net x (x\<lparr>ep_kcp := k, ep_emitted := ep_emitted x @ outs\<rparr>)"
| update: "ikcp_update (ep_kcp x) current = (outs, k) \<Longrightarrow>
    ep_step net x (x\<lparr>ep_kcp := k, ep_emitted := ep_emitted x @ outs\<rparr>)"

inductive link_step :: "link \<Rightarrow> link \<Rightarrow> bool" where
  left: "ep_step (ep_emitted y) x x' \<Longrightarrow> link_step (x, y) (x', y)"
| right: "ep_step (ep_emitted x) y y' \<Longrightarrow> link_step (x, y) (x, y')"

inductive_cases link_stepE: "link_step l l'"

definition new_link :: "u32 \<Rightarrow> link" where
  "new_link conv = (new_endpoint conv, new_endpoint conv)"

subsection \<open>Invariant\<close>

text \<open>One endpoint seen with the histories \<open>out\<close> and \<open>inn\<close> of both directions.\<close>

definition side_inv :: "byte list list \<Rightarrow> byte list list \<Rightarrow> nat set \<Rightarrow> u32 \<Rightarrow> endpoint \<Rightarrow> bool" where
  "side_inv out inn acked conv x \<longleftrightarrow>
     endpoint_inv out (ep_sent x) acked inn (ep_got x) (ep_kcp x) \<and> kc_conv (ep_kcp x) = conv
     \<and> (\<forall>d\<in>set (ep_emitted x). datagram_ok conv out (received (ep_kcp x)) d)"

definition link_inv_at :: "u32 \<Rightarrow> link \<Rightarrow> bool" where
  "link_inv_at conv l \<longleftrightarrow>
     (\<exists>lx ly. side_inv lx ly (received (ep_kcp (snd l))) conv (fst l)
        \<and> side_inv ly lx (received (ep_kcp (fst l))) conv (snd l))"

definition link_inv :: "link \<Rightarrow> bool" where
  "link_inv l \<longleftrightarrow> (\<exists>conv. link_inv_at conv l)"

lemma new_stream_fields [simp]:
  "kc_conv (new_stream c) = c" "kc_mtu (new_stream c) = 16384" "kc_mss (new_stream c) = 16360"
  "kc_stream (new_stream c) = 1" "kc_snd_queue (new_stream c) = []" "kc_snd_buf (new_stream c) = []"
  "kc_rcv_queue (new_stream c) = []" "kc_rcv_buf (new_stream c) = []" "kc_snd_nxt (new_stream c) = 0"
  "kc_rcv_nxt (new_stream c) = 0" "kc_rcv_wnd (new_stream c) = 4096" "kc_nsnd_buf (new_stream c) = 0"
  "kc_nsnd_que (new_stream c) = 0" "kc_nrcv_que (new_stream c) = 0" "kc_nrcv_buf (new_stream c) = 0"
  "kc_ackcount (new_stream c) = 0" "kc_acklist (new_stream c) = []"
  by (simp_all add: new_stream_def ikcp_create_def ikcp_nodelay_def ikcp_wndsize_def ikcp_setmtu_def
      clamp_interval_def imax_def IKCP_WND_RCV_def IKCP_OVERHEAD_def Let_def)

lemma new_stream_inv: "endpoint_inv [] [] {} [] [] (new_stream c)"
  by (simp add: endpoint_inv_def snd_inv_def rcv_inv_def ack_inv_def drained_def stream_ok_def
      rcv_pos_def ack_wf_def pending_acks_def)

lemma new_link_inv: "link_inv_at c (new_link c)"
proof -
  have "received (new_stream c) = {}" by (simp add: received_def rcv_pos_def)
  then have "side_inv [] [] (received (ep_kcp (new_endpoint c))) c (new_endpoint c)"
    using new_stream_inv by (simp add: side_inv_def new_endpoint_def)
  then show ?thesis unfolding link_inv_at_def new_link_def fst_conv snd_conv by blast
qed

lemma flushed_side:
  assumes f: "flushed out (ep_sent x) acked inn (ep_got x) (ep_kcp x) outs xs k"
    and x: "side_inv out inn acked conv x"
  shows "side_inv (out @ xs) inn acked conv (x\<lparr>ep_kcp := k, ep_emitted := ep_emitted x @ outs\<rparr>)
    \<and> received (ep_kcp x) \<subseteq> received k"
proof -
  have "kc_conv (ep_kcp x) = conv" and old: "\<forall>d\<in>set (ep_emitted x). datagram_ok conv out (received (ep_kcp x)) d"
    using x by (simp_all add: side_inv_def)
  moreover from old have "\<forall>d\<in>set (ep_emitted x). datagram_ok conv (out @ xs) (received (ep_kcp x)) d"
    using datagram_ok_mono by blast
  ultimately show ?thesis using f by (auto simp: flushed_def side_inv_def)
qed

lemma quiet_side:
  assumes x: "side_inv out inn acked conv x"
    and e: "endpoint_inv out (ep_sent x') acked inn (ep_got x') (ep_kcp x')"
    and same: "kc_conv (ep_kcp x') = kc_conv (ep_kcp x)" "ep_emitted x' = ep_emitted x"
      "received (ep_kcp x) \<subseteq> received (ep_kcp x')"
  shows "side_inv (out @ []) inn acked conv x'"
proof -
  have "\<forall>d\<in>set (ep_emitted x). datagram_ok conv (out @ []) (received (ep_kcp x')) d"
    using x same(3) datagram_ok_mono unfolding side_inv_def by blast
  with x e same show ?thesis by (simp add: side_inv_def)
qed

lemma ep_step_side:
  assumes "ep_step net x x'" and x: "side_inv out inn acked conv x"
    and net: "\<forall>d\<in>set net. datagram_ok conv inn acked d"
  shows "\<exists>xs. side_inv (out @ xs) inn acked conv x' \<and> received (ep_kcp x) \<subseteq> received (ep_kcp x')"
  using assms(1)
proof cases
  case (send buffer ret k)
  have e: "endpoint_inv out (ep_sent x) acked inn (ep_got x) (ep_kcp x)" using x by (simp add: side_inv_def)
  note f = send_endpoint [OF e send(3,2,4)]
  have rc: "received k = received (ep_kcp x)" using f received_cong by blast
  have "side_inv (out @ []) inn acked conv x'"
    by (rule quiet_side [OF x]) (use f send(1) rc in simp_all)
  then show ?thesis using rc send(1) by (intro exI [of _ "[]"]) simp
next
  case (recv len ret bs k)
  have e: "endpoint_inv out (ep_sent x) acked inn (ep_got x) (ep_kcp x)" using x by (simp add: side_inv_def)
  note f = recv_endpoint [OF e recv(3,2)]
  have "side_inv (out @ []) inn acked conv x'"
    by (rule quiet_side [OF x]) (use f recv(1) in simp_all)
  then show ?thesis using f recv(1) by (intro exI [of _ "[]"]) simp
next
  case (input d ret k)
  have e: "endpoint_inv out (ep_sent x) acked inn (ep_got x) (ep_kcp x)" and c: "kc_conv (ep_kcp x) = conv"
    using x by (simp_all add: side_inv_def)
  have d: "datagram_ok (kc_conv (ep_kcp x)) inn acked d" using net input(2) c by simp
  note f = input_endpoint [OF e d input(3)]
  have "side_inv (out @ []) inn acked conv x'"
    by (rule quiet_side [OF x]) (use f input(1) in simp_all)
  then show ?thesis using f input(1) by (intro exI [of _ "[]"]) simp
next
  case (flush outs k)
  have e: "endpoint_inv out (ep_sent x) acked inn (ep_got x) (ep_kcp x)" using x by (simp add: side_inv_def)
  from flush_endpoint [OF e flush(2)] obtain xs where
    "flushed out (ep_sent x) acked inn (ep_got x) (ep_kcp x) outs xs k" ..
  from flushed_side [OF this x] show ?thesis using flush(1) by auto
next
  case (update current outs k)
  have e: "endpoint_inv out (ep_sent x) acked inn (ep_got x) (ep_kcp x)" using x by (simp add: side_inv_def)
  from update_endpoint [OF e update(2)] obtain xs where
    "flushed out (ep_sent x) acked inn (ep_got x) (ep_kcp x) outs xs k" ..
  from flushed_side [OF this x] show ?thesis using update(1) by auto
qed

lemma side_inv_peer:
  assumes "side_inv ly lx r conv y" and "r \<subseteq> r'" and "length (lx @ xs) \<le> 2 ^ 30"
  shows "side_inv ly (lx @ xs) r' conv y"
  using assms endpoint_inv_mono unfolding side_inv_def by blast

lemma side_inv_bound: "side_inv out inn r conv x \<Longrightarrow> length out \<le> 2 ^ 30"
  by (auto simp: side_inv_def endpoint_inv_def snd_inv_def)

lemma link_step_at:
  assumes inv: "link_inv_at conv l" and step: "link_step l l'"
  shows "link_inv_at conv l'"
proof -
  obtain lx ly where x: "side_inv lx ly (received (ep_kcp (snd l))) conv (fst l)"
    and y: "side_inv ly lx (received (ep_kcp (fst l))) conv (snd l)" using inv by (auto simp: link_inv_at_def)
  from step show ?thesis
  proof cases
    case (left ya xa x')
    have net: "\<forall>d\<in>set (ep_emitted ya). datagram_ok conv ly (received (ep_kcp ya)) d"
      using y left(1) by (simp add: side_inv_def)
    from ep_step_side [OF left(3) _ net] x left(1) obtain xs where
      "side_inv (lx @ xs) ly (received (ep_kcp ya)) conv x'" "received (ep_kcp xa) \<subseteq> received (ep_kcp x')" by auto
    moreover from this y have "side_inv ly (lx @ xs) (received (ep_kcp x')) conv ya"
      using side_inv_peer side_inv_bound left(1) by (metis fst_conv snd_conv)
    ultimately show ?thesis using left(2) by (auto simp: link_inv_at_def)
  next
    case (right xa ya y')
    have net: "\<forall>d\<in>set (ep_emitted xa). datagram_ok conv lx (received (ep_kcp xa)) d"
      using x right(1) by (simp add: side_inv_def)
    from ep_step_side [OF right(3) _ net] y right(1) obtain ys where
      "side_inv (ly @ ys) lx (received (ep_kcp xa)) conv y'" "received (ep_kcp ya) \<subseteq> received (ep_kcp y')" by auto
    moreover from this x have "side_inv lx (ly @ ys) (received (ep_kcp y')) conv xa"
      using side_inv_peer side_inv_bound right(1) by (metis fst_conv snd_conv)
    ultimately show ?thesis using right(2) by (auto simp: link_inv_at_def)
  qed
qed

lemma link_step_inv: "link_inv l \<Longrightarrow> link_step l l' \<Longrightarrow> link_inv l'"
  unfolding link_inv_def using link_step_at by blast

interpretation kcp_link: invariant_system "\<lambda>l. \<exists>c. l = new_link c" link_step link_inv
proof
  fix l assume "\<exists>c. l = new_link c"
  then show "link_inv l" using new_link_inv unfolding link_inv_def by blast
qed (rule link_step_inv)

interpretation kcp_link_at: invariant_system "\<lambda>l. l = new_link c" link_step "link_inv_at c" for c
  by unfold_locales (auto intro: new_link_inv link_step_at)

lemma reachable_link_inv: "link_step\<^sup>*\<^sup>* (new_link c) l \<Longrightarrow> link_inv l"
  using kcp_link.reachable_inv by blast

subsection \<open>Properties\<close>

lemma delivered_prefix:
  assumes x: "snd_inv out app r k" and y: "rcv_inv out got k'"
  shows "prefix got app"
proof -
  have "concat out = concat (take (rcv_pos k') out) @ concat (drop (rcv_pos k') out)"
    by (metis append_take_drop_id concat_append)
  then have "app = got @ (concat (map seg_bytes (kc_rcv_queue k')) @ concat (drop (rcv_pos k') out)
      @ queue_bytes (kc_snd_queue k))"
    using x y unfolding snd_inv_def rcv_inv_def by (metis append.assoc)
  then show ?thesis by (rule prefixI)
qed

text \<open>Sender idle and receiver queue empty: everything has been delivered.\<close>

lemma idle_delivered:
  assumes x: "snd_inv out app (received k') k" and y: "rcv_inv out got k'" and d: "drained k'"
    and idle: "ikcp_waitsnd k = 0" and empty: "kc_rcv_queue k' = []"
  shows "got = app"
proof -
  have lo: "length out + length (kc_snd_queue k) \<le> 2 ^ 30" using x by (simp add: snd_inv_def)
  have "card (seq ` set (kc_snd_buf k)) = length (kc_snd_buf k)"
    using x distinct_card [of "map seq (kc_snd_buf k)"] by (simp add: snd_inv_def strict_sorted_iff)
  moreover have "seq ` set (kc_snd_buf k) \<subseteq> {..<length out}"
    using x by (auto simp: snd_inv_def carries_def)
  ultimately have "length (kc_snd_buf k) \<le> length out"
    by (metis card_mono card_lessThan finite_lessThan)
  then have small: "length (kc_snd_buf k) + length (kc_snd_queue k) < 2 ^ 32" using lo by simp
  have "kc_nsnd_buf k + kc_nsnd_que k = word_of_nat (length (kc_snd_buf k) + length (kc_snd_queue k))"
    using x by (simp add: snd_inv_def)
  moreover have "kc_nsnd_buf k + kc_nsnd_que k = 0"
    using idle by (simp add: ikcp_waitsnd_def signed_eq_0_iff)
  ultimately have "length (kc_snd_buf k) + length (kc_snd_queue k) = 0"
    using small word_of_nat_inj32 [of "length (kc_snd_buf k) + length (kc_snd_queue k)" 0] by simp
  then have q: "kc_snd_buf k = []" "kc_snd_queue k = []" by simp_all
  then have all: "\<forall>n<length out. n \<in> received k'" using x by (simp add: snd_inv_def)
  have "length out \<le> rcv_pos k'" using drained_pos [OF y d empty all] .
  then have "rcv_pos k' = length out" using y by (simp add: rcv_inv_def)
  then show ?thesis using x y q empty by (simp add: snd_inv_def rcv_inv_def)
qed

lemma link_sides:
  assumes "link_inv l"
  obtains lx ly where
    "endpoint_inv lx (ep_sent (fst l)) (received (ep_kcp (snd l))) ly (ep_got (fst l)) (ep_kcp (fst l))"
    "endpoint_inv ly (ep_sent (snd l)) (received (ep_kcp (fst l))) lx (ep_got (snd l)) (ep_kcp (snd l))"
  using assms by (auto simp: link_inv_def link_inv_at_def side_inv_def)

lemma link_prefix:
  assumes "link_inv (x, y)"
  shows "prefix (ep_got y) (ep_sent x)" and "prefix (ep_got x) (ep_sent y)"
proof -
  obtain lx ly where "endpoint_inv lx (ep_sent x) (received (ep_kcp y)) ly (ep_got x) (ep_kcp x)"
    "endpoint_inv ly (ep_sent y) (received (ep_kcp x)) lx (ep_got y) (ep_kcp y)"
    using link_sides [OF assms] by auto
  then show "prefix (ep_got y) (ep_sent x)" "prefix (ep_got x) (ep_sent y)"
    using delivered_prefix unfolding endpoint_inv_def by blast+
qed

lemma link_idle:
  assumes "link_inv (x, y)" and "ikcp_waitsnd (ep_kcp x) = 0" and "kc_rcv_queue (ep_kcp y) = []"
  shows "ep_got y = ep_sent x"
proof -
  obtain lx ly where "endpoint_inv lx (ep_sent x) (received (ep_kcp y)) ly (ep_got x) (ep_kcp x)"
    "endpoint_inv ly (ep_sent y) (received (ep_kcp x)) lx (ep_got y) (ep_kcp y)"
    using link_sides [OF assms(1)] by auto
  then show ?thesis using idle_delivered assms(2,3) unfolding endpoint_inv_def by blast
qed

text \<open>C4: over a network that may lose, duplicate, delay and reorder datagrams, the bytes KCP has
  delivered to an application are at every moment a prefix of the bytes the other application sent, in
  both directions: nothing is corrupted, reordered, repeated or skipped.\<close>

theorem kcp_delivers_prefix:
  assumes "link_step\<^sup>*\<^sup>* (new_link conv) (x, y)"
  shows "prefix (ep_got y) (ep_sent x) \<and> prefix (ep_got x) (ep_sent y)"
  using link_prefix [OF reachable_link_inv [OF assms]] by blast

text \<open>C5: \<open>ikcp_waitsnd\<close> is a reliable sign of completion.  When the sender's count is 0 and the receiving
  application has emptied its queue, every byte ever sent has been delivered: an endpoint forgets a
  segment only when its peer has it.\<close>

theorem kcp_idle_means_delivered:
  assumes "link_step\<^sup>*\<^sup>* (new_link conv) (x, y)"
    and "ikcp_waitsnd (ep_kcp x) = 0" and "kc_rcv_queue (ep_kcp y) = []"
  shows "ep_got y = ep_sent x"
  using link_idle [OF reachable_link_inv [OF assms(1)] assms(2,3)] .

text \<open>C15: every datagram a flush emits is a sequence of complete segments of the connection and is not
  longer than the configured MTU, in every reachable state.\<close>

theorem kcp_flush_fits_mtu:
  assumes "link_step\<^sup>*\<^sup>* (new_link conv) (x, y)" and "ikcp_flush (ep_kcp x) = (outs, k)"
  shows "\<forall>d\<in>set outs. length d \<le> unat (kc_mtu (ep_kcp x))
    \<and> (\<exists>segs. d = concat (map wire segs) \<and> (\<forall>s\<in>set segs. sendable (kc_conv (ep_kcp x)) s))"
proof -
  obtain lx ly where "endpoint_inv lx (ep_sent x) (received (ep_kcp y)) ly (ep_got x) (ep_kcp x)"
    by (rule link_sides [OF reachable_link_inv [OF assms(1)]]) auto
  from flush_endpoint [OF this assms(2)] show ?thesis
    unfolding flushed_def datagram_ok_def segment_ok_def by meson
qed

subsection \<open>A complete exchange\<close>

definition ep_send :: "byte list \<Rightarrow> endpoint \<Rightarrow> endpoint" where
  "ep_send buffer x = (case ikcp_send (ep_kcp x) buffer (int (length buffer)) of
     (ret, k) \<Rightarrow> x\<lparr>ep_kcp := k, ep_sent := ep_sent x @ take (nat ret) buffer\<rparr>)"

definition ep_recv :: "endpoint \<Rightarrow> endpoint" where
  "ep_recv x = (case ikcp_recv (ep_kcp x) 4096 of (ret, bs, k) \<Rightarrow> x\<lparr>ep_kcp := k, ep_got := ep_got x @ bs\<rparr>)"

definition ep_input :: "byte list \<Rightarrow> endpoint \<Rightarrow> endpoint" where
  "ep_input d x = x\<lparr>ep_kcp := snd (ikcp_input (ep_kcp x) d)\<rparr>"

definition ep_update :: "u32 \<Rightarrow> endpoint \<Rightarrow> endpoint" where
  "ep_update now x = (case ikcp_update (ep_kcp x) now of
     (outs, k) \<Rightarrow> x\<lparr>ep_kcp := k, ep_emitted := ep_emitted x @ outs\<rparr>)"

lemma ep_steps:
  "length buffer < 2 ^ 31 \<Longrightarrow>
     unat (kc_snd_nxt (ep_kcp (ep_send buffer x))) + length (kc_snd_queue (ep_kcp (ep_send buffer x))) \<le> 2 ^ 30 \<Longrightarrow>
     ep_step net x (ep_send buffer x)"
  "ep_step net x (ep_recv x)"
  "net \<noteq> [] \<Longrightarrow> ep_step net x (ep_input (hd net) x)"
  "ep_step net x (ep_update now x)"
proof -
  show "ep_step net x (ep_send buffer x)" if "length buffer < 2 ^ 31"
    "unat (kc_snd_nxt (ep_kcp (ep_send buffer x))) + length (kc_snd_queue (ep_kcp (ep_send buffer x))) \<le> 2 ^ 30"
    using that ep_step.send by (simp add: ep_send_def split: prod.splits)
  show "ep_step net x (ep_recv x)" using ep_step.recv by (simp add: ep_recv_def split: prod.splits)
  show "ep_step net x (ep_input (hd net) x)" if "net \<noteq> []"
    unfolding ep_input_def by (rule ep_step.input [OF hd_in_set [OF that] prod.collapse [symmetric]])
  show "ep_step net x (ep_update now x)" using ep_step.update by (simp add: ep_update_def split: prod.splits)
qed

text \<open>One framed message travels from the first endpoint to the second and is acknowledged.\<close>

definition demo_sender :: endpoint where
  "demo_sender = ep_update 100 (ep_send [3, 0, 0, 0, 1, 2, 3] (new_endpoint 0))"

definition demo_receiver :: endpoint where
  "demo_receiver = ep_update 120 (ep_recv (ep_input (hd (ep_emitted demo_sender)) (new_endpoint 0)))"

definition demo_done :: endpoint where
  "demo_done = ep_input (hd (ep_emitted demo_receiver)) demo_sender"

lemma demo_emits: "ep_emitted demo_sender \<noteq> []"
  by code_simp

text \<open>The facts about the end of the exchange are evaluated together.\<close>

definition demo_ends :: "endpoint \<Rightarrow> bool" where
  "demo_ends y \<longleftrightarrow> ep_emitted y \<noteq> [] \<and> kc_rcv_queue (ep_kcp y) = []
     \<and> ikcp_waitsnd (ep_kcp (ep_input (hd (ep_emitted y)) demo_sender)) = 0"

lemma demo_end: "demo_ends demo_receiver"
  by code_simp

lemma demo_answers: "ep_emitted demo_receiver \<noteq> []"
  and demo_empty: "kc_rcv_queue (ep_kcp demo_receiver) = []"
  and demo_idle: "ikcp_waitsnd (ep_kcp demo_done) = 0"
  using demo_end by (simp_all add: demo_ends_def demo_done_def)

lemma demo_sender_sent: "ep_sent demo_sender = [3, 0, 0, 0, 1, 2, 3]"
  by code_simp

lemma demo_sent: "ep_sent demo_done = [3, 0, 0, 0, 1, 2, 3]"
  by (simp add: demo_done_def ep_input_def demo_sender_sent)

lemma demo_room:
  "unat (kc_snd_nxt (ep_kcp (ep_send [3, 0, 0, 0, 1, 2, 3] (new_endpoint 0))))
     + length (kc_snd_queue (ep_kcp (ep_send [3, 0, 0, 0, 1, 2, 3] (new_endpoint 0)))) \<le> 1"
  by code_simp

lemma demo_started: "link_step\<^sup>*\<^sup>* (new_link 0) (demo_sender, new_endpoint 0)"
proof -
  let ?x = "new_endpoint 0"
  have s1: "link_step (?x, ?x) (ep_send [3, 0, 0, 0, 1, 2, 3] ?x, ?x)"
    by (intro link_step.left ep_steps) (use demo_room in simp_all)
  have s2: "link_step (ep_send [3, 0, 0, 0, 1, 2, 3] ?x, ?x) (demo_sender, ?x)"
    unfolding demo_sender_def by (intro link_step.left ep_steps)
  show ?thesis unfolding new_link_def using s1 s2 by (meson converse_rtranclp_into_rtranclp rtranclp.rtrancl_refl)
qed

lemma demo_reachable: "link_step\<^sup>*\<^sup>* (new_link 0) (demo_done, demo_receiver)"
proof -
  let ?y = "new_endpoint 0"
  have s3: "link_step (demo_sender, ?y) (demo_sender, ep_input (hd (ep_emitted demo_sender)) ?y)"
    by (intro link_step.right ep_steps demo_emits demo_answers)
  have s4: "link_step (demo_sender, ep_input (hd (ep_emitted demo_sender)) ?y)
      (demo_sender, ep_recv (ep_input (hd (ep_emitted demo_sender)) ?y))"
    by (intro link_step.right ep_steps)
  have s5: "link_step (demo_sender, ep_recv (ep_input (hd (ep_emitted demo_sender)) ?y)) (demo_sender, demo_receiver)"
    unfolding demo_receiver_def by (intro link_step.right ep_steps)
  have s6: "link_step (demo_sender, demo_receiver) (demo_done, demo_receiver)"
    unfolding demo_done_def by (intro link_step.left ep_steps demo_emits demo_answers)
  show ?thesis
    using demo_started s3 s4 s5 s6 by (meson rtranclp.rtrancl_into_rtrancl)
qed

theorem kcp_delivers_prefix_witness:
  "prefix (ep_got demo_receiver) (ep_sent demo_done) \<and> prefix (ep_got demo_done) (ep_sent demo_receiver)"
  by (rule kcp_delivers_prefix [OF demo_reachable])

theorem kcp_idle_means_delivered_witness: "ep_got demo_receiver = [3, 0, 0, 0, 1, 2, 3]"
  using kcp_idle_means_delivered [OF demo_reachable demo_idle demo_empty] demo_sent by simp

theorem kcp_flush_fits_mtu_witness:
  "list_all (\<lambda>d. length d \<le> unat (kc_mtu (ep_kcp demo_done))) (fst (ikcp_flush (ep_kcp demo_done)))"
  using kcp_flush_fits_mtu [OF demo_reachable prod.collapse [symmetric]] by (simp add: list_all_iff)

end
