(* ===== verification/Kcp_Control.thy ===== *)
theory Kcp_Control
  imports Kcp_Link
begin

text \<open>
  What no operation of KCP changes, whatever arrives from the network: the configuration of a control
  block, the bounds of its retransmission timeout, and \<open>snd_una\<close> as the number of the first segment that
  waits for its acknowledgement.  Unlike the invariant of \<^theory_text>\<open>Kcp_Endpoint\<close> this does not depend on
  the peer: it also holds for forged and damaged datagrams.
\<close>

subsection \<open>The invariant\<close>

definition config_part :: "IKCPCB \<Rightarrow> (u32 \<times> u32 \<times> u32 \<times> u32 \<times> u32) \<times> (int \<times> int \<times> u32 \<times> u32) \<times> int \<times> int \<times> u32 \<times> int" where
  "config_part k = ((kc_conv k, kc_mtu k, kc_mss k, kc_snd_wnd k, kc_rcv_wnd k),
     (kc_nocwnd k, kc_stream k, kc_nodelay k, kc_interval k), kc_fastresend k, kc_fastlimit k, kc_dead_link k, kc_rx_minrto k)"

definition una_first :: "IKCPCB \<Rightarrow> bool" where
  "una_first k \<longleftrightarrow> (kc_snd_buf k = [] \<longrightarrow> kc_snd_una k = kc_snd_nxt k)
     \<and> (kc_snd_buf k \<noteq> [] \<longrightarrow> kc_snd_una k = sg_sn (hd (kc_snd_buf k)))"

definition rto_bounded :: "IKCPCB \<Rightarrow> bool" where
  "rto_bounded k \<longleftrightarrow> 30 \<le> kc_rx_minrto k \<and> kc_rx_minrto k \<le> 100 \<and> 30 \<le> kc_rx_rto k \<and> kc_rx_rto k \<le> 60000"

text \<open>One control block follows from another by something KCP does.\<close>

definition keeps :: "IKCPCB \<Rightarrow> IKCPCB \<Rightarrow> bool" where
  "keeps k k' \<longleftrightarrow> config_part k' = config_part k \<and> (una_first k \<longrightarrow> una_first k') \<and> (rto_bounded k \<longrightarrow> rto_bounded k')
     \<and> (kc_updated k \<noteq> 0 \<longrightarrow> kc_updated k' \<noteq> 0)"

lemma keeps_refl [simp, intro!]: "keeps k k"
  by (simp add: keeps_def)

lemma keeps_trans: "keeps k1 k2 \<Longrightarrow> keeps k2 k3 \<Longrightarrow> keeps k1 k3"
  by (auto simp: keeps_def)

text \<open>It is enough to look at the fields involved.\<close>

lemma keeps_same:
  assumes "config_part k' = config_part k" and "kc_snd_una k' = kc_snd_una k" and "kc_snd_nxt k' = kc_snd_nxt k"
    and "kc_snd_buf k' = kc_snd_buf k" and "kc_rx_rto k' = kc_rx_rto k" and "kc_updated k \<noteq> 0 \<longrightarrow> kc_updated k' \<noteq> 0"
  shows "keeps k k'"
  using assms by (simp add: keeps_def una_first_def rto_bounded_def config_part_def)

subsection \<open>The operations\<close>

lemma keeps_send_fragments: "send_fragments n k buffer len sent = (ret, k') \<Longrightarrow> keeps k k'"
proof (induction n arbitrary: k buffer len sent)
  case (Suc n)
  from Suc.prems obtain seg buffer' len' sent' where
    "send_fragments n (k\<lparr>kc_snd_queue := kc_snd_queue k @ [seg], kc_nsnd_que := kc_nsnd_que k + 1\<rparr>) buffer' len' sent' = (ret, k')"
    by (auto simp: Let_def)
  from Suc.IH [OF this] show ?case
    by (rule keeps_trans [rotated]) (simp add: keeps_same config_part_def)
qed simp

lemma keeps_send: "ikcp_send k buffer len = (ret, k') \<Longrightarrow> keeps k k'"
proof -
  assume r: "ikcp_send k buffer len = (ret, k')"
  obtain k1 buffer1 len1 sent where e: "send_extend k buffer len = (k1, buffer1, len1, sent)" by (rule prod_cases4)
  have k1: "keeps k k1" using e by (auto simp: send_extend_def Let_def config_part_def intro!: keeps_same split: if_splits)
  have "keeps k1 k'" if "len \<ge> 0"
    using r that e keeps_send_fragments [of _ k1] by (auto simp: ikcp_send_def Let_def split: if_splits)
  with k1 r show ?thesis by (cases "len \<ge> 0") (auto simp: ikcp_send_def intro: keeps_trans)
qed

lemma keeps_move_rcv_buf: "keeps k (move_rcv_buf k)"
proof (induction k rule: move_rcv_buf.induct)
  case (1 k)
  show ?case
  proof (cases "\<exists>seg rest. kc_rcv_buf k = seg # rest \<and> sg_sn seg = kc_rcv_nxt k \<and> kc_nrcv_que k < kc_rcv_wnd k")
    case True
    then obtain seg rest where s: "kc_rcv_buf k = seg # rest" "sg_sn seg = kc_rcv_nxt k \<and> kc_nrcv_que k < kc_rcv_wnd k" by blast
    have "keeps k (move_one k seg rest)" by (simp add: keeps_same config_part_def)
    with "1.IH" [OF s] s show ?thesis by (subst move_rcv_buf.simps) (auto intro: keeps_trans)
  next
    case False
    then show ?thesis by (subst move_rcv_buf.simps) (auto split: list.splits)
  qed
qed

lemma keeps_recv: "ikcp_recv k len = (ret, bs, k') \<Longrightarrow> keeps k k'"
proof -
  assume r: "ikcp_recv k len = (ret, bs, k')"
  obtain segs rest where m: "merge_fragment (kc_rcv_queue k) = (segs, rest)" by (rule prod.exhaust)
  let ?k1 = "\<lambda>peek. if peek then k else k\<lparr>kc_rcv_queue := rest, kc_nrcv_que := kc_nrcv_que k - word_of_nat (length segs)\<rparr>"
  have "keeps k (?k1 p)" for p by (simp add: keeps_same config_part_def)
  then have "keeps k (move_rcv_buf (?k1 p))" for p using keeps_move_rcv_buf keeps_trans by blast
  then have k2: "keeps k (move_rcv_buf k)" "keeps k (move_rcv_buf (?k1 False))" using keeps_move_rcv_buf by simp_all (metis)
  have "keeps j (j\<lparr>kc_probe := w\<rparr>)" for j w by (simp add: keeps_same config_part_def)
  with k2 have "keeps k ((move_rcv_buf k)\<lparr>kc_probe := w\<rparr>)" "keeps k ((move_rcv_buf (?k1 False))\<lparr>kc_probe := w\<rparr>)" for w
    using keeps_trans by blast+
  with k2 r m show ?thesis by (auto simp: ikcp_recv_def Let_def split: if_splits)
qed

lemma keeps_shrink: "keeps k (ikcp_shrink_buf k)"
  by (auto simp: keeps_def ikcp_shrink_buf_def config_part_def una_first_def rto_bounded_def split: list.splits)

lemma una_first_shrink: "una_first (ikcp_shrink_buf k)"
  by (auto simp: ikcp_shrink_buf_def una_first_def split: list.splits)

lemma sint_ibound:
  assumes "30 \<le> m" and "m \<le> 100"
  shows "30 \<le> sint (ibound (word_of_int m) w IKCP_RTO_MAX)" and "sint (ibound (word_of_int m) w IKCP_RTO_MAX) \<le> 60000"
proof -
  have "30 \<le> (word_of_int m :: u32)" using assms by (simp add: word_le_def uint_word_of_int_eq take_bit_int_eq_self)
  then have b: "30 \<le> ibound (word_of_int m) w IKCP_RTO_MAX" "ibound (word_of_int m) w IKCP_RTO_MAX \<le> 60000"
    by (auto simp: ibound_def imin_def imax_def IKCP_RTO_MAX_def)
  then have "uint (ibound (word_of_int m) w IKCP_RTO_MAX) \<ge> 30" "uint (ibound (word_of_int m) w IKCP_RTO_MAX) \<le> 60000"
    by (simp_all add: word_le_def)
  moreover from this have "sint (ibound (word_of_int m) w IKCP_RTO_MAX) = uint (ibound (word_of_int m) w IKCP_RTO_MAX)"
    by (simp add: sint_uint signed_take_bit_int_eq_self)
  ultimately show "30 \<le> sint (ibound (word_of_int m) w IKCP_RTO_MAX)" and "sint (ibound (word_of_int m) w IKCP_RTO_MAX) \<le> 60000"
    by simp_all
qed

lemma keeps_update_ack: "keeps k (ikcp_update_ack k rtt)"
  by (auto simp: keeps_def ikcp_update_ack_def config_part_def una_first_def rto_bounded_def Let_def sint_ibound)

text \<open>Round trips up to a day never leave the range of the 32-bit arithmetic: the estimates are the weighted means.
  A peer that echoes a time stamp of its own choice can leave it: two acknowledgements whose round trip
  is $2^{30}$ ms overflow the estimate, which wraps to 1 ms.\<close>

lemma update_ack_exact:
  assumes "0 \<le> rtt" "rtt < 2 ^ 27" "0 < kc_rx_srtt k" "kc_rx_srtt k < 2 ^ 27" "0 \<le> kc_rx_rttval k" "kc_rx_rttval k < 2 ^ 27"
  shows "kc_rx_srtt (ikcp_update_ack k rtt) = max 1 ((7 * kc_rx_srtt k + rtt) div 8)"
    and "kc_rx_rttval (ikcp_update_ack k rtt) = (3 * kc_rx_rttval k + \<bar>rtt - kc_rx_srtt k\<bar>) div 4"
    and "kc_rx_srtt (ikcp_update_ack k rtt) < 2 ^ 27 \<and> kc_rx_rttval (ikcp_update_ack k rtt) < 2 ^ 27"
proof -
  have "i32 (rtt - kc_rx_srtt k) = rtt - kc_rx_srtt k" "i32 (- (rtt - kc_rx_srtt k)) = kc_rx_srtt k - rtt"
    "i32 (7 * kc_rx_srtt k + rtt) = 7 * kc_rx_srtt k + rtt" 
    "i32 (3 * kc_rx_rttval k + (rtt - kc_rx_srtt k)) = 3 * kc_rx_rttval k + (rtt - kc_rx_srtt k)"
    "i32 (3 * kc_rx_rttval k + (kc_rx_srtt k - rtt)) = 3 * kc_rx_rttval k + (kc_rx_srtt k - rtt)"
    using assms by (subst i32_id; simp)+
  moreover have "x sdiv n = x div n" if "0 \<le> x" "0 < n" for x n :: int
    using that by (simp add: signed_divide_int_def sgn_if)
  ultimately show "kc_rx_srtt (ikcp_update_ack k rtt) = max 1 ((7 * kc_rx_srtt k + rtt) div 8)"
    "kc_rx_rttval (ikcp_update_ack k rtt) = (3 * kc_rx_rttval k + \<bar>rtt - kc_rx_srtt k\<bar>) div 4"
    using assms by (auto simp: ikcp_update_ack_def Let_def)
  moreover have "(7 * kc_rx_srtt k + rtt) div 8 < 2 ^ 27" "(3 * kc_rx_rttval k + \<bar>rtt - kc_rx_srtt k\<bar>) div 4 < 2 ^ 27"
    using assms by simp_all
  ultimately show "kc_rx_srtt (ikcp_update_ack k rtt) < 2 ^ 27 \<and> kc_rx_rttval (ikcp_update_ack k rtt) < 2 ^ 27"
    by simp
qed

lemma update_ack_overflow:
  "kc_rx_srtt (ikcp_update_ack (k\<lparr>kc_rx_srtt := 2 ^ 30\<rparr>) (2 ^ 30)) = 1"
  by (simp add: ikcp_update_ack_def Let_def i32_def)

text \<open>\<open>ikcp_input\<close> calls \<open>ikcp_shrink_buf\<close> after each change of the send buffer.\<close>

lemma keeps_parse_una: "keeps k (ikcp_shrink_buf (ikcp_parse_una k una))"
  using una_first_shrink
  by (auto simp: keeps_def ikcp_parse_una_def ikcp_shrink_buf_def config_part_def rto_bounded_def split: prod.splits list.splits)

lemma keeps_parse_ack: "keeps k (ikcp_shrink_buf (ikcp_parse_ack k sn))"
  using una_first_shrink
  by (auto simp: keeps_def ikcp_parse_ack_def ikcp_shrink_buf_def config_part_def rto_bounded_def
      split: prod.splits list.splits option.splits)

lemma fastack_loop_hd: "fastack_loop sn ts q = [] \<longleftrightarrow> q = []" "q \<noteq> [] \<Longrightarrow> sg_sn (hd (fastack_loop sn ts q)) = sg_sn (hd q)"
  by (cases q; simp)+

lemma keeps_parse_fastack: "keeps k (ikcp_parse_fastack k sn ts)"
  by (auto simp: keeps_def ikcp_parse_fastack_def config_part_def una_first_def rto_bounded_def fastack_loop_hd)

lemma keeps_parse_data: "keeps k (ikcp_parse_data k s)"
proof -
  have "keeps k (k\<lparr>kc_rcv_buf := r, kc_nrcv_buf := n\<rparr>)" for r n by (simp add: keeps_same config_part_def)
  then show ?thesis using keeps_move_rcv_buf by (auto simp: ikcp_parse_data_def Let_def split: option.splits intro: keeps_trans)
qed

lemma keeps_input_push: "keeps k (input_push k h bs)"
proof -
  have "keeps k (ikcp_ack_push k sn ts)" for sn ts by (auto simp: keeps_same config_part_def ikcp_ack_push_def Let_def)
  then have "keeps k (ikcp_parse_data (ikcp_ack_push k sn ts) s)" for sn ts s using keeps_parse_data keeps_trans by blast
  with \<open>\<And>sn ts. keeps k (ikcp_ack_push k sn ts)\<close> show ?thesis by (auto simp: input_push_def Let_def)
qed

lemma keeps_input_segment: "keeps (fst st) (fst (input_segment h bs st))"
proof -
  obtain k acc where st: "st = (k, acc)" by (rule prod.exhaust)
  define k1 where "k1 = ikcp_shrink_buf (ikcp_parse_una (k\<lparr>kc_rmt_wnd := ucast (h_wnd h)\<rparr>) (h_una h))"
  have "keeps k (k\<lparr>kc_rmt_wnd := ucast (h_wnd h)\<rparr>)" by (simp add: keeps_same config_part_def)
  then have k1: "keeps k k1" unfolding k1_def using keeps_parse_una by (rule keeps_trans)
  have "keeps k1 (k1\<lparr>kc_probe := w\<rparr>)" for w by (simp add: keeps_same config_part_def)
  moreover have "keeps k1 (input_ack k1 h)"
    using keeps_update_ack [of k1] keeps_parse_ack by (auto simp: input_ack_def Let_def intro: keeps_trans)
  ultimately have "keeps k1 (fst (input_segment h bs st))"
    using keeps_input_push [of k1 h bs] by (simp add: input_segment_def st flip: k1_def)
  with k1 show ?thesis unfolding st fst_conv by (rule keeps_trans)
qed

lemma keeps_input_loop: "input_loop data st = (ret, st') \<Longrightarrow> keeps (fst st) (fst st')"
proof (induction data st rule: input_loop.induct)
  case (1 data st)
  obtain h data1 where d: "decode_header data = (h, data1)" by (rule prod.exhaust)
  show ?case
  proof (cases "int (length data) < sint IKCP_OVERHEAD \<or> h_conv h \<noteq> kc_conv (fst st) \<or> int (length data1) < sint (h_len h)
      \<or> sint (h_len h) < 0 \<or> \<not> known_cmd (h_cmd h)")
    case True
    then have "st' = st" using "1.prems" by (subst (asm) input_loop.simps) (auto simp: d split: if_splits)
    then show ?thesis by simp
  next
    case False
    then have n: "\<not> int (length data) < sint IKCP_OVERHEAD" "\<not> h_conv h \<noteq> kc_conv (fst st)"
      "\<not> (int (length data1) < sint (h_len h) \<or> sint (h_len h) < 0)" "\<not> \<not> known_cmd (h_cmd h)" by blast+
    have "input_loop (drop (unat (h_len h)) data1) (input_segment h (take (unat (h_len h)) data1) st) = (ret, st')"
      using "1.prems" n by (subst (asm) input_loop.simps) (simp add: d)
    from "1.IH" [OF n(1) d [symmetric] refl n(2,3,4) this] show ?thesis using keeps_input_segment keeps_trans by blast
  qed
qed

lemma keeps_grow_cwnd: "keeps k (grow_cwnd k)"
  by (auto simp: grow_cwnd_def Let_def config_part_def intro!: keeps_same)

lemma keeps_input: "ikcp_input k data = (ret, k') \<Longrightarrow> keeps k k'"
proof -
  assume r: "ikcp_input k data = (ret, k')"
  have k0: "keeps k (k\<lparr>kc_ackedlen := 0\<rparr>)" by (simp add: keeps_same config_part_def)
  obtain ret1 k1 flag maxack ts where l: "input_loop data (k\<lparr>kc_ackedlen := 0\<rparr>, (False, 0, 0)) = (ret1, k1, (flag, maxack, ts))"
    by (rule prod_cases5)
  from keeps_input_loop [OF l] have k1: "keeps k k1" using k0 by (auto intro: keeps_trans)
  then have k2: "keeps k (ikcp_parse_fastack k1 maxack ts)" using keeps_parse_fastack keeps_trans by blast
  from k1 k2 have "keeps k (grow_cwnd k1)" "keeps k (grow_cwnd (ikcp_parse_fastack k1 maxack ts))"
    using keeps_grow_cwnd keeps_trans by blast+
  with k0 k1 k2 r l show ?thesis by (auto simp: ikcp_input_def Let_def split: if_splits)
qed

subsection \<open>Flush and update\<close>

lemma keeps_move_snd_queue: "keeps k (move_snd_queue cwnd wnd k)"
proof (induction cwnd wnd k rule: move_snd_queue.induct)
  case (1 cwnd wnd k)
  show ?case
  proof (cases "itimediff (kc_snd_nxt k) (kc_snd_una k + cwnd) < 0 \<and> kc_snd_queue k \<noteq> []")
    case True
    then obtain s rest where q: "itimediff (kc_snd_nxt k) (kc_snd_una k + cwnd) < 0" "kc_snd_queue k = s # rest" by (auto simp: neq_Nil_conv)
    let ?k = "k\<lparr>kc_snd_queue := rest, kc_snd_buf := kc_snd_buf k @ [number_segment k wnd s], kc_nsnd_que := kc_nsnd_que k - 1,
      kc_nsnd_buf := kc_nsnd_buf k + 1, kc_snd_nxt := kc_snd_nxt k + 1\<rparr>"
    have "keeps k ?k" by (auto simp: keeps_def config_part_def una_first_def rto_bounded_def number_segment_def hd_append)
    with "1.IH" [OF q] q show ?thesis by (subst move_snd_queue.simps) (auto intro: keeps_trans)
  next
    case False
    then show ?thesis by (subst move_snd_queue.simps) (auto split: list.splits)
  qed
qed

text \<open>The loop over the send buffer without its local state: which segments are due, and what they become.\<close>

definition due :: "IKCPCB \<Rightarrow> IKCPSEG \<Rightarrow> bool" where
  "due k s \<longleftrightarrow> transmit_kind k s \<noteq> No_Send"

definition sent_as :: "IKCPCB \<Rightarrow> u32 \<Rightarrow> IKCPSEG \<Rightarrow> IKCPSEG" where
  "sent_as k wnd s = stamp k wnd (schedule k s)"

lemma counters_irrelevant:
  "due (k\<lparr>kc_xmit := x\<rparr>) = due k" "due (k\<lparr>kc_state := y\<rparr>) = due k"
  "sent_as (k\<lparr>kc_xmit := x\<rparr>) = sent_as k" "sent_as (k\<lparr>kc_state := y\<rparr>) = sent_as k"
  "put_data (k\<lparr>kc_xmit := x\<rparr>) = put_data k" "put_data (k\<lparr>kc_state := y\<rparr>) = put_data k"
  by (simp_all add: fun_eq_iff due_def sent_as_def stamp_def schedule_def transmit_kind_def resent_limit_def rto_min_def
      backoff_rto_def put_data_def make_room_def split: transmit.splits)

lemma flush_data_map:
  "flush_data wnd q (change, lost, k, acc) = (segs, change', lost', k', acc') \<Longrightarrow>
    segs = map (\<lambda>s. if due k s then sent_as k wnd s else s) q
    \<and> (\<exists>x y. k' = k\<lparr>kc_xmit := x, kc_state := y\<rparr>)
    \<and> acc' = fold (put_data k) (map (sent_as k wnd) (filter (due k) q)) acc"
proof (induction q arbitrary: change lost k acc segs)
  case Nil
  have "\<exists>x y. k = k\<lparr>kc_xmit := x, kc_state := y\<rparr>" by (rule exI [of _ "kc_xmit k"], rule exI [of _ "kc_state k"]) simp
  with Nil show ?case by simp
next
  case (Cons s q)
  define k1 where "k1 = (if transmit_kind k s = Timeout_Send then k\<lparr>kc_xmit := kc_xmit k + 1\<rparr> else k)"
  define s2 where "s2 = (if transmit_kind k s = No_Send then schedule k s else stamp k wnd (schedule k s))"
  define acc1 where "acc1 = (if transmit_kind k s = No_Send then acc else put_data k s2 acc)"
  define k2 where "k2 = (if transmit_kind k s \<noteq> No_Send \<and> sg_xmit s2 \<ge> kc_dead_link k then k1\<lparr>kc_state := - 1\<rparr> else k1)"
  obtain segs1 where tl: "flush_data wnd q (change \<or> transmit_kind k s = Fast_Send, lost \<or> transmit_kind k s = Timeout_Send, k2, acc1)
      = (segs1, change', lost', k', acc')" and segs: "segs = s2 # segs1"
    using Cons.prems unfolding flush_data.simps Let_def s2_def [symmetric] k1_def [symmetric] acc1_def [symmetric] k2_def [symmetric]
    by (auto split: prod.splits)
  have k2: "\<exists>x y. k2 = k\<lparr>kc_xmit := x, kc_state := y\<rparr>"
    by (rule exI [of _ "kc_xmit k2"], rule exI [of _ "kc_state k2"]) (simp add: k2_def k1_def)
  then have same: "due k2 = due k" "sent_as k2 = sent_as k" "put_data k2 = put_data k" by (auto simp: counters_irrelevant)
  have s2: "s2 = (if due k s then sent_as k wnd s else s)" "acc1 = (if due k s then put_data k (sent_as k wnd s) acc else acc)"
    by (auto simp: s2_def acc1_def due_def sent_as_def schedule_def)
  note ih = Cons.IH [OF tl, unfolded same]
  have "\<exists>x y. k' = k\<lparr>kc_xmit := x, kc_state := y\<rparr>" using ih k2 by fastforce
  with ih show ?case by (simp add: s2 segs)
qed

lemma keeps_flush_cwnd: "keeps k (flush_cwnd c change lost k)"
  by (auto simp: flush_cwnd_def after_change_def after_loss_def Let_def config_part_def intro!: keeps_same)

lemma keeps_flush: "ikcp_flush k = (outs, k') \<Longrightarrow> keeps k k'"
proof (cases "kc_updated k = 0")
  case False
  assume r: "ikcp_flush k = (outs, k')"
  obtain seg acc1 where a: "flush_acks k [0..<nat (sint (kc_ackcount k))] (ack_segment k, ([], [])) = (seg, acc1)"
    by (rule prod.exhaust)
  define k1 where "k1 = probe_timer (k\<lparr>kc_ackcount := 0\<rparr>)"
  define k3 where "k3 = move_snd_queue (send_window (k1\<lparr>kc_probe := 0\<rparr>)) (sg_wnd seg) (k1\<lparr>kc_probe := 0\<rparr>)"
  obtain segs change lost k4 acc3 where
    d: "flush_data (sg_wnd seg) (kc_snd_buf k3) (False, False, k3, flush_probes k1 seg acc1) = (segs, change, lost, k4, acc3)"
    by (rule prod_cases5)
  have k': "k' = flush_cwnd (kc_cwnd k) change lost (k4\<lparr>kc_snd_buf := segs\<rparr>)"
    using r False a d by (simp add: ikcp_flush_def Let_def flip: k1_def k3_def split: prod.splits)
  have "keeps k (k1\<lparr>kc_probe := 0\<rparr>)" by (auto simp: k1_def probe_timer_def Let_def config_part_def intro!: keeps_same)
  then have k3: "keeps k k3" unfolding k3_def using keeps_move_snd_queue by (rule keeps_trans)
  note f = flush_data_map [OF d]
  have f4: "keeps k3 k4" using f by (auto simp: config_part_def intro!: keeps_same)
  have "kc_snd_buf k4 = kc_snd_buf k3" using f by auto
  then have sn: "map sg_sn segs = map sg_sn (kc_snd_buf k4)"
    using f by (auto simp: sent_as_def stamp_def schedule_def split: transmit.splits)
  have "segs = [] \<longleftrightarrow> kc_snd_buf k4 = []" using sn by (metis map_is_Nil_conv)
  moreover have "segs \<noteq> [] \<Longrightarrow> sg_sn (hd segs) = sg_sn (hd (kc_snd_buf k4))" using sn by (metis list.map_sel(1) map_is_Nil_conv)
  ultimately have "keeps k4 (k4\<lparr>kc_snd_buf := segs\<rparr>)" by (auto simp: keeps_def config_part_def una_first_def rto_bounded_def)
  then have "keeps k (k4\<lparr>kc_snd_buf := segs\<rparr>)" using k3 f4 keeps_trans by blast
  then show ?thesis unfolding k' using keeps_flush_cwnd by (rule keeps_trans)
qed (simp add: ikcp_flush_def)

lemma keeps_update: "ikcp_update k current = (outs, k') \<Longrightarrow> keeps k k'"
proof -
  assume r: "ikcp_update k current = (outs, k')"
  obtain slap k3 where c: "update_clock k current = (slap, k3)" by (rule prod.exhaust)
  have k3: "keeps k (k3\<lparr>kc_ts_flush := x\<rparr>)" for x
    using c by (auto simp: update_clock_def Let_def config_part_def intro!: keeps_same split: if_splits)
  then have "keeps k k3" using k3 [of "kc_ts_flush k3"] by simp
  moreover have "keeps k k'" if "ikcp_flush (k3\<lparr>kc_ts_flush := x\<rparr>) = (outs, k')" for x
    using keeps_trans [OF k3 keeps_flush [OF that]] .
  ultimately show ?thesis using r by (auto simp: ikcp_update_def c Let_def split: if_splits)
qed


text \<open>Everything a program or an attacker can do to a control block.\<close>

inductive kcp_op :: "IKCPCB \<Rightarrow> IKCPCB \<Rightarrow> bool" where
  send: "ikcp_send k buffer len = (ret, k') \<Longrightarrow> kcp_op k k'"
| recv: "ikcp_recv k len = (ret, bs, k') \<Longrightarrow> kcp_op k k'"
| input: "ikcp_input k data = (ret, k') \<Longrightarrow> kcp_op k k'"
| flush: "ikcp_flush k = (outs, k') \<Longrightarrow> kcp_op k k'"
| update: "ikcp_update k current = (outs, k') \<Longrightarrow> kcp_op k k'"

lemma kcp_op_keeps: "kcp_op k k' \<Longrightarrow> keeps k k'"
  by (induction rule: kcp_op.induct) (rule keeps_send keeps_recv keeps_input keeps_flush keeps_update; assumption)+

lemma new_stream_control:
  "una_first (new_stream c)" "rto_bounded (new_stream c)"
  "config_part (new_stream c) = ((c, 16384, 16360, 4096, 4096), (1, 1, 1, 10), 2, 5, 20, 30)"
  by (simp_all add: new_stream_def ikcp_create_def ikcp_nodelay_def ikcp_wndsize_def ikcp_setmtu_def clamp_interval_def imax_def
      una_first_def rto_bounded_def config_part_def Let_def IKCP_WND_RCV_def IKCP_OVERHEAD_def IKCP_RTO_DEF_def IKCP_RTO_NDL_def
      IKCP_FASTACK_LIMIT_def IKCP_DEADLINK_def)

definition control_inv :: "u32 \<Rightarrow> IKCPCB \<Rightarrow> bool" where
  "control_inv c k \<longleftrightarrow> config_part k = config_part (new_stream c) \<and> una_first k \<and> rto_bounded k"

interpretation control: invariant_system "\<lambda>k. k = new_stream c" kcp_op "control_inv c" for c
  by unfold_locales (auto simp: control_inv_def new_stream_control dest!: kcp_op_keeps simp: keeps_def)

subsection \<open>The next call of \<open>ikcp_update\<close>\<close>

lemma earliest_packet_bounds: "earliest_packet now q tm = Some p \<Longrightarrow> 0 < tm \<Longrightarrow> tm < 2 ^ 31 \<Longrightarrow> 0 < p \<and> p < 2 ^ 31"
  by (induction q arbitrary: tm) (auto simp: Let_def split: if_splits)

lemma itimediff_add: "- (2 ^ 31) \<le> a \<Longrightarrow> a < 2 ^ 31 \<Longrightarrow> itimediff (now + word_of_int a) now = a"
  by (simp add: itimediff_def sint_word_of_int_small)

lemma add_itimediff: "now + word_of_int (itimediff t now) = t"
  by (simp add: itimediff_def)

lemma check_cases:
  assumes "kc_updated k \<noteq> 0" and "0 < unat (kc_interval k)" and "unat (kc_interval k) \<le> 5000"
  shows "ikcp_check k now = now \<or>
    (\<exists>w f. ikcp_check k now = now + word_of_int w \<and> 0 < w \<and> w \<le> int (unat (kc_interval k)) \<and> w \<le> f \<and> f \<le> 10000
      \<and> kc_ts_flush k = now + word_of_int f)"
proof (cases "ikcp_check k now = now")
  case False
  define d where "d = itimediff now (kc_ts_flush k)"
  have d: "- 10000 \<le> d" "d < 0"
    using False assms(1) unfolding ikcp_check_def Let_def d_def by (auto split: if_splits)
  have ts: "kc_ts_flush k = now + word_of_int (- d)"
  proof -
    have "kc_ts_flush k + word_of_int d = now" unfolding d_def by (rule add_itimediff)
    then show ?thesis by (simp add: algebra_simps)
  qed
  have f: "itimediff (kc_ts_flush k) now = - d" unfolding ts using d by (intro itimediff_add) auto
  obtain p where p: "earliest_packet now (kc_snd_buf k) 0x7fffffff = Some p"
    using False assms(1) d unfolding ikcp_check_def Let_def d_def by (auto split: if_splits option.splits)
  have p0: "0 < p" "p < 2 ^ 31" using earliest_packet_bounds [OF p] by auto
  define m where "m = min p (- d)"
  have m: "0 < m" "m \<le> - d" using p0 d by (auto simp: m_def)
  have um: "uint (word_of_int m :: u32) = m" using m d by (simp add: uint_word_of_int_eq take_bit_int_eq_self)
  have "ikcp_check k now = now + (if word_of_int m \<ge> kc_interval k then kc_interval k else word_of_int m)"
    using False assms(1) d p f unfolding ikcp_check_def Let_def d_def [symmetric] m_def
    by (auto simp: min_def d_def split: if_splits)
  moreover have "(if word_of_int m \<ge> kc_interval k then kc_interval k else word_of_int m) = word_of_int (min (int (unat (kc_interval k))) m)"
    using um by (auto simp: word_le_def min_def)
  ultimately have "ikcp_check k now = now + word_of_int (min (int (unat (kc_interval k))) m)" by simp
  moreover have "0 < min (int (unat (kc_interval k))) m" using m assms(2) by (simp only: min_less_iff_conj of_nat_0_less_iff simp_thms)
  moreover have "min (int (unat (kc_interval k))) m \<le> int (unat (kc_interval k))" by (rule min.cobounded1)
  moreover have "min (int (unat (kc_interval k))) m \<le> - d" using m by linarith
  moreover have "- d \<le> 10000" using d by simp
  ultimately show ?thesis using ts by blast
qed simp

lemma early_update_quiet:
  assumes "kc_updated k \<noteq> 0" and "kc_ts_flush k = now + word_of_int f" and "0 \<le> itimediff t now" and "itimediff t now < f" and "f \<le> 10000"
  shows "fst (ikcp_update k t) = []"
proof -
  have "t = now + word_of_int (itimediff t now)" by (rule add_itimediff [symmetric])
  then have "t - kc_ts_flush k = word_of_int (itimediff t now - f)" using assms(2) by (simp add: algebra_simps)
  then have "itimediff t (kc_ts_flush k) = itimediff t now - f"
    using assms(3-5) unfolding itimediff_def [of t "kc_ts_flush k"] by (simp only:) (rule sint_word_of_int_small, auto)
  then show ?thesis using assms by (simp add: ikcp_update_def update_clock_def Let_def)
qed

subsection \<open>Properties\<close>

text \<open>C7: whatever is sent, received, and put on the network, forged datagrams included, the control block of
  a stream keeps its configuration; its retransmission timeout stays between the 30 ms of \<open>nodelay\<close> mode and
  60 s; and \<open>ikcp_check\<close> asks to be called again within the 10 ms interval, never after the next
  flush: a call of \<open>ikcp_update\<close> before that time emits nothing.  The round trip estimates are 32-bit signed
  numbers that wrap where a forged time stamp makes them overflow; the bounds hold all the same.\<close>

theorem kcp_timing_bounded:
  assumes "kcp_op\<^sup>*\<^sup>* (new_stream conv) k"
  shows "config_part k = ((conv, 16384, 16360, 4096, 4096), (1, 1, 1, 10), 2, 5, 20, 30)
    \<and> 30 \<le> kc_rx_rto k \<and> kc_rx_rto k \<le> 60000
    \<and> 0 \<le> itimediff (ikcp_check k now) now \<and> itimediff (ikcp_check k now) now \<le> 10
    \<and> (\<forall>t. kc_updated k \<noteq> 0 \<and> 0 \<le> itimediff t now \<and> itimediff t now < itimediff (ikcp_check k now) now
         \<longrightarrow> fst (ikcp_update k t) = [])"
proof -
  have inv: "control_inv conv k" using control.reachable_inv [OF refl assms] .
  then have cfg: "config_part k = ((conv, 16384, 16360, 4096, 4096), (1, 1, 1, 10), 2, 5, 20, 30)"
    by (simp add: control_inv_def new_stream_control)
  then have i: "unat (kc_interval k) = 10" by (simp add: config_part_def)
  show ?thesis
  proof (cases "kc_updated k = 0 \<or> ikcp_check k now = now")
    case True
    then have "ikcp_check k now = now" by (auto simp: ikcp_check_def)
    then show ?thesis using inv cfg by (auto simp: control_inv_def rto_bounded_def)
  next
    case False
    then obtain w f where w: "ikcp_check k now = now + word_of_int w" "0 < w" "w \<le> 10" "w \<le> f" "f \<le> 10000"
      "kc_ts_flush k = now + word_of_int f" using check_cases [of k now] i by auto
    have "itimediff (ikcp_check k now) now = w" unfolding w(1) using w(2,3) by (intro itimediff_add) auto
    then show ?thesis using inv cfg w False early_update_quiet [OF _ w(6) _ _ w(5)]
      by (auto simp: control_inv_def rto_bounded_def)
  qed
qed

lemma kcp_timing_bounded_witness:
  "kc_rx_rto (snd (ikcp_input (new_stream 7) [1, 2, 3])) \<le> 60000 \<and> itimediff (ikcp_check (snd (ikcp_input (new_stream 7) [1, 2, 3])) 5) 5 \<le> 10"
proof -
  have "kcp_op\<^sup>*\<^sup>* (new_stream 7) (snd (ikcp_input (new_stream 7) [1, 2, 3]))"
    by (rule r_into_rtranclp, rule kcp_op.input [OF prod.collapse [symmetric]])
  from kcp_timing_bounded [OF this, of 5] show ?thesis by simp
qed

end
