(* ===== verification/Kcp_Wire.thy ===== *)
theory Kcp_Wire
  imports Kcp_Control
begin

text \<open>
  What a flush puts on the wire, as a list of segments: an acknowledgement for each pending entry, the window
  probes, and the data segments that are due, in this order; the datagrams are this list cut into
  pieces.  And what an endpoint's send buffer becomes when such segments come in.
\<close>

subsection \<open>Packing\<close>

text \<open>The accumulator of a flush holds the segments \<open>L\<close>.\<close>

definition holds :: "out_acc \<Rightarrow> IKCPSEG list \<Rightarrow> bool" where
  "holds acc L \<longleftrightarrow> (\<exists>sss ss. fst acc = map (\<lambda>s. concat (map wire s)) sss \<and> snd acc = concat (map wire ss) \<and> concat sss @ ss = L)"

lemma wire_nonempty: "wire s \<noteq> []"
proof -
  have "0 < length (wire s)" by (simp add: wire_def)
  then show ?thesis by auto
qed

lemma holds_Nil: "holds ([], []) []"
  unfolding holds_def by (rule exI [of _ "[]"], rule exI [of _ "[]"]) simp

lemma holds_room:
  assumes "holds acc L"
  shows "holds (make_room k n acc) L"
proof -
  obtain sss ss where s: "acc = (map (\<lambda>s. concat (map wire s)) sss, concat (map wire ss))" "concat sss @ ss = L"
    using assms by (metis holds_def prod.collapse)
  have "holds (map (\<lambda>s. concat (map wire s)) (sss @ [ss]), []) L"
    unfolding holds_def using s(2) by (intro exI [of _ "sss @ [ss]"] exI [of _ "[]"]) simp
  moreover have "ss = []" if "concat (map wire ss) = []" using that wire_nonempty by (cases ss) auto
  ultimately show ?thesis using assms s by (auto simp: make_room_def ikcp_output_def)
qed

lemma holds_append:
  assumes "holds acc L"
  shows "holds (append_buf (wire s) acc) (L @ [s])"
proof -
  obtain sss ss where "acc = (map (\<lambda>s. concat (map wire s)) sss, concat (map wire ss))" "concat sss @ ss = L"
    using assms by (metis holds_def prod.collapse)
  then show ?thesis unfolding holds_def append_buf_def by (intro exI [of _ sss] exI [of _ "ss @ [s]"]) auto
qed

lemma holds_control: "holds acc L \<Longrightarrow> seg_bytes s = [] \<Longrightarrow> holds (put_control k s acc) (L @ [s])"
  using holds_append [OF holds_room, of acc L s k] by (simp add: put_control_def wire_def)

lemma holds_data: "holds acc L \<Longrightarrow> holds (fold (put_data k) ss acc) (L @ ss)"
proof (induction ss arbitrary: acc L)
  case (Cons s ss)
  have "holds (put_data k s acc) (L @ [s])"
    using holds_append [OF holds_room [OF Cons.prems], of s] by (simp add: put_data_def wire_def)
  from Cons.IH [OF this] show ?case by simp
qed simp

lemma holds_output: "holds acc L \<Longrightarrow> \<exists>sss. ikcp_output (snd acc) (fst acc) = map (\<lambda>s. concat (map wire s)) sss \<and> concat sss = L"
proof -
  assume "holds acc L"
  then obtain sss ss where s: "fst acc = map (\<lambda>s. concat (map wire s)) sss" "snd acc = concat (map wire ss)" "concat sss @ ss = L"
    by (auto simp: holds_def)
  have "ss = []" if "concat (map wire ss) = []" using that wire_nonempty by (cases ss) auto
  then show ?thesis
    using s by (cases "snd acc = []") (auto simp: ikcp_output_def intro: exI [of _ sss] exI [of _ "sss @ [ss]"])
qed

subsection \<open>The segments of a flush\<close>

definition ack_segments :: "IKCPCB \<Rightarrow> IKCPSEG list" where
  "ack_segments k = map (\<lambda>i. (ack_segment k)\<lparr>sg_sn := fst (ikcp_ack_get k i), sg_ts := snd (ikcp_ack_get k i)\<rparr>)
     [0..<nat (sint (kc_ackcount k))]"

definition probe_segments :: "IKCPCB \<Rightarrow> IKCPSEG \<Rightarrow> IKCPSEG list" where
  "probe_segments k seg =
     (if kc_probe k AND IKCP_ASK_SEND \<noteq> 0 then [seg\<lparr>sg_cmd := IKCP_CMD_WASK\<rparr>] else [])
     @ (if kc_probe k AND IKCP_ASK_TELL \<noteq> 0 then [seg\<lparr>sg_cmd := IKCP_CMD_WINS\<rparr>] else [])"

text \<open>The control block as the flush uses it for the data, after the probe timer and the move from the send
  queue.\<close>

definition ready :: "IKCPCB \<Rightarrow> IKCPCB" where
  "ready k = (let k2 = (probe_timer (k\<lparr>kc_ackcount := 0\<rparr>))\<lparr>kc_probe := 0\<rparr>
     in move_snd_queue (send_window k2) (ikcp_wnd_unused k) k2)"

definition flush_segments :: "IKCPCB \<Rightarrow> IKCPSEG list" where
  "flush_segments k =
     (if kc_updated k = 0 then []
      else ack_segments k @ probe_segments (probe_timer (k\<lparr>kc_ackcount := 0\<rparr>)) (last (ack_segment k # ack_segments k))
        @ map (sent_as (ready k) (ikcp_wnd_unused k)) (filter (due (ready k)) (kc_snd_buf (ready k))))"

lemma control_bytes [simp]: "seg_bytes (ack_segment k) = []" "seg_bytes (s\<lparr>sg_cmd := c\<rparr>) = seg_bytes s"
  "seg_bytes (s\<lparr>sg_sn := n, sg_ts := t\<rparr>) = seg_bytes s" "seg_bytes (s\<lparr>sg_sn := n\<rparr>) = seg_bytes s"
  by (simp_all add: seg_bytes_def ack_segment_def ikcp_segment_new_def)

lemma holds_acks:
  assumes "holds acc L" and "seg_bytes seg = []"
    and "\<forall>n t. seg\<lparr>sg_sn := n, sg_ts := t\<rparr> = (ack_segment k)\<lparr>sg_sn := n, sg_ts := t\<rparr>"
    and "flush_acks k is (seg, acc) = (seg', acc')"
  shows "let A = map (\<lambda>i. (ack_segment k)\<lparr>sg_sn := fst (ikcp_ack_get k i), sg_ts := snd (ikcp_ack_get k i)\<rparr>) is
    in holds acc' (L @ A) \<and> seg' = last (seg # A)"
  using assms
proof (induction "is" arbitrary: seg acc L)
  case (Cons i "is")
  obtain n t where g: "ikcp_ack_get k i = (n, t)" by (rule prod.exhaust)
  let ?s = "(ack_segment k)\<lparr>sg_sn := n, sg_ts := t\<rparr>"
  have "flush_acks k is (?s, put_control k ?s acc) = (seg', acc')"
    using Cons.prems(3,4) by (simp add: g Let_def)
  from Cons.IH [OF holds_control [OF Cons.prems(1)] _ _ this] show ?case by (simp add: Let_def g)
qed simp

lemma holds_probes:
  assumes "holds acc L" and "seg_bytes seg = []"
  shows "holds (flush_probes k seg acc) (L @ probe_segments k seg)"
  using assms holds_control [OF holds_control [OF assms(1), of "seg\<lparr>sg_cmd := IKCP_CMD_WASK\<rparr>" k], of "seg\<lparr>sg_cmd := IKCP_CMD_WINS\<rparr>" k]
  by (auto simp: flush_probes_def probe_segments_def Let_def intro: holds_control)

lemma move_snd_queue_frame:
  "\<exists>q b nq nb nx. move_snd_queue cwnd wnd k =
     k\<lparr>kc_snd_queue := q, kc_snd_buf := b, kc_nsnd_que := nq, kc_nsnd_buf := nb, kc_snd_nxt := nx\<rparr>"
proof (induction cwnd wnd k rule: move_snd_queue.induct)
  case (1 cwnd wnd k)
  show ?case
  proof (cases "itimediff (kc_snd_nxt k) (kc_snd_una k + cwnd) < 0 \<and> kc_snd_queue k \<noteq> []")
    case True
    then obtain s rest where q: "itimediff (kc_snd_nxt k) (kc_snd_una k + cwnd) < 0" "kc_snd_queue k = s # rest" by (auto simp: neq_Nil_conv)
    from "1.IH" [OF q] q show ?thesis by (subst move_snd_queue.simps) auto
  next
    case False
    then have "move_snd_queue cwnd wnd k = k" by (subst move_snd_queue.simps) (auto split: list.splits)
    then show ?thesis
      by (intro exI [of _ "kc_snd_queue k"] exI [of _ "kc_snd_buf k"] exI [of _ "kc_nsnd_que k"] exI [of _ "kc_nsnd_buf k"]
          exI [of _ "kc_snd_nxt k"]) simp
  qed
qed

text \<open>The functional description of \<open>ikcp_flush\<close>.\<close>

lemma flush_result:
  assumes "ikcp_flush k = (outs, k')" and "kc_updated k \<noteq> 0"
  shows "\<exists>sss. outs = map (\<lambda>s. concat (map wire s)) sss \<and> concat sss = flush_segments k"
    and "kc_snd_buf k' = map (\<lambda>s. if due (ready k) s then sent_as (ready k) (ikcp_wnd_unused k) s else s) (kc_snd_buf (ready k))"
    and "kc_snd_queue k' = kc_snd_queue (ready k)" and "kc_ackcount k' = 0" and "kc_probe k' = 0"
    and "kc_rmt_wnd k' = kc_rmt_wnd k" and "kc_probe_wait k' = kc_probe_wait (probe_timer k)"
    and "kc_ts_probe k' = kc_ts_probe (probe_timer k)" and "rcv_part k' = rcv_part k"
proof -
  obtain seg acc1 where a: "flush_acks k [0..<nat (sint (kc_ackcount k))] (ack_segment k, ([], [])) = (seg, acc1)"
    by (rule prod.exhaust)
  define k1 where "k1 = probe_timer (k\<lparr>kc_ackcount := 0\<rparr>)"
  define k3 where "k3 = move_snd_queue (send_window (k1\<lparr>kc_probe := 0\<rparr>)) (sg_wnd seg) (k1\<lparr>kc_probe := 0\<rparr>)"
  obtain segs change lost k4 acc3 where
    d: "flush_data (sg_wnd seg) (kc_snd_buf k3) (False, False, k3, flush_probes k1 seg acc1) = (segs, change, lost, k4, acc3)"
    by (rule prod_cases5)
  have eq: "outs = ikcp_output (snd acc3) (fst acc3)" "k' = flush_cwnd (kc_cwnd k) change lost (k4\<lparr>kc_snd_buf := segs\<rparr>)"
    using assms a d by (simp_all add: ikcp_flush_def Let_def flip: k1_def k3_def split: prod.splits)
  have A: "holds acc1 (ack_segments k)" "seg = last (ack_segment k # ack_segments k)"
    using holds_acks [OF holds_Nil _ _ a] by (simp_all add: Let_def ack_segments_def)
  have seg: "seg_bytes seg = []" "sg_wnd seg = ikcp_wnd_unused k"
    unfolding A(2) by (auto simp: last_map ack_segments_def) (auto simp: ack_segment_def)
  have k3: "k3 = ready k" by (simp add: k3_def ready_def k1_def seg(2) Let_def)
  note f = flush_data_map [OF d, unfolded seg(2) k3]
  have "flush_segments k = (ack_segments k @ probe_segments k1 seg)
      @ map (sent_as (ready k) (ikcp_wnd_unused k)) (filter (due (ready k)) (kc_snd_buf (ready k)))"
    using assms(2) by (simp only: flush_segments_def k1_def if_False append_assoc flip: A(2))
  then have "holds acc3 (flush_segments k)"
    using f holds_data [OF holds_probes [OF A(1) seg(1), of k1]] by (simp only:)
  then show "\<exists>sss. outs = map (\<lambda>s. concat (map wire s)) sss \<and> concat sss = flush_segments k" unfolding eq(1) by (rule holds_output)
  have cw: "kc_snd_buf (flush_cwnd c change lost j) = kc_snd_buf j" "kc_snd_queue (flush_cwnd c change lost j) = kc_snd_queue j"
    "kc_ackcount (flush_cwnd c change lost j) = kc_ackcount j" "kc_probe (flush_cwnd c change lost j) = kc_probe j"
    "kc_rmt_wnd (flush_cwnd c change lost j) = kc_rmt_wnd j" "kc_probe_wait (flush_cwnd c change lost j) = kc_probe_wait j"
    "kc_ts_probe (flush_cwnd c change lost j) = kc_ts_probe j" "rcv_part (flush_cwnd c change lost j) = rcv_part j" for c j
    by (simp_all add: flush_cwnd_def after_change_def after_loss_def Let_def rcv_part_def)
  obtain x y where k4: "k4 = (ready k)\<lparr>kc_xmit := x, kc_state := y\<rparr>" using f by blast
  show "kc_snd_buf k' = map (\<lambda>s. if due (ready k) s then sent_as (ready k) (ikcp_wnd_unused k) s else s) (kc_snd_buf (ready k))"
    "kc_snd_queue k' = kc_snd_queue (ready k)"
    using f by (simp_all add: eq(2) cw k4)
  obtain q b nq nb nx where r: "ready k = (k1\<lparr>kc_probe := 0\<rparr>)\<lparr>kc_snd_queue := q, kc_snd_buf := b, kc_nsnd_que := nq, kc_nsnd_buf := nb, kc_snd_nxt := nx\<rparr>"
    unfolding ready_def Let_def k1_def [symmetric] using move_snd_queue_frame by blast
  show "kc_ackcount k' = 0" "kc_probe k' = 0" "kc_rmt_wnd k' = kc_rmt_wnd k" "kc_probe_wait k' = kc_probe_wait (probe_timer k)"
    "kc_ts_probe k' = kc_ts_probe (probe_timer k)"
    by (simp_all add: eq(2) cw k4 r k1_def probe_timer_def Let_def)
  show "rcv_part k' = rcv_part k"
    unfolding eq(2) cw k4 r k1_def by (simp add: probe_timer_def Let_def rcv_part_def)
qed

end
