(* ===== verification/Kcp_Effects.thy ===== *)
theory Kcp_Effects
  imports Kcp_Wire
begin

text \<open>
  What the segments of a datagram change in the control block that takes them in, as far as the liveness of
  a connection depends on it: the send buffer only shrinks, and loses its first segment when \<open>una\<close> is
  beyond it; the window of the peer is the one announced last; a window probe asks for an answer; and data in
  the window is acknowledged.
\<close>

subsection \<open>What a datagram changes\<close>

text \<open>Segments waiting to be sent or acknowledged.\<close>

definition backlog :: "IKCPCB \<Rightarrow> nat" where
  "backlog k = length (kc_snd_buf k) + length (kc_snd_queue k)"

text \<open>The send buffer lost some segments and nothing else happened to it.\<close>

definition shrinks :: "IKCPCB \<Rightarrow> IKCPCB \<Rightarrow> bool" where
  "shrinks k k' \<longleftrightarrow> kc_snd_queue k' = kc_snd_queue k \<and> subseq (map sg_sn (kc_snd_buf k')) (map sg_sn (kc_snd_buf k))"

lemma shrinks_refl [simp, intro!]: "shrinks k k"
  by (simp add: shrinks_def)

lemma shrinks_trans: "shrinks k1 k2 \<Longrightarrow> shrinks k2 k3 \<Longrightarrow> shrinks k1 k3"
  by (auto simp: shrinks_def intro: subseq_order.order_trans)

lemma shrinks_length: "shrinks k k' \<Longrightarrow> length (kc_snd_buf k') \<le> length (kc_snd_buf k)"
  unfolding shrinks_def using list_emb_length by fastforce

lemma shrinks_backlog: "shrinks k k' \<Longrightarrow> backlog k' \<le> backlog k"
  using shrinks_length by (simp add: backlog_def shrinks_def)

lemma shrinks_same: "kc_snd_queue k' = kc_snd_queue k \<Longrightarrow> kc_snd_buf k' = kc_snd_buf k \<Longrightarrow> shrinks k k'"
  by (simp add: shrinks_def)

lemma shrinks_shrink_buf: "shrinks k (ikcp_shrink_buf j) = shrinks k j"
  by (simp add: shrinks_def ikcp_shrink_buf_def split: list.splits)

lemma shrinks_parse_una: "shrinks k (ikcp_parse_una k una)"
proof -
  obtain gone rest where r: "una_remove una (kc_snd_buf k) = (gone, rest)" by (rule prod.exhaust)
  then have q: "kc_snd_buf k = gone @ rest" using una_remove_spec by blast
  have "subseq (map sg_sn rest) (map sg_sn (kc_snd_buf k))" unfolding q map_append by (rule list_emb_append2) simp
  then show ?thesis by (simp add: ikcp_parse_una_def r shrinks_def)
qed

lemma shrinks_parse_ack: "shrinks k (ikcp_parse_ack k sn)"
proof -
  obtain r rest where r: "ack_remove sn (kc_snd_buf k) = (r, rest)" by (rule prod.exhaust)
  show ?thesis
  proof (cases r)
    case (Some s)
    with ack_remove_spec [OF r] obtain xs ys where q: "kc_snd_buf k = xs @ s # ys" "rest = xs @ ys" by auto
    have "subseq (map sg_sn rest) (map sg_sn (kc_snd_buf k))" unfolding q by (auto intro: list_emb_append_mono)
    then show ?thesis by (auto simp: ikcp_parse_ack_def r Some shrinks_def)
  qed (simp add: ikcp_parse_ack_def r)
qed

lemma head_acknowledged:
  assumes "kc_snd_buf k = s # rest" and "itimediff una (sg_sn s) > 0"
  shows "length (kc_snd_buf (ikcp_parse_una k una)) < length (kc_snd_buf k)"
proof -
  obtain gone rest' where r: "una_remove una rest = (gone, rest')" by (rule prod.exhaust)
  then have "rest = gone @ rest'" using una_remove_spec by blast
  then show ?thesis using assms r by (simp add: ikcp_parse_una_def)
qed

text \<open>The parts of a control block that matter here, through one segment.\<close>

lemma input_push_frame:
  "kc_snd_queue (input_push k h bs) = kc_snd_queue k" "kc_snd_buf (input_push k h bs) = kc_snd_buf k"
  "kc_rmt_wnd (input_push k h bs) = kc_rmt_wnd k" "kc_probe (input_push k h bs) = kc_probe k"
proof -
  have "kc_rmt_wnd (move_rcv_buf j) = kc_rmt_wnd j" for j
    by (induction j rule: move_rcv_buf.induct) (subst move_rcv_buf.simps, auto split: list.splits)
  then have p: "kc_rmt_wnd (ikcp_parse_data j s) = kc_rmt_wnd j" "kc_probe (ikcp_parse_data j s) = kc_probe j" for j s
    by (auto simp: ikcp_parse_data_def Let_def move_rcv_buf_frame split: option.splits)
  have a: "kc_rmt_wnd (ikcp_ack_push j sn ts) = kc_rmt_wnd j" "kc_probe (ikcp_ack_push j sn ts) = kc_probe j" for j sn ts
    by (simp_all add: ikcp_ack_push_def Let_def)
  have "snd_part (input_push k h bs) = snd_part k"
    by (simp add: input_push_def Let_def parse_data_frame ack_push_frame)
  then show "kc_snd_queue (input_push k h bs) = kc_snd_queue k" "kc_snd_buf (input_push k h bs) = kc_snd_buf k"
    by (simp_all add: snd_part_def)
  show "kc_rmt_wnd (input_push k h bs) = kc_rmt_wnd k" "kc_probe (input_push k h bs) = kc_probe k"
    by (simp_all add: input_push_def Let_def p a)
qed

lemma input_ack_frame:
  "shrinks k (input_ack k h)" "kc_rmt_wnd (input_ack k h) = kc_rmt_wnd k" "kc_probe (input_ack k h) = kc_probe k"
proof -
  define k1 where "k1 = (if itimediff (kc_current k) (h_ts h) \<ge> 0 then ikcp_update_ack k (itimediff (kc_current k) (h_ts h)) else k)"
  have eq: "input_ack k h = ikcp_shrink_buf (ikcp_parse_ack k1 (h_sn h))" by (simp add: input_ack_def k1_def Let_def)
  have k1: "kc_snd_queue k1 = kc_snd_queue k" "kc_snd_buf k1 = kc_snd_buf k" "kc_rmt_wnd k1 = kc_rmt_wnd k" "kc_probe k1 = kc_probe k"
    by (simp_all add: k1_def ikcp_update_ack_def Let_def)
  show "shrinks k (input_ack k h)"
    unfolding eq shrinks_shrink_buf using shrinks_same [OF k1(1,2)] shrinks_parse_ack by (rule shrinks_trans)
  show "kc_rmt_wnd (input_ack k h) = kc_rmt_wnd k" "kc_probe (input_ack k h) = kc_probe k"
    by (simp_all add: eq k1 ikcp_shrink_buf_def ikcp_parse_ack_def split: list.splits prod.splits option.splits)
qed

lemma or_tell: "w AND IKCP_ASK_TELL \<noteq> 0 \<Longrightarrow> (w OR v) AND IKCP_ASK_TELL \<noteq> 0" "(w OR IKCP_ASK_TELL) AND IKCP_ASK_TELL \<noteq> 0" for w v :: u32
proof -
  have t: "u AND IKCP_ASK_TELL \<noteq> 0 \<longleftrightarrow> bit u 1" for u :: u32
    using and_exp_eq_0_iff_not_bit [of u 1] by (simp add: IKCP_ASK_TELL_def)
  show "w AND IKCP_ASK_TELL \<noteq> 0 \<Longrightarrow> (w OR v) AND IKCP_ASK_TELL \<noteq> 0" "(w OR IKCP_ASK_TELL) AND IKCP_ASK_TELL \<noteq> 0"
    unfolding t by (auto simp: bit_or_iff IKCP_ASK_TELL_def bit_2_iff)
qed

lemma input_segment_effect:
  assumes "input_segment h bs (k, acc) = (k', acc')"
  shows "shrinks k k'" and "kc_rmt_wnd k' = ucast (h_wnd h)"
    and "kc_probe k AND IKCP_ASK_TELL \<noteq> 0 \<Longrightarrow> kc_probe k' AND IKCP_ASK_TELL \<noteq> 0"
    and "ucast (h_cmd h) = IKCP_CMD_WASK \<Longrightarrow> kc_probe k' AND IKCP_ASK_TELL \<noteq> 0"
    and "kc_snd_buf k = s # rest \<Longrightarrow> itimediff (h_una h) (sg_sn s) > 0 \<Longrightarrow> length (kc_snd_buf k') < length (kc_snd_buf k)"
proof -
  define k1 where "k1 = ikcp_shrink_buf (ikcp_parse_una (k\<lparr>kc_rmt_wnd := ucast (h_wnd h)\<rparr>) (h_una h))"
  have k': "k' = (if ucast (h_cmd h) = IKCP_CMD_ACK then input_ack k1 h else if ucast (h_cmd h) = IKCP_CMD_PUSH then input_push k1 h bs
      else if ucast (h_cmd h) = IKCP_CMD_WASK then k1\<lparr>kc_probe := kc_probe k1 OR IKCP_ASK_TELL\<rparr> else k1)"
    using assms by (simp add: input_segment_def flip: k1_def split: if_splits)
  have s1: "shrinks k k1" unfolding k1_def shrinks_shrink_buf
    by (rule shrinks_trans [OF shrinks_same shrinks_parse_una]) simp_all
  have s2: "shrinks k1 k'"
    using input_ack_frame(1) by (auto simp: k' input_push_frame intro!: shrinks_same)
  show "shrinks k k'" using s1 s2 by (rule shrinks_trans)
  have r1: "kc_rmt_wnd k1 = ucast (h_wnd h)" and p1: "kc_probe k1 = kc_probe k"
    by (simp_all add: k1_def ikcp_shrink_buf_def ikcp_parse_una_def split: list.splits prod.splits)
  show "kc_rmt_wnd k' = ucast (h_wnd h)" by (simp add: k' input_ack_frame input_push_frame r1)
  show "kc_probe k AND IKCP_ASK_TELL \<noteq> 0 \<Longrightarrow> kc_probe k' AND IKCP_ASK_TELL \<noteq> 0"
    using or_tell by (simp add: k' input_ack_frame input_push_frame p1)
  show "ucast (h_cmd h) = IKCP_CMD_WASK \<Longrightarrow> kc_probe k' AND IKCP_ASK_TELL \<noteq> 0"
    using or_tell by (simp add: k' ikcp_cmds)
  assume h: "kc_snd_buf k = s # rest" "itimediff (h_una h) (sg_sn s) > 0"
  have "kc_snd_buf k1 = kc_snd_buf (ikcp_parse_una (k\<lparr>kc_rmt_wnd := ucast (h_wnd h)\<rparr>) (h_una h))"
    by (simp add: k1_def ikcp_shrink_buf_def split: list.splits)
  then have "length (kc_snd_buf k1) < length (kc_snd_buf k)" using head_acknowledged [of "k\<lparr>kc_rmt_wnd := ucast (h_wnd h)\<rparr>" s rest] h by simp
  with shrinks_length [OF s2] show "length (kc_snd_buf k') < length (kc_snd_buf k)" by simp
qed


text \<open>Acknowledgements accumulate.\<close>

lemma input_segment_acks:
  assumes "input_segment h bs (k, acc) = (k', acc')" and "ack_wf k" and "unat (kc_ackcount k) + 1 < 2 ^ 32"
  shows "ack_wf k'" and "set (pending_acks k) \<subseteq> set (pending_acks k')" and "unat (kc_ackcount k') \<le> unat (kc_ackcount k) + 1"
    and "ucast (h_cmd h) = IKCP_CMD_PUSH \<Longrightarrow> itimediff (h_sn h) (kc_rcv_nxt k + kc_rcv_wnd k) < 0
      \<Longrightarrow> (h_sn h, h_ts h) \<in> set (pending_acks k')"
proof -
  define k1 where "k1 = ikcp_shrink_buf (ikcp_parse_una (k\<lparr>kc_rmt_wnd := ucast (h_wnd h)\<rparr>) (h_una h))"
  have p1: "ack_part k1 = ack_part k" "rcv_part k1 = rcv_part k"
    by (simp_all add: k1_def shrink_buf_frame parse_una_frame) (simp_all add: part_defs)
  have same: "ack_wf j = ack_wf k \<and> pending_acks j = pending_acks k \<and> kc_ackcount j = kc_ackcount k" if "ack_part j = ack_part k" for j
    using that by (simp add: ack_part_def ack_wf_def pending_acks_def)
  have k': "k' = (if ucast (h_cmd h) = IKCP_CMD_ACK then input_ack k1 h else if ucast (h_cmd h) = IKCP_CMD_PUSH then input_push k1 h bs
      else if ucast (h_cmd h) = IKCP_CMD_WASK then k1\<lparr>kc_probe := kc_probe k1 OR IKCP_ASK_TELL\<rparr> else k1)"
    using assms(1) by (simp add: input_segment_def flip: k1_def split: if_splits)
  let ?w = "itimediff (h_sn h) (kc_rcv_nxt k + kc_rcv_wnd k) < 0"
  have push: "ack_part (input_push k1 h bs) = (if ?w then ack_part (ikcp_ack_push k1 (h_sn h) (h_ts h)) else ack_part k)"
    using p1 by (simp add: input_push_def Let_def parse_data_frame rcv_part_def)
  note j1 = same [OF p1(1)]
  have wf1: "ack_wf k1" and c1: "unat (kc_ackcount k1) + 1 < 2 ^ 32" using j1 assms(2,3) by simp_all
  note q = ack_push_pending [OF wf1 c1, of "h_sn h" "h_ts h"]
  have cnt: "unat (kc_ackcount (ikcp_ack_push k1 sn ts)) \<le> unat (kc_ackcount k) + 1" for sn ts
    using c1 j1 by (simp add: ikcp_ack_push_def Let_def unat_word_ariths)
  have other: "ack_part k' = ack_part k" if "ucast (h_cmd h) \<noteq> IKCP_CMD_PUSH"
  proof -
    have "ack_part (input_ack k1 h) = ack_part k"
      by (simp add: input_ack_def Let_def shrink_buf_frame parse_ack_frame update_ack_frame p1)
    moreover have "ack_part (k1\<lparr>kc_probe := w\<rparr>) = ack_part k" for w using p1 by (simp add: ack_part_def)
    ultimately show ?thesis using that p1 by (simp add: k')
  qed
  have R: "ack_wf k' \<and> set (pending_acks k) \<subseteq> set (pending_acks k') \<and> unat (kc_ackcount k') \<le> unat (kc_ackcount k) + 1
      \<and> (ucast (h_cmd h) = IKCP_CMD_PUSH \<longrightarrow> ?w \<longrightarrow> (h_sn h, h_ts h) \<in> set (pending_acks k'))"
  proof (cases "ucast (h_cmd h) = IKCP_CMD_PUSH \<and> ?w")
    case True
    then have "ack_part k' = ack_part (ikcp_ack_push k1 (h_sn h) (h_ts h))" using push by (simp add: k' ikcp_cmds)
    then have "ack_wf k' = ack_wf (ikcp_ack_push k1 (h_sn h) (h_ts h))"
      "pending_acks k' = pending_acks (ikcp_ack_push k1 (h_sn h) (h_ts h))"
      "kc_ackcount k' = kc_ackcount (ikcp_ack_push k1 (h_sn h) (h_ts h))"
      by (simp_all add: ack_part_def ack_wf_def pending_acks_def)
    then show ?thesis using ack_push_wf(1) [OF wf1] q cnt j1 by auto
  next
    case False
    then have "ack_part k' = ack_part k" using other push by (auto simp: k' ikcp_cmds)
    from same [OF this] False assms(2) show ?thesis by auto
  qed
  then show "ack_wf k'" and "set (pending_acks k) \<subseteq> set (pending_acks k')" and "unat (kc_ackcount k') \<le> unat (kc_ackcount k) + 1"
    and "ucast (h_cmd h) = IKCP_CMD_PUSH \<Longrightarrow> ?w \<Longrightarrow> (h_sn h, h_ts h) \<in> set (pending_acks k')" by blast+
qed

abbreviation input_all :: "IKCPSEG list \<Rightarrow> IKCPCB \<times> ack_seen \<Rightarrow> IKCPCB \<times> ack_seen" where
  "input_all \<equiv> fold (\<lambda>s. input_segment (header_of s) (seg_bytes s))"

lemma input_all_effect:
  assumes "input_all segs (k, acc) = (k', acc')"
  shows "shrinks k k'" and "kc_probe k AND IKCP_ASK_TELL \<noteq> 0 \<Longrightarrow> kc_probe k' AND IKCP_ASK_TELL \<noteq> 0"
    and "s \<in> set segs \<Longrightarrow> sg_cmd s = IKCP_CMD_WASK \<Longrightarrow> kc_probe k' AND IKCP_ASK_TELL \<noteq> 0"
    and "segs \<noteq> [] \<Longrightarrow> \<forall>s\<in>set segs. sg_wnd s = 4096 \<Longrightarrow> kc_rmt_wnd k' = 4096"
proof -
  have "shrinks k k' \<and> (kc_probe k AND IKCP_ASK_TELL \<noteq> 0 \<longrightarrow> kc_probe k' AND IKCP_ASK_TELL \<noteq> 0)
    \<and> ((\<exists>s\<in>set segs. sg_cmd s = IKCP_CMD_WASK) \<longrightarrow> kc_probe k' AND IKCP_ASK_TELL \<noteq> 0)
    \<and> (segs \<noteq> [] \<longrightarrow> (\<forall>s\<in>set segs. sg_wnd s = 4096) \<longrightarrow> kc_rmt_wnd k' = 4096)"
    using assms
  proof (induction segs arbitrary: k acc)
    case (Cons s segs)
    obtain k1 acc1 where s1: "input_segment (header_of s) (seg_bytes s) (k, acc) = (k1, acc1)" by (rule prod.exhaust)
    note e = input_segment_effect [OF s1]
    have c: "sg_cmd s = IKCP_CMD_WASK \<Longrightarrow> (ucast (h_cmd (header_of s)) :: u32) = IKCP_CMD_WASK"
      by (simp add: header_of_def ikcp_cmds)
    have w: "sg_wnd s = 4096 \<Longrightarrow> kc_rmt_wnd k1 = 4096" using e(2) by (simp add: header_of_def)
    have ih: "input_all segs (k1, acc1) = (k', acc')" using Cons.prems s1 by simp
    note r = Cons.IH [OF ih]
    have "segs = [] \<Longrightarrow> k' = k1" using ih by simp
    then show ?case using r e(1,3,4) c w shrinks_trans by (cases "segs = []") auto
  qed simp
  then show "shrinks k k'" and "kc_probe k AND IKCP_ASK_TELL \<noteq> 0 \<Longrightarrow> kc_probe k' AND IKCP_ASK_TELL \<noteq> 0"
    and "s \<in> set segs \<Longrightarrow> sg_cmd s = IKCP_CMD_WASK \<Longrightarrow> kc_probe k' AND IKCP_ASK_TELL \<noteq> 0"
    and "segs \<noteq> [] \<Longrightarrow> \<forall>s\<in>set segs. sg_wnd s = 4096 \<Longrightarrow> kc_rmt_wnd k' = 4096" by blast+
qed

lemma input_all_head:
  assumes "input_all segs (k, acc) = (k', acc')" and "segs \<noteq> []" and "\<forall>s\<in>set segs. sg_una s = una"
    and "kc_snd_buf k = s # rest" and "itimediff una (sg_sn s) > 0"
  shows "backlog k' < backlog k"
proof -
  obtain a segs1 where s: "segs = a # segs1" using assms(2) by (cases segs) auto
  obtain k1 acc1 where s1: "input_segment (header_of a) (seg_bytes a) (k, acc) = (k1, acc1)" by (rule prod.exhaust)
  note e = input_segment_effect [OF s1]
  have u: "h_una (header_of a) = una" using assms(3) s by (simp add: header_of_def)
  have "length (kc_snd_buf k1) < length (kc_snd_buf k)" using e(5) [OF assms(4)] assms(5) u by simp
  then have "backlog k1 < backlog k" using e(1) by (simp add: backlog_def shrinks_def)
  moreover have "shrinks k1 k'" using input_all_effect(1) [of segs1 k1 acc1] assms(1) s s1 by simp
  ultimately show ?thesis using shrinks_backlog by fastforce
qed


lemma input_segment_pos:
  assumes inv: "endpoint_inv out app h inn got k" and ok: "segment_ok (kc_conv k) inn h s"
    and st: "input_segment (header_of s) (seg_bytes s) (k, acc) = (k', acc')"
  shows "rcv_pos k \<le> rcv_pos k'"
proof -
  define k1 where "k1 = ikcp_shrink_buf (ikcp_parse_una (k\<lparr>kc_rmt_wnd := ucast (h_wnd (header_of s))\<rparr>) (h_una (header_of s)))"
  have p1: "rcv_part k1 = rcv_part k"
    by (simp add: k1_def shrink_buf_frame parse_una_frame) (simp add: part_defs)
  have c: "(ucast (h_cmd (header_of s)) :: u32) = sg_cmd s" using ok known_cmd_ucast unfolding segment_ok_def by blast
  have k': "k' = (if sg_cmd s = IKCP_CMD_ACK then input_ack k1 (header_of s) else if sg_cmd s = IKCP_CMD_PUSH then input_push k1 (header_of s) (seg_bytes s)
      else if sg_cmd s = IKCP_CMD_WASK then k1\<lparr>kc_probe := kc_probe k1 OR IKCP_ASK_TELL\<rparr> else k1)"
    using st by (simp add: input_segment_def c flip: k1_def split: if_splits)
  show ?thesis
  proof (cases "sg_cmd s = IKCP_CMD_PUSH")
    case True
    let ?k2 = "ikcp_ack_push k1 (sg_sn s) (sg_ts s)" and ?n = "new_push (header_of s) (seg_bytes s)"
    have p2: "rcv_part ?k2 = rcv_part k" using ack_push_frame(2) p1 by simp
    have r2: "rcv_inv inn got ?k2" using inv rcv_inv_cong [OF p2] by (simp add: endpoint_inv_def)
    have "carries inn s" using ok True by (simp add: segment_ok_def)
    from parse_data_inv [OF r2 new_push_carries(1) [OF this]] have "rcv_pos k \<le> rcv_pos (ikcp_parse_data ?k2 ?n)"
      using rcv_pos_cong [OF p2] by simp
    then show ?thesis
      using True rcv_pos_cong [OF p1] rcv_pos_cong [OF p2] by (simp add: k' ikcp_cmds input_push_def header_of_def Let_def)
  next
    case False
    have "rcv_part (input_ack k1 (header_of s)) = rcv_part k"
      by (simp add: input_ack_def Let_def shrink_buf_frame parse_ack_frame update_ack_frame p1)
    moreover have "rcv_part (k1\<lparr>kc_probe := w\<rparr>) = rcv_part k" for w using p1 by (simp add: rcv_part_def)
    ultimately have "rcv_part k' = rcv_part k" using False p1 by (simp add: k')
    from rcv_pos_cong [OF this] show ?thesis by simp
  qed
qed

lemma input_all_pending:
  assumes "endpoint_inv out app h inn got k" and "\<forall>s\<in>set segs. segment_ok (kc_conv k) inn h s"
    and "input_all segs (k, acc) = (k', acc')" and "unat (kc_ackcount k) + length segs < 2 ^ 31"
  shows "set (pending_acks k) \<subseteq> set (pending_acks k')" and "unat (kc_ackcount k') < 2 ^ 31"
    and "s \<in> set segs \<Longrightarrow> sg_cmd s = IKCP_CMD_PUSH \<Longrightarrow> seq s \<le> rcv_pos k \<Longrightarrow> sg_sn s \<in> fst ` set (pending_acks k')"
proof -
  have "set (pending_acks k) \<subseteq> set (pending_acks k') \<and> unat (kc_ackcount k') < 2 ^ 31
    \<and> (s \<in> set segs \<longrightarrow> sg_cmd s = IKCP_CMD_PUSH \<longrightarrow> seq s \<le> rcv_pos k \<longrightarrow> sg_sn s \<in> fst ` set (pending_acks k'))"
    using assms
  proof (induction segs arbitrary: k acc)
    case (Cons a segs)
    obtain k1 acc1 where s1: "input_segment (header_of a) (seg_bytes a) (k, acc) = (k1, acc1)" by (rule prod.exhaust)
    have oka: "segment_ok (kc_conv k) inn h a" using Cons.prems(2) by simp
    have i1: "endpoint_inv out app h inn got k1" using input_segment_endpoint [OF Cons.prems(1) oka s1] by blast
    have c1: "kc_conv k1 = kc_conv k" using input_segment_conv [of "header_of a" "seg_bytes a" "(k, acc)"] by (simp add: s1)
    have wf: "ack_wf k" using Cons.prems(1) by (simp add: endpoint_inv_def ack_inv_def)
    have "unat (kc_ackcount k) + 1 < 2 ^ 32" using Cons.prems(4) by simp
    note a = input_segment_acks [OF s1 wf this]
    have cnt: "unat (kc_ackcount k1) + length segs < 2 ^ 31" using a(3) Cons.prems(4) by simp
    have pos: "rcv_pos k \<le> rcv_pos k1" using input_segment_pos [OF Cons.prems(1) oka s1] .
    have here: "sg_sn a \<in> fst ` set (pending_acks k1)" if "sg_cmd a = IKCP_CMD_PUSH" "seq a \<le> rcv_pos k"
    proof -
      have r: "rcv_inv inn got k" using Cons.prems(1) by (simp add: endpoint_inv_def)
      have "seq a < length inn" using oka that(1) by (simp add: segment_ok_def carries_def)
      moreover have "seq a < rcv_pos k + unat (kc_rcv_wnd k)" using r that(2) by (auto simp: rcv_inv_def)
      ultimately have "itimediff (sg_sn a) (kc_rcv_nxt k + kc_rcv_wnd k) < 0" using window_checks(2) [OF r] by blast
      moreover have "(ucast (h_cmd (header_of a)) :: u32) = IKCP_CMD_PUSH" using that(1) by (simp add: header_of_def ikcp_cmds)
      ultimately have "(h_sn (header_of a), h_ts (header_of a)) \<in> set (pending_acks k1)"
        using a(4) Cons.prems(4) by (simp add: header_of_def)
      then show ?thesis by (force simp: header_of_def)
    qed
    have ok1: "\<forall>s\<in>set segs. segment_ok (kc_conv k1) inn h s" using Cons.prems(2) c1 by simp
    have f1: "input_all segs (k1, acc1) = (k', acc')" using Cons.prems(3) s1 by simp
    from Cons.IH [OF i1 ok1 f1 cnt] have sub: "set (pending_acks k1) \<subseteq> set (pending_acks k')" and lt: "unat (kc_ackcount k') < 2 ^ 31"
      and m: "s \<in> set segs \<Longrightarrow> sg_cmd s = IKCP_CMD_PUSH \<Longrightarrow> seq s \<le> rcv_pos k1 \<Longrightarrow> sg_sn s \<in> fst ` set (pending_acks k')" by blast+
    from a(2) sub have "set (pending_acks k) \<subseteq> set (pending_acks k')" by (rule subset_trans)
    moreover have "sg_sn s \<in> fst ` set (pending_acks k')"
      if "s \<in> set (a # segs)" "sg_cmd s = IKCP_CMD_PUSH" "seq s \<le> rcv_pos k"
    proof (cases "s = a")
      case True
      then show ?thesis using here that sub by blast
    next
      case False
      then show ?thesis using m that pos by simp
    qed
    ultimately show ?case using lt by blast
  qed simp
  then show "set (pending_acks k) \<subseteq> set (pending_acks k')" and "unat (kc_ackcount k') < 2 ^ 31"
    and "s \<in> set segs \<Longrightarrow> sg_cmd s = IKCP_CMD_PUSH \<Longrightarrow> seq s \<le> rcv_pos k \<Longrightarrow> sg_sn s \<in> fst ` set (pending_acks k')" by blast+
qed

text \<open>A whole datagram is its segments one after the other, as far as these parts go.\<close>

lemma input_is_all:
  assumes "\<forall>s\<in>set segs. sendable (kc_conv k) s" and "segs \<noteq> []" and "ikcp_input k (concat (map wire segs)) = (ret, k')"
  obtains k1 acc where "input_all segs (k\<lparr>kc_ackedlen := 0\<rparr>, (False, 0, 0)) = (k1, acc)"
    and "map sg_sn (kc_snd_buf k') = map sg_sn (kc_snd_buf k1)" and "kc_snd_queue k' = kc_snd_queue k1"
    and "kc_rmt_wnd k' = kc_rmt_wnd k1" and "kc_probe k' = kc_probe k1" and "ack_part k' = ack_part k1"
proof -
  obtain k1 flag maxack ts where f: "input_all segs (k\<lparr>kc_ackedlen := 0\<rparr>, (False, 0, 0)) = (k1, (flag, maxack, ts))"
    by (rule prod_cases4)
  obtain s segs' where "segs = s # segs'" using assms(2) by (cases segs) auto
  then have "\<not> int (length (concat (map wire segs))) < sint IKCP_OVERHEAD" by (simp add: wire_def IKCP_OVERHEAD_def)
  moreover have "input_loop (concat (map wire segs)) (k\<lparr>kc_ackedlen := 0\<rparr>, (False, 0, 0)) = (0, k1, (flag, maxack, ts))"
    using input_loop_wire [of segs "(k\<lparr>kc_ackedlen := 0\<rparr>, (False, 0, 0))"] assms(1) f by simp
  ultimately have "k' \<in> {k1, ikcp_parse_fastack k1 maxack ts, grow_cwnd k1, grow_cwnd (ikcp_parse_fastack k1 maxack ts)}"
    using assms(3) by (auto simp: ikcp_input_def Let_def split: if_splits)
  moreover have "map sg_sn (fastack_loop sn ts q) = map sg_sn q" for sn ts q by (induction q) auto
  then have "map sg_sn (kc_snd_buf (ikcp_parse_fastack j sn ts)) = map sg_sn (kc_snd_buf j) \<and> kc_snd_queue (ikcp_parse_fastack j sn ts) = kc_snd_queue j
    \<and> kc_rmt_wnd (ikcp_parse_fastack j sn ts) = kc_rmt_wnd j \<and> kc_probe (ikcp_parse_fastack j sn ts) = kc_probe j
    \<and> ack_part (ikcp_parse_fastack j sn ts) = ack_part j" for j sn ts
    by (simp add: ikcp_parse_fastack_def ack_part_def)
  moreover have "kc_snd_buf (grow_cwnd j) = kc_snd_buf j \<and> kc_snd_queue (grow_cwnd j) = kc_snd_queue j
    \<and> kc_rmt_wnd (grow_cwnd j) = kc_rmt_wnd j \<and> kc_probe (grow_cwnd j) = kc_probe j \<and> ack_part (grow_cwnd j) = ack_part j" for j
    by (simp add: grow_cwnd_def Let_def ack_part_def)
  ultimately show thesis by (intro that [OF f]) auto
qed

end
