(* ===== verification/Kcp_Liveness.thy ===== *)
theory Kcp_Liveness
  imports Kcp_Effects
begin

text \<open>
  Nothing a KCP connection can get into is a dead end.  From every reachable state of the link of
  \<^theory_text>\<open>Kcp_Link\<close>, a network that from then on delivers some datagrams and applications that read
  bring every byte across: lost data is sent again when its timer runs out, an acknowledgement comes back
  for every duplicate, and a closed window is opened by a probe.
\<close>

subsection \<open>Both sides with their histories\<close>

definition linked :: "u32 \<Rightarrow> byte list list \<Rightarrow> byte list list \<Rightarrow> endpoint \<Rightarrow> endpoint \<Rightarrow> bool" where
  "linked c lx ly x y \<longleftrightarrow>
     side_inv lx ly (received (ep_kcp y)) c x \<and> side_inv ly lx (received (ep_kcp x)) c y
   \<and> control_inv c (ep_kcp x) \<and> control_inv c (ep_kcp y)"

lemma linked_sym: "linked c lx ly x y = linked c ly lx y x"
  by (auto simp: linked_def)

lemma ep_step_op: "ep_step net x x' \<Longrightarrow> kcp_op (ep_kcp x) (ep_kcp x')"
  by (induction rule: ep_step.induct) (auto intro: kcp_op.intros)

lemma linked_step:
  assumes l: "linked c lx ly x y" and st: "ep_step (ep_emitted y) x x'"
  shows "\<exists>xs. linked c (lx @ xs) ly x' y"
proof -
  have x: "side_inv lx ly (received (ep_kcp y)) c x" and y: "side_inv ly lx (received (ep_kcp x)) c y"
    using l by (simp_all add: linked_def)
  have net: "\<forall>d\<in>set (ep_emitted y). datagram_ok c ly (received (ep_kcp y)) d" using y by (simp add: side_inv_def)
  from ep_step_side [OF st x net] obtain xs where s: "side_inv (lx @ xs) ly (received (ep_kcp y)) c x'"
    "received (ep_kcp x) \<subseteq> received (ep_kcp x')" by blast
  have "control_inv c (ep_kcp x')" using control.step_inv [OF _ ep_step_op [OF st]] l by (simp add: linked_def)
  moreover have "side_inv ly (lx @ xs) (received (ep_kcp x')) c y" using side_inv_peer [OF y s(2)] side_inv_bound [OF s(1)] by blast
  ultimately show ?thesis using s l unfolding linked_def by blast
qed

lemma ep_run_left: "(ep_step (ep_emitted y))\<^sup>*\<^sup>* x x' \<Longrightarrow> link_step\<^sup>*\<^sup>* (x, y) (x', y)"
  by (induction rule: rtranclp_induct) (auto intro: rtranclp.rtrancl_into_rtrancl link_step.left)

lemma ep_run_right: "(ep_step (ep_emitted x))\<^sup>*\<^sup>* y y' \<Longrightarrow> link_step\<^sup>*\<^sup>* (x, y) (x, y')"
  by (induction rule: rtranclp_induct) (auto intro: rtranclp.rtrancl_into_rtrancl link_step.right)

lemma linked_run: "(ep_step (ep_emitted y))\<^sup>*\<^sup>* x x' \<Longrightarrow> linked c lx ly x y \<Longrightarrow> \<exists>xs. linked c (lx @ xs) ly x' y"
proof (induction rule: rtranclp_induct)
  case base
  then show ?case by (intro exI [of _ "[]"]) simp
next
  case (step x1 x2)
  then obtain xs where "linked c (lx @ xs) ly x1 y" by blast
  from linked_step [OF this step.hyps(2)] show ?case by auto
qed

lemma reachable_linked:
  assumes "link_step\<^sup>*\<^sup>* (new_link c) (x, y)"
  shows "\<exists>lx ly. linked c lx ly x y"
proof -
  have "link_inv_at c (x, y)" using kcp_link_at.reachable_inv [OF refl assms] .
  moreover have "control_inv c (ep_kcp (fst l)) \<and> control_inv c (ep_kcp (snd l))" if "link_step\<^sup>*\<^sup>* (new_link c) l" for l
    using that
  proof (induction rule: rtranclp_induct)
    case base
    then show ?case using control.start_inv [of "new_stream c" c] by (simp add: new_link_def new_endpoint_def)
  next
    case (step l l')
    from step.hyps(2) step.IH show ?case
      by cases (auto dest!: ep_step_op intro: control.step_inv)
  qed
  ultimately show ?thesis using assms by (force simp: link_inv_at_def linked_def)
qed

subsection \<open>A flush at a chosen time\<close>

lemma update_clock_shape:
  assumes "update_clock k T = (slap, k3)"
  shows "\<exists>u f. u \<noteq> 0 \<and> k3 = k\<lparr>kc_current := T, kc_updated := u, kc_ts_flush := f\<rparr>"
proof -
  have "kc_updated k3 \<noteq> 0" "k3 = k\<lparr>kc_current := T, kc_updated := kc_updated k3, kc_ts_flush := kc_ts_flush k3\<rparr>"
    using assms by (auto simp: update_clock_def Let_def split: if_splits)
  then show ?thesis by blast
qed

lemma poke:
  obtains u f where "u \<noteq> 0"
    "(ep_step net)\<^sup>*\<^sup>* x (x\<lparr>ep_kcp := snd (ikcp_flush ((ep_kcp x)\<lparr>kc_current := T, kc_updated := u, kc_ts_flush := f\<rparr>)),
       ep_emitted := ep_emitted x @ fst (ikcp_flush ((ep_kcp x)\<lparr>kc_current := T, kc_updated := u, kc_ts_flush := f\<rparr>))\<rparr>)"
proof -
  obtain slap k3 where c: "update_clock (ep_kcp x) T = (slap, k3)" by (rule prod.exhaust)
  obtain u f where k3: "u \<noteq> 0" "k3 = (ep_kcp x)\<lparr>kc_current := T, kc_updated := u, kc_ts_flush := f\<rparr>"
    using update_clock_shape [OF c] by blast
  let ?to = "\<lambda>k. x\<lparr>ep_kcp := snd (ikcp_flush k), ep_emitted := ep_emitted x @ fst (ikcp_flush k)\<rparr>"
  show thesis
  proof (cases "slap \<ge> 0")
    case True
    then obtain f' where "ikcp_update (ep_kcp x) T = ikcp_flush ((ep_kcp x)\<lparr>kc_current := T, kc_updated := u, kc_ts_flush := f'\<rparr>)"
      by (auto simp: ikcp_update_def c Let_def k3(2))
    then have "ep_step net x (?to ((ep_kcp x)\<lparr>kc_current := T, kc_updated := u, kc_ts_flush := f'\<rparr>))"
      using ep_step.update [of x T] by (metis prod.collapse)
    with k3(1) show ?thesis by (intro that) auto
  next
    case False
    then have "ikcp_update (ep_kcp x) T = ([], k3)" by (simp add: ikcp_update_def c)
    then have "ep_step net x (x\<lparr>ep_kcp := k3, ep_emitted := ep_emitted x @ []\<rparr>)" by (rule ep_step.update)
    moreover have "ep_step net (x\<lparr>ep_kcp := k3, ep_emitted := ep_emitted x @ []\<rparr>) (?to k3)"
      using ep_step.flush [of "x\<lparr>ep_kcp := k3, ep_emitted := ep_emitted x @ []\<rparr>" "fst (ikcp_flush k3)" "snd (ikcp_flush k3)" net] by simp
    ultimately show ?thesis using k3 by (intro that) (auto intro: rtranclp.rtrancl_into_rtrancl)
  qed
qed

lemma flush_endpoint_segments:
  assumes inv: "endpoint_inv out app h inn got k" and u: "kc_updated k \<noteq> 0" and r: "ikcp_flush k = (outs, k')"
  shows "\<exists>xs. flushed out app h inn got k outs xs k'
    \<and> (\<forall>s\<in>set (flush_segments k). segment_ok (kc_conv k) (out @ xs) (received k) s
         \<and> sg_una s = kc_rcv_nxt k \<and> sg_wnd s = ikcp_wnd_unused k)"
proof -
  obtain xs where f: "flushed out app h inn got k outs xs k'" using flush_endpoint [OF inv r] ..
  then have s': "snd_inv (out @ xs) app h k'" and c': "kc_conv k' = kc_conv k" by (simp_all add: flushed_def endpoint_inv_def)
  note res = flush_result [OF r u]
  have ri: "rcv_inv inn got k" and ai: "ack_inv k" using inv by (simp_all add: endpoint_inv_def)
  have ctl: "control k s \<Longrightarrow> sg_cmd s \<in> {IKCP_CMD_ACK, IKCP_CMD_WASK, IKCP_CMD_WINS}
      \<Longrightarrow> (sg_cmd s = IKCP_CMD_ACK \<Longrightarrow> unat (sg_sn s) \<in> received k) \<Longrightarrow> segment_ok (kc_conv k) (out @ xs) (received k) s" for s
    by (rule control_segment_ok [OF ri])
  have ack0: "control k (ack_segment k)" "sg_cmd (ack_segment k) = IKCP_CMD_ACK" "sg_wnd (ack_segment k) = ikcp_wnd_unused k"
    by (simp_all add: control_def ack_segment_def ikcp_segment_new_def)
  have acks: "control k s \<and> sg_cmd s = IKCP_CMD_ACK \<and> sg_wnd s = ikcp_wnd_unused k \<and> unat (sg_sn s) \<in> received k"
    if mem: "s \<in> set (ack_segments k)" for s
  proof -
    obtain i where i: "i < nat (sint (kc_ackcount k))"
      and s: "s = (ack_segment k)\<lparr>sg_sn := fst (ikcp_ack_get k i), sg_ts := snd (ikcp_ack_get k i)\<rparr>"
      using mem by (auto simp: ack_segments_def)
    have "i < unat (kc_ackcount k)" using ack_indices [of "kc_ackcount k"] i by simp
    then have "i < length (pending_acks k)" "pending_acks k ! i = ikcp_ack_get k i"
      using ai by (auto simp: ack_inv_def ack_wf_def pending_acks_def ikcp_ack_get_def)
    then have "ikcp_ack_get k i \<in> set (pending_acks k)" by (metis nth_mem)
    then have "unat (fst (ikcp_ack_get k i)) \<in> received k" using ai by (auto simp: ack_inv_def)
    then show ?thesis using ack0 by (simp add: s control_def)
  qed
  have mv: "kc_rcv_nxt (move_snd_queue cw w j) = kc_rcv_nxt j" for cw w j using move_snd_queue_frame [of cw w j] by auto
  define seg where "seg = last (ack_segment k # ack_segments k)"
  have seg: "control k seg" "sg_wnd seg = ikcp_wnd_unused k"
    using ack0 acks [OF last_in_set] by (auto simp: seg_def)
  have "segment_ok (kc_conv k) (out @ xs) (received k) s \<and> sg_una s = kc_rcv_nxt k \<and> sg_wnd s = ikcp_wnd_unused k"
    if mem: "s \<in> set (flush_segments k)" for s
  proof -
    consider "s \<in> set (ack_segments k)" | "s \<in> set (probe_segments (probe_timer (k\<lparr>kc_ackcount := 0\<rparr>)) seg)"
      | p where "p \<in> set (kc_snd_buf (ready k))" "due (ready k) p" "s = sent_as (ready k) (ikcp_wnd_unused k) p"
      using mem u by (auto simp: flush_segments_def seg_def)
    then show ?thesis
    proof cases
      case 1
      from acks [OF this] ctl [of s] show ?thesis by (simp add: control_def)
    next
      case 2
      then obtain cmd where s: "s = seg\<lparr>sg_cmd := cmd\<rparr>" "cmd \<in> {IKCP_CMD_WASK, IKCP_CMD_WINS}"
        by (auto simp: probe_segments_def split: if_splits)
      then show ?thesis using seg ctl [of s] by (auto simp: control_def ikcp_cmds)
    next
      case 3
      then have "s \<in> set (kc_snd_buf k')" unfolding res(2) by force
      then have "carries (out @ xs) s" "sg_conv s = kc_conv k" "sg_cmd s = IKCP_CMD_PUSH"
        "length (sg_data s) \<le> unat (kc_mss k')" using s' c' by (auto simp: snd_inv_def)
      moreover have "kc_rcv_nxt (ready k) = kc_rcv_nxt k"
        by (simp add: ready_def Let_def mv probe_timer_def)
      then have "sg_una s = kc_rcv_nxt k" "sg_wnd s = ikcp_wnd_unused k" using 3(3) by (simp_all add: sent_as_def stamp_def)
      ultimately show ?thesis
        using rcv_prefix [OF ri] by (auto simp: segment_ok_def sendable_def carries_def known_cmd_def ikcp_cmds)
    qed
  qed
  with f show ?thesis by blast
qed


text \<open>An endpoint flushes at time \<open>T\<close>; all that goes out is logged and describes the endpoint.\<close>

lemma linked_poke:
  assumes l: "linked c lx ly x y"
  obtains k0 xs x' u f where "k0 = (ep_kcp x)\<lparr>kc_current := T, kc_updated := u, kc_ts_flush := f\<rparr>" and "u \<noteq> 0"
    and "x' = x\<lparr>ep_kcp := snd (ikcp_flush k0), ep_emitted := ep_emitted x @ fst (ikcp_flush k0)\<rparr>"
    and "(ep_step (ep_emitted y))\<^sup>*\<^sup>* x x'" and "linked c (lx @ xs) ly x' y"
    and "\<forall>s\<in>set (flush_segments k0). segment_ok c (lx @ xs) (received (ep_kcp x)) s
      \<and> sg_una s = kc_rcv_nxt (ep_kcp x) \<and> sg_wnd s = ikcp_wnd_unused (ep_kcp x)"
    and "\<forall>d\<in>set (fst (ikcp_flush k0)). length d \<le> unat (kc_mtu (ep_kcp x))"
proof -
  obtain u f where u: "u \<noteq> 0" and run: "(ep_step (ep_emitted y))\<^sup>*\<^sup>* x
      (x\<lparr>ep_kcp := snd (ikcp_flush ((ep_kcp x)\<lparr>kc_current := T, kc_updated := u, kc_ts_flush := f\<rparr>)),
         ep_emitted := ep_emitted x @ fst (ikcp_flush ((ep_kcp x)\<lparr>kc_current := T, kc_updated := u, kc_ts_flush := f\<rparr>))\<rparr>)"
    by (rule poke)
  define k0 where "k0 = (ep_kcp x)\<lparr>kc_current := T, kc_updated := u, kc_ts_flush := f\<rparr>"
  obtain outs k' where r: "ikcp_flush k0 = (outs, k')" by (rule prod.exhaust)
  define x' where "x' = x\<lparr>ep_kcp := snd (ikcp_flush k0), ep_emitted := ep_emitted x @ fst (ikcp_flush k0)\<rparr>"
  have x: "side_inv lx ly (received (ep_kcp y)) c x" and y: "side_inv ly lx (received (ep_kcp x)) c y"
    and cx: "control_inv c (ep_kcp x)" using l by (simp_all add: linked_def)
  have p0: "snd_part k0 = snd_part (ep_kcp x)" "rcv_part k0 = rcv_part (ep_kcp x)" "ack_part k0 = ack_part (ep_kcp x)"
    by (simp_all add: k0_def part_defs)
  have same: "received k0 = received (ep_kcp x)" "kc_conv k0 = kc_conv (ep_kcp x)" "kc_mtu k0 = kc_mtu (ep_kcp x)"
    "kc_conv (ep_kcp x) = c" "kc_rcv_nxt k0 = kc_rcv_nxt (ep_kcp x)" "ikcp_wnd_unused k0 = ikcp_wnd_unused (ep_kcp x)"
    using received_cong [OF p0(2)] x by (simp_all add: k0_def side_inv_def ikcp_wnd_unused_def)
  have "endpoint_inv lx (ep_sent x) (received (ep_kcp y)) ly (ep_got x) k0"
    using x endpoint_inv_cong [OF p0] by (simp add: side_inv_def)
  from flush_endpoint_segments [OF this _ r] u obtain xs where
    f: "flushed lx (ep_sent x) (received (ep_kcp y)) ly (ep_got x) k0 outs xs k'"
    and s: "\<forall>s\<in>set (flush_segments k0). segment_ok (kc_conv k0) (lx @ xs) (received k0) s
         \<and> sg_una s = kc_rcv_nxt k0 \<and> sg_wnd s = ikcp_wnd_unused k0" by (auto simp: k0_def)
  have f': "flushed lx (ep_sent x) (received (ep_kcp y)) ly (ep_got x) (ep_kcp x) outs xs k'"
    using f by (simp add: flushed_def same)
  have sx: "side_inv (lx @ xs) ly (received (ep_kcp y)) c x'" "received (ep_kcp x) \<subseteq> received (ep_kcp x')"
    using flushed_side [OF f' x] by (simp_all add: x'_def r)
  have "keeps (ep_kcp x) k0" using u by (simp add: k0_def keeps_same config_part_def)
  then have "keeps (ep_kcp x) k'" using keeps_flush [OF r] by (rule keeps_trans)
  then have "control_inv c (ep_kcp x')" using cx by (simp add: x'_def r control_inv_def keeps_def)
  moreover have "side_inv ly (lx @ xs) (received (ep_kcp x')) c y" using side_inv_peer [OF y sx(2)] side_inv_bound [OF sx(1)] by blast
  ultimately have "linked c (lx @ xs) ly x' y" using sx(1) l by (simp add: linked_def)
  moreover have "\<forall>d\<in>set (fst (ikcp_flush k0)). length d \<le> unat (kc_mtu (ep_kcp x))" using f' by (simp add: flushed_def r)
  ultimately show thesis using that [OF k0_def u x'_def] run s by (simp add: same flip: k0_def x'_def)
qed

text \<open>The backlog of a flushing endpoint stays the same; its send buffer grows at the end.\<close>

lemma move_snd_queue_shape:
  "\<exists>new. kc_snd_buf (move_snd_queue cwnd wnd k) = kc_snd_buf k @ new
    \<and> length new + length (kc_snd_queue (move_snd_queue cwnd wnd k)) = length (kc_snd_queue k)
    \<and> (kc_snd_queue k \<noteq> [] \<longrightarrow> itimediff (kc_snd_nxt k) (kc_snd_una k + cwnd) < 0 \<longrightarrow> new \<noteq> [])"
proof (induction cwnd wnd k rule: move_snd_queue.induct)
  case (1 cwnd wnd k)
  show ?case
  proof (cases "itimediff (kc_snd_nxt k) (kc_snd_una k + cwnd) < 0 \<and> kc_snd_queue k \<noteq> []")
    case True
    then obtain s rest where q: "itimediff (kc_snd_nxt k) (kc_snd_una k + cwnd) < 0" "kc_snd_queue k = s # rest" by (auto simp: neq_Nil_conv)
    from "1.IH" [OF q] q show ?thesis by (subst (1 2) move_snd_queue.simps) auto
  next
    case False
    then have "move_snd_queue cwnd wnd k = k" by (subst move_snd_queue.simps) (auto split: list.splits)
    with False show ?thesis by auto
  qed
qed

lemma flush_backlog:
  assumes "ikcp_flush k = (outs, k')" and "kc_updated k \<noteq> 0"
  shows "backlog k' = backlog k" and "\<exists>new. map sg_sn (kc_snd_buf k') = map sg_sn (kc_snd_buf k) @ new
    \<and> (kc_snd_queue k \<noteq> [] \<longrightarrow> itimediff (kc_snd_nxt k) (kc_snd_una k + send_window k) < 0 \<longrightarrow> new \<noteq> [])"
proof -
  define k2 where "k2 = (probe_timer (k\<lparr>kc_ackcount := 0\<rparr>))\<lparr>kc_probe := 0\<rparr>"
  have k2: "kc_snd_buf k2 = kc_snd_buf k" "kc_snd_queue k2 = kc_snd_queue k" "kc_snd_nxt k2 = kc_snd_nxt k"
    "kc_snd_una k2 = kc_snd_una k" "send_window k2 = send_window k"
    by (simp_all add: k2_def probe_timer_def send_window_def Let_def)
  obtain new where new: "kc_snd_buf (ready k) = kc_snd_buf k @ new"
    "length new + length (kc_snd_queue (ready k)) = length (kc_snd_queue k)"
    "kc_snd_queue k \<noteq> [] \<longrightarrow> itimediff (kc_snd_nxt k) (kc_snd_una k + send_window k) < 0 \<longrightarrow> new \<noteq> []"
    using move_snd_queue_shape [of "send_window k2" "ikcp_wnd_unused k" k2] k2 by (auto simp: ready_def Let_def simp flip: k2_def)
  note res = flush_result [OF assms]
  have "map sg_sn (kc_snd_buf k') = map sg_sn (kc_snd_buf (ready k))"
    unfolding res(2) by (auto simp: sent_as_def stamp_def schedule_def split: transmit.splits)
  then show "\<exists>new. map sg_sn (kc_snd_buf k') = map sg_sn (kc_snd_buf k) @ new
    \<and> (kc_snd_queue k \<noteq> [] \<longrightarrow> itimediff (kc_snd_nxt k) (kc_snd_una k + send_window k) < 0 \<longrightarrow> new \<noteq> [])"
    using new(1,3) by (intro exI [of _ "map sg_sn new"]) simp
  show "backlog k' = backlog k" using new(1,2) by (simp add: backlog_def res(2,3))
qed

text \<open>A segment a flush sends is in one of its datagrams.\<close>

lemma flush_datagram:
  assumes "ikcp_flush k = (outs, k')" and "kc_updated k \<noteq> 0" and "s \<in> set (flush_segments k)"
  obtains ss where "concat (map wire ss) \<in> set outs" and "s \<in> set ss" and "set ss \<subseteq> set (flush_segments k)"
proof -
  obtain sss where "outs = map (\<lambda>s. concat (map wire s)) sss" "concat sss = flush_segments k"
    using flush_result(1) [OF assms(1,2)] by blast
  moreover from this assms(3) obtain ss where "ss \<in> set sss" "s \<in> set ss" by (metis UN_E set_concat)
  ultimately show thesis by (intro that [of ss]) (auto simp flip: \<open>concat sss = flush_segments k\<close>)
qed


subsection \<open>The receiving application reads\<close>

text \<open>What reading does not change.\<close>

definition reads :: "endpoint \<Rightarrow> endpoint \<Rightarrow> bool" where
  "reads y y' \<longleftrightarrow> ep_sent y' = ep_sent y \<and> ep_emitted y' = ep_emitted y
     \<and> snd_part (ep_kcp y') = snd_part (ep_kcp y) \<and> ack_part (ep_kcp y') = ack_part (ep_kcp y)
     \<and> received (ep_kcp y') = received (ep_kcp y)
     \<and> (kc_probe (ep_kcp y) AND IKCP_ASK_TELL \<noteq> 0 \<longrightarrow> kc_probe (ep_kcp y') AND IKCP_ASK_TELL \<noteq> 0)"

lemma read_one:
  assumes inv: "rcv_inv log got (ep_kcp y)" and q: "kc_rcv_queue (ep_kcp y) \<noteq> []"
  obtains y1 where "ep_step net y y1" and "reads y y1"
    and "length (kc_rcv_queue (ep_kcp y1)) + length (kc_rcv_buf (ep_kcp y1))
       < length (kc_rcv_queue (ep_kcp y)) + length (kc_rcv_buf (ep_kcp y))"
proof -
  obtain seg rest where s: "kc_rcv_queue (ep_kcp y) = seg # rest" using q by (cases "kc_rcv_queue (ep_kcp y)") auto
  have "length (seg_bytes seg) < 2 ^ 31" using inv s by (auto simp: rcv_inv_def seg_bytes_def)
  then have fits: "\<not> int (length (seg_bytes seg)) > 2 ^ 31" by simp
  obtain ret bs k' where r: "ikcp_recv (ep_kcp y) (2 ^ 31) = (ret, bs, k')" by (rule prod_cases3)
  let ?k1 = "(ep_kcp y)\<lparr>kc_rcv_queue := rest, kc_nrcv_que := kc_nrcv_que (ep_kcp y) - 1\<rparr>"
  have k': "k' = move_rcv_buf ?k1 \<or> k' = (move_rcv_buf ?k1)\<lparr>kc_probe := kc_probe (move_rcv_buf ?k1) OR IKCP_ASK_TELL\<rparr>"
    using r recv_first [OF inv s, of "2 ^ 31"] fits by (auto simp: Let_def split: if_splits)
  have "length (kc_rcv_queue k') + length (kc_rcv_buf k') = length (kc_rcv_queue ?k1) + length (kc_rcv_buf ?k1)"
    using k' move_rcv_buf_length [of ?k1] by auto
  moreover have "kc_probe (ep_kcp y) AND IKCP_ASK_TELL \<noteq> 0 \<longrightarrow> kc_probe k' AND IKCP_ASK_TELL \<noteq> 0"
    using k' or_tell by (auto simp: move_rcv_buf_frame)
  moreover have "received k' = received (ep_kcp y) \<and> snd_part k' = snd_part (ep_kcp y) \<and> ack_part k' = ack_part (ep_kcp y)"
    using recv_inv [OF inv _ r] by simp
  moreover have "ep_step net y (y\<lparr>ep_kcp := k', ep_got := ep_got y @ bs\<rparr>)" by (rule ep_step.recv [OF r]) simp
  ultimately show thesis using s by (intro that [of "y\<lparr>ep_kcp := k', ep_got := ep_got y @ bs\<rparr>"]) (auto simp: reads_def)
qed

lemma linked_step_right: "linked c lx ly x y \<Longrightarrow> ep_step (ep_emitted x) y y' \<Longrightarrow> \<exists>ys. linked c lx (ly @ ys) x y'"
  using linked_step linked_sym by metis

lemma linked_rcv: "linked c lx ly x y \<Longrightarrow> rcv_inv lx (ep_got y) (ep_kcp y) \<and> drained (ep_kcp y)"
  by (simp add: linked_def side_inv_def endpoint_inv_def)

lemma drain:
  assumes "linked c lx ly x y"
  shows "\<exists>y' ly'. (ep_step (ep_emitted x))\<^sup>*\<^sup>* y y' \<and> linked c lx ly' x y' \<and> kc_rcv_queue (ep_kcp y') = [] \<and> reads y y'"
  using assms
proof (induction "length (kc_rcv_queue (ep_kcp y)) + length (kc_rcv_buf (ep_kcp y))" arbitrary: y ly rule: less_induct)
  case less
  show ?case
  proof (cases "kc_rcv_queue (ep_kcp y) = []")
    case True
    then show ?thesis using less.prems by (intro exI [of _ y] exI [of _ ly]) (simp add: reads_def)
  next
    case False
    obtain y1 where y1: "ep_step (ep_emitted x) y y1" "reads y y1"
      and lt: "length (kc_rcv_queue (ep_kcp y1)) + length (kc_rcv_buf (ep_kcp y1))
        < length (kc_rcv_queue (ep_kcp y)) + length (kc_rcv_buf (ep_kcp y))"
      by (rule read_one [OF conjunct1 [OF linked_rcv [OF less.prems]] False])
    obtain ys where "linked c lx (ly @ ys) x y1" using linked_step_right [OF less.prems y1(1)] by blast
    from less.hyps [OF lt this] obtain y' ly' where "(ep_step (ep_emitted x))\<^sup>*\<^sup>* y1 y'" "linked c lx ly' x y'"
      "kc_rcv_queue (ep_kcp y') = []" "reads y1 y'" by blast
    then show ?thesis using y1
      by (intro exI [of _ y'] exI [of _ ly']) (auto simp: reads_def intro: converse_rtranclp_into_rtranclp)
  qed
qed

text \<open>The peer reads everything and sends its acknowledgements.\<close>

lemma settle:
  assumes l: "linked c lx ly x y"
  obtains y' ly' where "(ep_step (ep_emitted x))\<^sup>*\<^sup>* y y'" and "linked c lx ly' x y'" and "kc_rcv_queue (ep_kcp y') = []"
    and "kc_ackcount (ep_kcp y') = 0" and "ep_sent y' = ep_sent y" and "backlog (ep_kcp y') = backlog (ep_kcp y)"
proof -
  obtain y1 ly1 where r1: "(ep_step (ep_emitted x))\<^sup>*\<^sup>* y y1" and l1: "linked c lx ly1 x y1" and q1: "kc_rcv_queue (ep_kcp y1) = []"
    and e1: "reads y y1" using drain [OF l] by blast
  obtain k0 xs y2 u f where k0: "k0 = (ep_kcp y1)\<lparr>kc_current := 0, kc_updated := u, kc_ts_flush := f\<rparr>" "u \<noteq> 0"
    and y2: "y2 = y1\<lparr>ep_kcp := snd (ikcp_flush k0), ep_emitted := ep_emitted y1 @ fst (ikcp_flush k0)\<rparr>"
    and r2: "(ep_step (ep_emitted x))\<^sup>*\<^sup>* y1 y2" and l2: "linked c (ly1 @ xs) lx y2 x"
    using linked_poke [OF l1 [unfolded linked_sym [of c lx]], of 0] by metis
  have u0: "kc_updated k0 \<noteq> 0" using k0 by simp
  note res = flush_result [OF prod.collapse [symmetric] u0]
  have "kc_rcv_queue (ep_kcp y2) = []" using res(9) q1 k0 by (simp add: y2 rcv_part_def)
  moreover have "kc_ackcount (ep_kcp y2) = 0" using res(4) by (simp add: y2)
  moreover have "ep_sent y2 = ep_sent y" using e1 by (simp add: y2 reads_def)
  moreover have "backlog (ep_kcp y2) = backlog (ep_kcp y)"
    using flush_backlog(1) [OF prod.collapse [symmetric] u0] e1 k0 by (simp add: y2 backlog_def reads_def snd_part_def)
  ultimately show thesis using r1 r2 l2 linked_sym by (intro that [of y2 "ly1 @ xs"]) (auto intro: rtranclp_trans)
qed


subsection \<open>The peer answers a datagram\<close>

lemma probe_answer:
  assumes "kc_updated k \<noteq> 0" and "kc_probe k AND IKCP_ASK_TELL \<noteq> 0"
  shows "flush_segments k \<noteq> []"
proof -
  have "kc_probe (probe_timer (k\<lparr>kc_ackcount := 0\<rparr>)) AND IKCP_ASK_TELL \<noteq> 0"
    using assms(2) or_tell(1) by (auto simp: probe_timer_def Let_def)
  then show ?thesis using assms(1) by (simp add: flush_segments_def probe_segments_def)
qed

lemma ack_answer:
  assumes "kc_updated k \<noteq> 0" and "0 < unat (kc_ackcount k)" and "unat (kc_ackcount k) < 2 ^ 31"
  shows "flush_segments k \<noteq> []"
proof -
  have "0 < sint (kc_ackcount k)" using assms(2,3) by (simp only: sint_small of_nat_0_less_iff)
  then show ?thesis using assms(1) by (simp add: flush_segments_def ack_segments_def)
qed

lemma length_wires: "length segs \<le> length (concat (map wire segs))"
  by (induction segs) (auto simp: wire_def)

text \<open>A datagram with a window probe or with data the peer expects or has: the peer takes it in, its
  application reads, and it flushes.  Then it holds the data, and what it emits announces an open window
  and acknowledges everything up to its receive position.\<close>

definition answered :: "IKCPSEG \<Rightarrow> endpoint \<Rightarrow> endpoint \<Rightarrow> IKCPSEG list \<Rightarrow> bool" where
  "answered s y y' ss \<longleftrightarrow> ep_sent y' = ep_sent y \<and> backlog (ep_kcp y') \<le> backlog (ep_kcp y)
     \<and> concat (map wire ss) \<in> set (ep_emitted y') \<and> ss \<noteq> []
     \<and> (\<forall>t\<in>set ss. sg_wnd t = 4096 \<and> sg_una t = kc_rcv_nxt (ep_kcp y'))
     \<and> (sg_cmd s = IKCP_CMD_PUSH \<longrightarrow> seq s < rcv_pos (ep_kcp y'))"

lemma answer:
  assumes l: "linked c lx ly x y" and q: "kc_rcv_queue (ep_kcp y) = []" and ac: "kc_ackcount (ep_kcp y) = 0"
    and d: "concat (map wire ss) \<in> set (ep_emitted x)" "length (concat (map wire ss)) \<le> 16384"
    and ok: "\<forall>s\<in>set ss. segment_ok c lx (received (ep_kcp x)) s"
    and s: "s \<in> set ss" "sg_cmd s = IKCP_CMD_WASK \<or> sg_cmd s = IKCP_CMD_PUSH \<and> seq s \<le> rcv_pos (ep_kcp y)"
  shows "\<exists>y' ly' ts. (ep_step (ep_emitted x))\<^sup>*\<^sup>* y y' \<and> linked c lx ly' x y' \<and> answered s y y' ts
    \<and> (\<forall>t\<in>set ts. sendable c t)"
proof -
  have ey: "endpoint_inv ly (ep_sent y) (received (ep_kcp x)) lx (ep_got y) (ep_kcp y)" and cy: "kc_conv (ep_kcp y) = c"
    using l by (simp_all add: linked_def side_inv_def)
  obtain ret k1 where r: "ikcp_input (ep_kcp y) (concat (map wire ss)) = (ret, k1)" by (rule prod.exhaust)
  define y1 where "y1 = y\<lparr>ep_kcp := k1\<rparr>"
  have st1: "ep_step (ep_emitted x) y y1" unfolding y1_def by (rule ep_step.input [OF d(1) r])
  obtain ys where l1: "linked c lx (ly @ ys) x y1" using linked_step_right [OF l st1] by blast
  have snd: "\<forall>s\<in>set ss. sendable (kc_conv (ep_kcp y)) s" using ok cy by (simp add: segment_ok_def)
  have ne: "ss \<noteq> []" using s(1) by auto
  obtain kf acc where f: "input_all ss ((ep_kcp y)\<lparr>kc_ackedlen := 0\<rparr>, (False, 0, 0)) = (kf, acc)"
    and kf: "map sg_sn (kc_snd_buf k1) = map sg_sn (kc_snd_buf kf)" "kc_snd_queue k1 = kc_snd_queue kf"
      "kc_probe k1 = kc_probe kf" "ack_part k1 = ack_part kf"
    by (rule input_is_all [OF snd ne r])
  note eff = input_all_effect [OF f]
  have sh: "backlog k1 \<le> backlog (ep_kcp y)"
    using shrinks_backlog [OF eff(1)] kf(1,2) map_eq_imp_length_eq [OF kf(1)] by (simp add: backlog_def)
  have p0: "snd_part ((ep_kcp y)\<lparr>kc_ackedlen := 0\<rparr>) = snd_part (ep_kcp y)" "rcv_part ((ep_kcp y)\<lparr>kc_ackedlen := 0\<rparr>) = rcv_part (ep_kcp y)"
    "ack_part ((ep_kcp y)\<lparr>kc_ackedlen := 0\<rparr>) = ack_part (ep_kcp y)" by (simp_all add: part_defs)
  have e0: "endpoint_inv ly (ep_sent y) (received (ep_kcp x)) lx (ep_got y) ((ep_kcp y)\<lparr>kc_ackedlen := 0\<rparr>)"
    using ey endpoint_inv_cong [OF p0] by simp
  have cnt: "unat (kc_ackcount ((ep_kcp y)\<lparr>kc_ackedlen := 0\<rparr>)) + length ss < 2 ^ 31"
    using ac length_wires [of ss] d(2) by simp
  have ok0: "\<forall>s\<in>set ss. segment_ok (kc_conv ((ep_kcp y)\<lparr>kc_ackedlen := 0\<rparr>)) lx (received (ep_kcp x)) s" using ok cy by simp
  note pend = input_all_pending [OF e0 ok0 f cnt]
  have wf1: "ack_inv k1" using l1 by (simp add: linked_def side_inv_def endpoint_inv_def y1_def)
  have same1: "pending_acks k1 = pending_acks kf" "kc_ackcount k1 = kc_ackcount kf" using kf(4) by (simp_all add: ack_part_def pending_acks_def)
  have push: "seq s \<in> received k1 \<and> 0 < unat (kc_ackcount k1) \<and> unat (kc_ackcount k1) < 2 ^ 31" if "sg_cmd s = IKCP_CMD_PUSH"
  proof -
    have "seq s \<le> rcv_pos ((ep_kcp y)\<lparr>kc_ackedlen := 0\<rparr>)" using s(2) that rcv_pos_cong [OF p0(2)] by (simp add: ikcp_cmds)
    then have m: "sg_sn s \<in> fst ` set (pending_acks k1)" using pend(3) [OF s(1) that] same1 by simp
    then have "seq s \<in> received k1" using wf1 by (auto simp: ack_inv_def seq_def)
    moreover have "kc_ackcount k1 \<noteq> 0" using m by (auto simp: pending_acks_def)
    then have "0 < unat (kc_ackcount k1)" by (simp add: unat_gt_0)
    ultimately show ?thesis using pend(2) same1 by simp
  qed
  have rec: "received (ep_kcp y) \<subseteq> received k1"
  proof -
    have "\<forall>d\<in>set (ep_emitted x). datagram_ok (kc_conv (ep_kcp y)) lx (received (ep_kcp x)) d" using l cy by (simp add: linked_def side_inv_def)
    with d(1) have "datagram_ok (kc_conv (ep_kcp y)) lx (received (ep_kcp x)) (concat (map wire ss))" by blast
    from input_endpoint [OF ey this r] show ?thesis by blast
  qed
  obtain y2 ly2 where r2: "(ep_step (ep_emitted x))\<^sup>*\<^sup>* y1 y2" and l2: "linked c lx ly2 x y2" and q2: "kc_rcv_queue (ep_kcp y2) = []"
    and e2: "reads y1 y2" using drain [OF l1] by blast
  have rc2: "received (ep_kcp y2) = received k1" and ac2: "kc_ackcount (ep_kcp y2) = kc_ackcount k1"
    and bl2: "backlog (ep_kcp y2) = backlog k1" and sent2: "ep_sent y2 = ep_sent y"
    and tell2: "kc_probe k1 AND IKCP_ASK_TELL \<noteq> 0 \<longrightarrow> kc_probe (ep_kcp y2) AND IKCP_ASK_TELL \<noteq> 0"
    using e2 by (simp_all add: reads_def y1_def ack_part_def snd_part_def backlog_def)
  have i2: "rcv_inv lx (ep_got y2) (ep_kcp y2)" "drained (ep_kcp y2)" using linked_rcv [OF l2] by blast+
  have pos: "seq s < rcv_pos (ep_kcp y2)" if pu: "sg_cmd s = IKCP_CMD_PUSH"
  proof -
    have "\<forall>m<Suc (seq s). m \<in> received (ep_kcp y2)"
    proof (intro allI impI)
      fix m assume "m < Suc (seq s)"
      then have "m = seq s \<or> m < rcv_pos (ep_kcp y)" using s(2) pu by (auto simp: ikcp_cmds)
      then show "m \<in> received (ep_kcp y2)" using push [OF pu] rec rc2 by (auto simp: received_def)
    qed
    from drained_pos [OF i2 q2 this] show ?thesis by simp
  qed
  have "kc_rcv_wnd (ep_kcp y2) = 4096" using l2 by (simp add: linked_def control_inv_def new_stream_control config_part_def)
  then have wnd: "ikcp_wnd_unused (ep_kcp y2) = 4096" using i2(1) q2 by (simp add: ikcp_wnd_unused_def rcv_inv_def)
  obtain k0 xs y3 u f where k0: "k0 = (ep_kcp y2)\<lparr>kc_current := 0, kc_updated := u, kc_ts_flush := f\<rparr>" "u \<noteq> 0"
    and y3: "y3 = y2\<lparr>ep_kcp := snd (ikcp_flush k0), ep_emitted := ep_emitted y2 @ fst (ikcp_flush k0)\<rparr>"
    and r3: "(ep_step (ep_emitted x))\<^sup>*\<^sup>* y2 y3" and l3: "linked c (ly2 @ xs) lx y3 x"
    and seg3: "\<forall>s\<in>set (flush_segments k0). segment_ok c (ly2 @ xs) (received (ep_kcp y2)) s
      \<and> sg_una s = kc_rcv_nxt (ep_kcp y2) \<and> sg_wnd s = ikcp_wnd_unused (ep_kcp y2)"
    using linked_poke [OF l2 [unfolded linked_sym [of c lx]], of 0] by metis
  have u0: "kc_updated k0 \<noteq> 0" using k0 by simp
  have "flush_segments k0 \<noteq> []"
  proof (cases "sg_cmd s = IKCP_CMD_PUSH")
    case True
    then show ?thesis using ack_answer [OF u0] push ac2 k0 by simp
  next
    case False
    then have "kc_probe kf AND IKCP_ASK_TELL \<noteq> 0" using eff(3) s by blast
    then show ?thesis using probe_answer [OF u0] kf(3) tell2 k0 by simp
  qed
  then obtain t where "t \<in> set (flush_segments k0)" by (cases "flush_segments k0") auto
  then obtain ts where ts: "concat (map wire ts) \<in> set (fst (ikcp_flush k0))" "t \<in> set ts" "set ts \<subseteq> set (flush_segments k0)"
    by (rule flush_datagram [OF prod.collapse [symmetric] u0])
  have "rcv_part (ep_kcp y3) = rcv_part (ep_kcp y2)"
    using flush_result(9) [OF prod.collapse [symmetric] u0] k0 by (simp add: y3 rcv_part_def)
  then have p3: "kc_rcv_nxt (ep_kcp y3) = kc_rcv_nxt (ep_kcp y2)" "rcv_pos (ep_kcp y3) = rcv_pos (ep_kcp y2)"
    by (simp_all add: rcv_part_def rcv_pos_def)
  have "backlog (ep_kcp y3) = backlog (ep_kcp y2)"
    using flush_backlog(1) [OF prod.collapse [symmetric] u0] k0 by (simp add: y3 backlog_def)
  then have "answered s y y3 ts"
    using ts seg3 p3 pos wnd sh bl2 sent2 by (auto simp: answered_def y3)
  moreover have "\<forall>t\<in>set ts. sendable c t" using ts(3) seg3 by (auto simp: segment_ok_def)
  moreover have "(ep_step (ep_emitted x))\<^sup>*\<^sup>* y y3"
    using st1 r2 r3 by (meson converse_rtranclp_into_rtranclp rtranclp_trans)
  ultimately show ?thesis using l3 linked_sym by blast
qed


subsection \<open>Rounds\<close>

text \<open>The other side takes the answer in.\<close>

lemma absorb:
  assumes l: "linked c lx ly x y" and a: "answered s y0 y ts" and ok: "\<forall>t\<in>set ts. sendable c t"
  shows "\<exists>x' lx'. ep_step (ep_emitted y) x x' \<and> linked c lx' ly x' y \<and> ep_sent x' = ep_sent x
    \<and> kc_rmt_wnd (ep_kcp x') = 4096 \<and> backlog (ep_kcp x') \<le> backlog (ep_kcp x)
    \<and> (\<forall>p rest. kc_snd_buf (ep_kcp x) = p # rest \<longrightarrow> sg_cmd s = IKCP_CMD_PUSH \<longrightarrow> seq p = seq s \<longrightarrow> seq s < 2 ^ 30
         \<longrightarrow> backlog (ep_kcp x') < backlog (ep_kcp x))"
proof -
  have d: "concat (map wire ts) \<in> set (ep_emitted y)" "ts \<noteq> []" using a by (simp_all add: answered_def)
  obtain ret k1 where r: "ikcp_input (ep_kcp x) (concat (map wire ts)) = (ret, k1)" by (rule prod.exhaust)
  define x1 where "x1 = x\<lparr>ep_kcp := k1\<rparr>"
  have st: "ep_step (ep_emitted y) x x1" unfolding x1_def by (rule ep_step.input [OF d(1) r])
  obtain xs where l1: "linked c (lx @ xs) ly x1 y" using linked_step [OF l st] by blast
  have cx: "kc_conv (ep_kcp x) = c" using l by (simp add: linked_def side_inv_def)
  obtain kf acc where f: "input_all ts ((ep_kcp x)\<lparr>kc_ackedlen := 0\<rparr>, (False, 0, 0)) = (kf, acc)"
    and kf: "map sg_sn (kc_snd_buf k1) = map sg_sn (kc_snd_buf kf)" "kc_snd_queue k1 = kc_snd_queue kf" "kc_rmt_wnd k1 = kc_rmt_wnd kf"
    by (rule input_is_all [OF _ d(2) r]) (use ok cx in auto)
  note eff = input_all_effect [OF f]
  have same: "backlog k1 = backlog kf" using kf(1,2) map_eq_imp_length_eq [OF kf(1)] by (simp add: backlog_def)
  have b0: "backlog ((ep_kcp x)\<lparr>kc_ackedlen := 0\<rparr>) = backlog (ep_kcp x)" by (simp add: backlog_def)
  have "kc_rmt_wnd (ep_kcp x1) = 4096" using eff(4) [OF d(2)] a kf(3) by (simp add: answered_def x1_def)
  moreover have "backlog (ep_kcp x1) \<le> backlog (ep_kcp x)" using shrinks_backlog [OF eff(1)] same b0 by (simp add: x1_def)
  moreover have "backlog (ep_kcp x1) < backlog (ep_kcp x)"
    if p: "kc_snd_buf (ep_kcp x) = p # rest" "sg_cmd s = IKCP_CMD_PUSH" "seq p = seq s" "seq s < 2 ^ 30" for p rest
  proof -
    have lt: "seq s < rcv_pos (ep_kcp y)" using a p(2) by (simp add: answered_def)
    have "rcv_inv lx (ep_got y) (ep_kcp y)" using linked_rcv [OF l] by blast
    then have "rcv_pos (ep_kcp y) \<le> 2 ^ 30" by (simp add: rcv_inv_def)
    then have "itimediff (word_of_nat (rcv_pos (ep_kcp y))) (word_of_nat (seq p)) = int (rcv_pos (ep_kcp y)) - int (seq p)"
      using p(3,4) by (intro itimediff_of_nat) auto
    then have "itimediff (kc_rcv_nxt (ep_kcp y)) (sg_sn p) > 0" using lt p(3) unfolding word_of_nat_rcv_pos word_of_nat_seq by linarith
    moreover have u: "\<forall>t\<in>set ts. sg_una t = kc_rcv_nxt (ep_kcp y)" using a by (simp add: answered_def)
    moreover have "kc_snd_buf ((ep_kcp x)\<lparr>kc_ackedlen := 0\<rparr>) = p # rest" using p(1) by simp
    ultimately have "backlog kf < backlog ((ep_kcp x)\<lparr>kc_ackedlen := 0\<rparr>)" using input_all_head [OF f d(2) u] by blast
    then show ?thesis using same b0 by (simp add: x1_def)
  qed
  ultimately show ?thesis using st l1 by (intro exI [of _ x1] exI [of _ "lx @ xs"]) (auto simp: x1_def)
qed

text \<open>Reaching a state with the same data sent, and no more waiting.\<close>

definition onward :: "endpoint \<times> endpoint \<Rightarrow> endpoint \<times> endpoint \<Rightarrow> bool" where
  "onward l l' \<longleftrightarrow> link_step\<^sup>*\<^sup>* l l' \<and> ep_sent (fst l') = ep_sent (fst l) \<and> ep_sent (snd l') = ep_sent (snd l)
     \<and> backlog (ep_kcp (fst l')) \<le> backlog (ep_kcp (fst l)) \<and> backlog (ep_kcp (snd l')) \<le> backlog (ep_kcp (snd l))"

lemma onward_refl: "onward l l"
  by (simp add: onward_def)

lemma onward_trans: "onward l1 l2 \<Longrightarrow> onward l2 l3 \<Longrightarrow> onward l1 l3"
  by (auto simp: onward_def)

lemma exchange:
  assumes l: "linked c lx ly x y" and q: "kc_rcv_queue (ep_kcp y) = []" and ac: "kc_ackcount (ep_kcp y) = 0"
    and d: "concat (map wire ss) \<in> set (ep_emitted x)" "length (concat (map wire ss)) \<le> 16384"
    and ok: "\<forall>s\<in>set ss. segment_ok c lx (received (ep_kcp x)) s"
    and s: "s \<in> set ss" "sg_cmd s = IKCP_CMD_WASK \<or> sg_cmd s = IKCP_CMD_PUSH \<and> seq s \<le> rcv_pos (ep_kcp y)"
  shows "\<exists>x' y' lx' ly'. onward (x, y) (x', y') \<and> linked c lx' ly' x' y' \<and> kc_rmt_wnd (ep_kcp x') = 4096
    \<and> (\<forall>p rest. kc_snd_buf (ep_kcp x) = p # rest \<longrightarrow> sg_cmd s = IKCP_CMD_PUSH \<longrightarrow> seq p = seq s \<longrightarrow> seq s < 2 ^ 30
         \<longrightarrow> backlog (ep_kcp x') < backlog (ep_kcp x))"
proof -
  obtain y' ly' ts where y': "(ep_step (ep_emitted x))\<^sup>*\<^sup>* y y'" "linked c lx ly' x y'" "answered s y y' ts"
    "\<forall>t\<in>set ts. sendable c t" using answer [OF assms] by blast
  obtain x' lx' where x': "ep_step (ep_emitted y') x x'" "linked c lx' ly' x' y'" "ep_sent x' = ep_sent x"
    "kc_rmt_wnd (ep_kcp x') = 4096" "backlog (ep_kcp x') \<le> backlog (ep_kcp x)"
    "\<forall>p rest. kc_snd_buf (ep_kcp x) = p # rest \<longrightarrow> sg_cmd s = IKCP_CMD_PUSH \<longrightarrow> seq p = seq s \<longrightarrow> seq s < 2 ^ 30
         \<longrightarrow> backlog (ep_kcp x') < backlog (ep_kcp x)" using absorb [OF y'(2-4)] by blast
  have "link_step\<^sup>*\<^sup>* (x, y) (x', y')"
    using ep_run_right [OF y'(1)] link_step.left [OF x'(1)] by (rule rtranclp.rtrancl_into_rtrancl)
  then have "onward (x, y) (x', y')" using y'(3) x'(3,5) by (simp add: onward_def answered_def)
  with x' show ?thesis by blast
qed


lemma linked_config:
  assumes "linked c lx ly x y"
  shows "kc_snd_wnd (ep_kcp x) = 4096" "kc_nocwnd (ep_kcp x) = 1" "una_first (ep_kcp x)" "unat (kc_mtu (ep_kcp x)) = 16384"
proof -
  have "config_part (ep_kcp x) = config_part (new_stream c)" "una_first (ep_kcp x)" using assms by (simp_all add: linked_def control_inv_def)
  then show "kc_snd_wnd (ep_kcp x) = 4096" "kc_nocwnd (ep_kcp x) = 1" "una_first (ep_kcp x)" "unat (kc_mtu (ep_kcp x)) = 16384"
    unfolding new_stream_control(3) by (simp_all add: config_part_def)
qed

text \<open>Data in the send buffer: the first segment is sent again when its timer runs out, and acknowledged.\<close>

lemma retransmit:
  assumes u: "kc_updated k \<noteq> 0" and p: "kc_snd_buf k = p # rest" and t: "kc_current k = sg_resendts p"
  shows "sent_as (ready k) (ikcp_wnd_unused k) p \<in> set (flush_segments k)"
proof -
  define k2 where "k2 = (probe_timer (k\<lparr>kc_ackcount := 0\<rparr>))\<lparr>kc_probe := 0\<rparr>"
  have k2: "kc_snd_buf k2 = kc_snd_buf k" "kc_current k2 = kc_current k" by (simp_all add: k2_def probe_timer_def Let_def)
  have r: "ready k = move_snd_queue (send_window k2) (ikcp_wnd_unused k) k2" by (simp add: ready_def Let_def flip: k2_def)
  have "p \<in> set (kc_snd_buf (ready k))"
    using move_snd_queue_shape [of "send_window k2" "ikcp_wnd_unused k" k2] p k2 by (auto simp: r)
  moreover have "kc_current (ready k) = kc_current k"
    using move_snd_queue_frame [of "send_window k2" "ikcp_wnd_unused k" k2] k2 by (auto simp: r)
  then have "due (ready k) p" using t by (simp add: due_def transmit_kind_def)
  ultimately show ?thesis using u by (auto simp: flush_segments_def)
qed

lemma first_number:
  assumes l: "linked c lx ly x y" and p: "kc_snd_buf (ep_kcp x) = p # rest" and q: "kc_rcv_queue (ep_kcp y) = []"
  shows "seq p \<le> rcv_pos (ep_kcp y)" and "seq p < 2 ^ 30"
proof -
  have s: "snd_inv lx (ep_sent x) (received (ep_kcp y)) (ep_kcp x)" using l by (simp add: linked_def side_inv_def endpoint_inv_def)
  have lt: "seq p < length lx" using s p by (auto simp: snd_inv_def carries_def)
  then show "seq p < 2 ^ 30" using s by (simp add: snd_inv_def)
  have "\<forall>m < seq p. m \<in> received (ep_kcp y)"
  proof (intro allI impI)
    fix m assume m: "m < seq p"
    then have "m \<notin> seq ` set (kc_snd_buf (ep_kcp x))" using s p by (auto simp: snd_inv_def)
    moreover have "\<forall>n<length lx. n \<in> seq ` set (kc_snd_buf (ep_kcp x)) \<or> n \<in> received (ep_kcp y)" using s by (simp add: snd_inv_def)
    moreover have "m < length lx" using m lt by simp
    ultimately show "m \<in> received (ep_kcp y)" by blast
  qed
  then show "seq p \<le> rcv_pos (ep_kcp y)" using drained_pos q linked_rcv [OF l] by blast
qed

lemma sent_core: "sg_cmd (sent_as k w p) = sg_cmd p" "seq (sent_as k w p) = seq p"
  by (auto simp: sent_as_def stamp_def schedule_def seq_def split: transmit.splits)

lemma deliver_first:
  assumes l: "linked c lx ly x y" and b: "kc_snd_buf (ep_kcp x) \<noteq> []"
  shows "\<exists>x' y' lx' ly'. onward (x, y) (x', y') \<and> linked c lx' ly' x' y' \<and> backlog (ep_kcp x') < backlog (ep_kcp x)"
proof -
  obtain y1 ly1 where y1: "(ep_step (ep_emitted x))\<^sup>*\<^sup>* y y1" "linked c lx ly1 x y1" "kc_rcv_queue (ep_kcp y1) = []"
    "kc_ackcount (ep_kcp y1) = 0" "ep_sent y1 = ep_sent y" "backlog (ep_kcp y1) = backlog (ep_kcp y)"
    by (rule settle [OF l])
  obtain p rest where p: "kc_snd_buf (ep_kcp x) = p # rest" using b by (cases "kc_snd_buf (ep_kcp x)") auto
  obtain k0 xs x1 u f where k0: "k0 = (ep_kcp x)\<lparr>kc_current := sg_resendts p, kc_updated := u, kc_ts_flush := f\<rparr>" "u \<noteq> 0"
    and x1: "x1 = x\<lparr>ep_kcp := snd (ikcp_flush k0), ep_emitted := ep_emitted x @ fst (ikcp_flush k0)\<rparr>"
    and r1: "(ep_step (ep_emitted y1))\<^sup>*\<^sup>* x x1" and l1: "linked c (lx @ xs) ly1 x1 y1"
    and seg1: "\<forall>s\<in>set (flush_segments k0). segment_ok c (lx @ xs) (received (ep_kcp x)) s
      \<and> sg_una s = kc_rcv_nxt (ep_kcp x) \<and> sg_wnd s = ikcp_wnd_unused (ep_kcp x)"
    and len1: "\<forall>d\<in>set (fst (ikcp_flush k0)). length d \<le> unat (kc_mtu (ep_kcp x))"
    by (rule linked_poke [OF y1(2), of "sg_resendts p"])
  have u0: "kc_updated k0 \<noteq> 0" using k0 by simp
  define s where "s = sent_as (ready k0) (ikcp_wnd_unused k0) p"
  have "s \<in> set (flush_segments k0)" unfolding s_def by (rule retransmit [OF u0, of p rest]) (simp_all add: k0 p)
  then obtain ss where ss: "concat (map wire ss) \<in> set (fst (ikcp_flush k0))" "s \<in> set ss" "set ss \<subseteq> set (flush_segments k0)"
    by (rule flush_datagram [OF prod.collapse [symmetric] u0])
  have "snd_inv lx (ep_sent x) (received (ep_kcp y)) (ep_kcp x)" using l by (simp add: linked_def side_inv_def endpoint_inv_def)
  then have "sg_cmd p = IKCP_CMD_PUSH" using p by (simp add: snd_inv_def)
  then have push: "sg_cmd s = IKCP_CMD_PUSH" "seq s = seq p" by (simp_all add: s_def sent_core)
  have "rcv_part (ep_kcp x1) = rcv_part (ep_kcp x)"
    using flush_result(9) [OF prod.collapse [symmetric] u0] k0 by (simp add: x1 rcv_part_def)
  then have rc: "received (ep_kcp x1) = received (ep_kcp x)" by (rule received_cong)
  note mtu = linked_config(4) [OF l]
  note fb = flush_backlog [OF prod.collapse [symmetric] u0]
  have b1: "backlog (ep_kcp x1) = backlog (ep_kcp x)" using fb(1) k0 by (simp add: x1 backlog_def)
  obtain new where "map sg_sn (kc_snd_buf (ep_kcp x1)) = map sg_sn (kc_snd_buf (ep_kcp x)) @ new" using fb(2) k0 by (auto simp: x1)
  then obtain p1 rest1 where p1: "kc_snd_buf (ep_kcp x1) = p1 # rest1" "seq p1 = seq p" using p by (auto simp: seq_def Cons_eq_map_conv map_eq_Cons_conv)
  note fn = first_number [OF y1(2) p y1(3)]
  have "\<exists>x' y' lx' ly'. onward (x1, y1) (x', y') \<and> linked c lx' ly' x' y' \<and> kc_rmt_wnd (ep_kcp x') = 4096
    \<and> (\<forall>p rest. kc_snd_buf (ep_kcp x1) = p # rest \<longrightarrow> sg_cmd s = IKCP_CMD_PUSH \<longrightarrow> seq p = seq s \<longrightarrow> seq s < 2 ^ 30
         \<longrightarrow> backlog (ep_kcp x') < backlog (ep_kcp x1))"
    by (rule exchange [OF l1 y1(3,4), of ss s]) (use ss seg1 rc len1 mtu push fn in \<open>auto simp: x1\<close>)
  then obtain x' y' lx' ly' where x': "onward (x1, y1) (x', y')" "linked c lx' ly' x' y'" "backlog (ep_kcp x') < backlog (ep_kcp x1)"
    using p1 push fn by metis
  have "link_step\<^sup>*\<^sup>* (x, y) (x1, y1)" using ep_run_right [OF y1(1)] ep_run_left [OF r1] by (rule rtranclp_trans)
  then have "onward (x, y) (x1, y1)" using y1(5,6) b1 by (simp add: onward_def x1)
  then show ?thesis using x' b1 onward_trans by metis
qed


text \<open>An empty send buffer and an open window: the next flush fills the buffer.\<close>

lemma fill_buffer:
  assumes l: "linked c lx ly x y" and b: "kc_snd_buf (ep_kcp x) = []" "kc_snd_queue (ep_kcp x) \<noteq> []" and w: "kc_rmt_wnd (ep_kcp x) \<noteq> 0"
  shows "\<exists>x' lx'. onward (x, y) (x', y) \<and> linked c lx' ly x' y \<and> kc_snd_buf (ep_kcp x') \<noteq> []"
proof -
  obtain k0 xs x1 u f where k0: "k0 = (ep_kcp x)\<lparr>kc_current := 0, kc_updated := u, kc_ts_flush := f\<rparr>" "u \<noteq> 0"
    and x1: "x1 = x\<lparr>ep_kcp := snd (ikcp_flush k0), ep_emitted := ep_emitted x @ fst (ikcp_flush k0)\<rparr>"
    and r1: "(ep_step (ep_emitted y))\<^sup>*\<^sup>* x x1" and l1: "linked c (lx @ xs) ly x1 y"
    by (rule linked_poke [OF l, of 0])
  have u0: "kc_updated k0 \<noteq> 0" using k0 by simp
  note fb = flush_backlog [OF prod.collapse [symmetric] u0]
  note cfg = linked_config [OF l]
  have una: "kc_snd_una k0 = kc_snd_nxt k0" using cfg(3) b(1) k0 by (simp add: una_first_def)
  have sw: "send_window k0 = imin 4096 (kc_rmt_wnd (ep_kcp x))" using cfg k0 by (simp add: send_window_def)
  have pos: "0 < send_window k0" "send_window k0 \<le> 4096" using w unfolding sw by (auto simp: imin_def word_neq_0_conv)
  have "itimediff (kc_snd_nxt k0) (kc_snd_una k0 + send_window k0) < 0"
  proof -
    have u: "0 < uint (send_window k0)" "uint (send_window k0) \<le> 4096" using pos by (simp_all add: word_less_def word_le_def)
    have "kc_snd_nxt k0 - (kc_snd_una k0 + send_window k0) = word_of_int (- uint (send_window k0))" by (simp add: una)
    then have "itimediff (kc_snd_nxt k0) (kc_snd_una k0 + send_window k0) = - uint (send_window k0)"
      unfolding itimediff_def using u by (simp only:) (rule sint_word_of_int_small, auto)
    then show ?thesis using u by simp
  qed
  then obtain new where new: "map sg_sn (kc_snd_buf (ep_kcp x1)) = map sg_sn (kc_snd_buf k0) @ new" "new \<noteq> []"
    using fb(2) b(2) k0 by (auto simp: x1)
  then have "kc_snd_buf (ep_kcp x1) \<noteq> []" by auto
  moreover have "onward (x, y) (x1, y)" using ep_run_left [OF r1] fb(1) k0 by (simp add: onward_def x1 backlog_def)
  ultimately show ?thesis using l1 by blast
qed

text \<open>A closed window: the probe timer is started if it is not running, and when it runs out the peer is asked.\<close>

lemma start_probing:
  assumes l: "linked c lx ly x y" and w: "kc_rmt_wnd (ep_kcp x) = 0"
  shows "\<exists>x' lx'. onward (x, y) (x', y) \<and> linked c lx' ly x' y \<and> kc_rmt_wnd (ep_kcp x') = 0 \<and> kc_probe_wait (ep_kcp x') \<noteq> 0"
proof (cases "kc_probe_wait (ep_kcp x) = 0")
  case True
  obtain k0 xs x1 u f where k0: "k0 = (ep_kcp x)\<lparr>kc_current := 0, kc_updated := u, kc_ts_flush := f\<rparr>" "u \<noteq> 0"
    and x1: "x1 = x\<lparr>ep_kcp := snd (ikcp_flush k0), ep_emitted := ep_emitted x @ fst (ikcp_flush k0)\<rparr>"
    and r1: "(ep_step (ep_emitted y))\<^sup>*\<^sup>* x x1" and l1: "linked c (lx @ xs) ly x1 y"
    by (rule linked_poke [OF l, of 0])
  have u0: "kc_updated k0 \<noteq> 0" using k0 by simp
  note res = flush_result [OF prod.collapse [symmetric] u0]
  have "kc_rmt_wnd (ep_kcp x1) = 0" using res(6) w k0 by (simp add: x1)
  moreover have "kc_probe_wait (ep_kcp x1) \<noteq> 0" using res(7) w True k0 by (simp add: x1 probe_timer_def IKCP_PROBE_INIT_def)
  moreover have "onward (x, y) (x1, y)" using ep_run_left [OF r1] flush_backlog(1) [OF prod.collapse [symmetric] u0] k0
    by (simp add: onward_def x1 backlog_def)
  ultimately show ?thesis using l1 by blast
qed (use l w onward_refl in blast)

lemma and_ask_send: "(w OR IKCP_ASK_SEND) AND IKCP_ASK_SEND \<noteq> 0" for w :: u32
  using and_exp_eq_0_iff_not_bit [of "w OR IKCP_ASK_SEND" 0] by (simp add: IKCP_ASK_SEND_def bit_or_iff)

lemma open_window:
  assumes l: "linked c lx ly x y" and w: "kc_rmt_wnd (ep_kcp x) = 0"
  shows "\<exists>x' y' lx' ly'. onward (x, y) (x', y') \<and> linked c lx' ly' x' y' \<and> kc_rmt_wnd (ep_kcp x') = 4096"
proof -
  obtain x0 lx0 where x0: "onward (x, y) (x0, y)" "linked c lx0 ly x0 y" "kc_rmt_wnd (ep_kcp x0) = 0" "kc_probe_wait (ep_kcp x0) \<noteq> 0"
    using start_probing [OF l w] by blast
  obtain y1 ly1 where y1: "(ep_step (ep_emitted x0))\<^sup>*\<^sup>* y y1" "linked c lx0 ly1 x0 y1" "kc_rcv_queue (ep_kcp y1) = []"
    "kc_ackcount (ep_kcp y1) = 0" "ep_sent y1 = ep_sent y" "backlog (ep_kcp y1) = backlog (ep_kcp y)"
    by (rule settle [OF x0(2)])
  obtain k0 xs x1 u f where k0: "k0 = (ep_kcp x0)\<lparr>kc_current := kc_ts_probe (ep_kcp x0), kc_updated := u, kc_ts_flush := f\<rparr>" "u \<noteq> 0"
    and x1: "x1 = x0\<lparr>ep_kcp := snd (ikcp_flush k0), ep_emitted := ep_emitted x0 @ fst (ikcp_flush k0)\<rparr>"
    and r1: "(ep_step (ep_emitted y1))\<^sup>*\<^sup>* x0 x1" and l1: "linked c (lx0 @ xs) ly1 x1 y1"
    and seg1: "\<forall>s\<in>set (flush_segments k0). segment_ok c (lx0 @ xs) (received (ep_kcp x0)) s
      \<and> sg_una s = kc_rcv_nxt (ep_kcp x0) \<and> sg_wnd s = ikcp_wnd_unused (ep_kcp x0)"
    and len1: "\<forall>d\<in>set (fst (ikcp_flush k0)). length d \<le> unat (kc_mtu (ep_kcp x0))"
    by (rule linked_poke [OF y1(2), of "kc_ts_probe (ep_kcp x0)"])
  have u0: "kc_updated k0 \<noteq> 0" using k0 by simp
  have "kc_probe (probe_timer (k0\<lparr>kc_ackcount := 0\<rparr>)) AND IKCP_ASK_SEND \<noteq> 0"
    using x0(3,4) and_ask_send by (simp add: k0 probe_timer_def Let_def)
  then have "(last (ack_segment k0 # ack_segments k0))\<lparr>sg_cmd := IKCP_CMD_WASK\<rparr> \<in> set (flush_segments k0)"
    using u0 by (simp add: flush_segments_def probe_segments_def)
  then obtain s where s: "s \<in> set (flush_segments k0)" "sg_cmd s = IKCP_CMD_WASK" by (rule that) simp
  obtain ss where ss: "concat (map wire ss) \<in> set (fst (ikcp_flush k0))" "s \<in> set ss" "set ss \<subseteq> set (flush_segments k0)"
    by (rule flush_datagram [OF prod.collapse [symmetric] u0 s(1)])
  have "rcv_part (ep_kcp x1) = rcv_part (ep_kcp x0)"
    using flush_result(9) [OF prod.collapse [symmetric] u0] k0 by (simp add: x1 rcv_part_def)
  then have rc: "received (ep_kcp x1) = received (ep_kcp x0)" by (rule received_cong)
  note mtu = linked_config(4) [OF x0(2)]
  have "\<exists>x' y' lx' ly'. onward (x1, y1) (x', y') \<and> linked c lx' ly' x' y' \<and> kc_rmt_wnd (ep_kcp x') = 4096
    \<and> (\<forall>p rest. kc_snd_buf (ep_kcp x1) = p # rest \<longrightarrow> sg_cmd s = IKCP_CMD_PUSH \<longrightarrow> seq p = seq s \<longrightarrow> seq s < 2 ^ 30
         \<longrightarrow> backlog (ep_kcp x') < backlog (ep_kcp x1))"
    by (rule exchange [OF l1 y1(3,4), of ss s]) (use ss seg1 rc len1 mtu s in \<open>auto simp: x1\<close>)
  then obtain x' y' lx' ly' where x': "onward (x1, y1) (x', y')" "linked c lx' ly' x' y'" "kc_rmt_wnd (ep_kcp x') = 4096" by blast
  have b1: "backlog (ep_kcp x1) = backlog (ep_kcp x0)" using flush_backlog(1) [OF prod.collapse [symmetric] u0] k0 by (simp add: x1 backlog_def)
  have "link_step\<^sup>*\<^sup>* (x0, y) (x1, y1)" using ep_run_right [OF y1(1)] ep_run_left [OF r1] by (rule rtranclp_trans)
  then have "onward (x0, y) (x1, y1)" using y1(5,6) b1 by (simp add: onward_def x1)
  then show ?thesis using x' x0(1) onward_trans by metis
qed

subsection \<open>Everything arrives\<close>

lemma reduce_backlog:
  assumes l: "linked c lx ly x y" and b: "0 < backlog (ep_kcp x)"
  shows "\<exists>x' y' lx' ly'. onward (x, y) (x', y') \<and> linked c lx' ly' x' y' \<and> backlog (ep_kcp x') < backlog (ep_kcp x)"
proof -
  have open_case: "\<exists>x' y' lx' ly'. onward (x, y) (x', y') \<and> linked c lx' ly' x' y' \<and> backlog (ep_kcp x') < backlog (ep_kcp x)"
    if l: "linked c lx ly x y" and b: "0 < backlog (ep_kcp x)" and w: "kc_snd_buf (ep_kcp x) \<noteq> [] \<or> kc_rmt_wnd (ep_kcp x) \<noteq> 0" for x y lx ly
  proof (cases "kc_snd_buf (ep_kcp x) = []")
    case True
    then have "kc_snd_queue (ep_kcp x) \<noteq> []" using b by (auto simp: backlog_def)
    then obtain x1 lx1 where x1: "onward (x, y) (x1, y)" "linked c lx1 ly x1 y" "kc_snd_buf (ep_kcp x1) \<noteq> []"
      using fill_buffer [OF l True] w True by blast
    obtain x' y' lx' ly' where x': "onward (x1, y) (x', y')" "linked c lx' ly' x' y'" "backlog (ep_kcp x') < backlog (ep_kcp x1)"
      using deliver_first [OF x1(2,3)] by blast
    have "backlog (ep_kcp x1) \<le> backlog (ep_kcp x)" using x1(1) by (simp add: onward_def)
    then show ?thesis using x' x1(1) onward_trans by (meson order.strict_trans2)
  next
    case False
    then show ?thesis using deliver_first [OF l] by blast
  qed
  show ?thesis
  proof (cases "kc_snd_buf (ep_kcp x) \<noteq> [] \<or> kc_rmt_wnd (ep_kcp x) \<noteq> 0")
    case True
    then show ?thesis using open_case l b by blast
  next
    case False
    then obtain x1 y1 lx1 ly1 where x1: "onward (x, y) (x1, y1)" "linked c lx1 ly1 x1 y1" "kc_rmt_wnd (ep_kcp x1) = 4096"
      using open_window [OF l] by blast
    show ?thesis
    proof (cases "backlog (ep_kcp x1) < backlog (ep_kcp x)")
      case True
      then show ?thesis using x1 by blast
    next
      case False
      have le: "backlog (ep_kcp x1) \<le> backlog (ep_kcp x)" using x1(1) by (simp add: onward_def)
      then have "0 < backlog (ep_kcp x1)" using False b by simp
      then obtain x' y' lx' ly' where x': "onward (x1, y1) (x', y')" "linked c lx' ly' x' y'" "backlog (ep_kcp x') < backlog (ep_kcp x1)"
        using open_case [OF x1(2)] x1(3) by auto
      then show ?thesis using x1(1) le onward_trans by (meson order.strict_trans2)
    qed
  qed
qed

lemma clear_backlog:
  assumes "linked c lx ly x y"
  shows "\<exists>x' y' lx' ly'. onward (x, y) (x', y') \<and> linked c lx' ly' x' y' \<and> backlog (ep_kcp x') = 0"
  using assms
proof (induction "backlog (ep_kcp x)" arbitrary: x y lx ly rule: less_induct)
  case less
  show ?case
  proof (cases "backlog (ep_kcp x) = 0")
    case True
    then show ?thesis using less.prems onward_refl by blast
  next
    case False
    then obtain x1 y1 lx1 ly1 where x1: "onward (x, y) (x1, y1)" "linked c lx1 ly1 x1 y1" "backlog (ep_kcp x1) < backlog (ep_kcp x)"
      using reduce_backlog [OF less.prems] by auto
    from less.hyps [OF x1(3,2)] show ?thesis using x1(1) onward_trans by metis
  qed
qed

lemma link_step_sym: "link_step (x, y) (x', y') \<Longrightarrow> link_step (y, x) (y', x')"
  by (auto elim!: link_stepE intro: link_step.intros)

lemma onward_sym: "onward (x, y) (x', y') \<Longrightarrow> onward (y, x) (y', x')"
proof -
  have "link_step\<^sup>*\<^sup>* l l' \<Longrightarrow> link_step\<^sup>*\<^sup>* (snd l, fst l) (snd l', fst l')" for l l'
  proof (induction rule: rtranclp_induct)
    case (step l1 l2)
    then show ?case using link_step_sym [of "fst l1" "snd l1" "fst l2" "snd l2"] by (simp add: rtranclp.rtrancl_into_rtrancl)
  qed simp
  then show "onward (x, y) (x', y') \<Longrightarrow> onward (y, x) (y', x')" by (fastforce simp: onward_def)
qed

lemma idle_of_backlog: "linked c lx ly x y \<Longrightarrow> backlog (ep_kcp x) = 0 \<Longrightarrow> ikcp_waitsnd (ep_kcp x) = 0"
  by (simp add: linked_def side_inv_def endpoint_inv_def snd_inv_def backlog_def ikcp_waitsnd_def)

lemma link_can_finish:
  assumes "link_step\<^sup>*\<^sup>* (new_link conv) (x, y)"
  shows "\<exists>x' y'. link_step\<^sup>*\<^sup>* (x, y) (x', y') \<and> ep_sent x' = ep_sent x \<and> ep_sent y' = ep_sent y
    \<and> ep_got y' = ep_sent x \<and> ep_got x' = ep_sent y
    \<and> ikcp_waitsnd (ep_kcp x') = 0 \<and> ikcp_waitsnd (ep_kcp y') = 0
    \<and> kc_rcv_queue (ep_kcp x') = [] \<and> kc_rcv_queue (ep_kcp y') = []"
proof -
  obtain lx ly where "linked conv lx ly x y" using reachable_linked [OF assms] by blast
  then obtain x1 y1 lx1 ly1 where s1: "onward (x, y) (x1, y1)" "linked conv lx1 ly1 x1 y1" "backlog (ep_kcp x1) = 0"
    using clear_backlog by blast
  obtain x2 y2 lx2 ly2 where "onward (y1, x1) (y2, x2)" and l2: "linked conv ly2 lx2 y2 x2" and b2: "backlog (ep_kcp y2) = 0"
    using clear_backlog s1(2) linked_sym by metis
  then have s2: "onward (x1, y1) (x2, y2)" using onward_sym by blast
  then have bx2: "backlog (ep_kcp x2) = 0" using s1(3) by (simp add: onward_def)
  obtain y3 ly3 where y3: "(ep_step (ep_emitted x2))\<^sup>*\<^sup>* y2 y3" "linked conv lx2 ly3 x2 y3" "kc_rcv_queue (ep_kcp y3) = []" "reads y2 y3"
    using drain l2 linked_sym by metis
  obtain x3 lx3 where x3: "(ep_step (ep_emitted y3))\<^sup>*\<^sup>* x2 x3" "linked conv ly3 lx3 y3 x3" "kc_rcv_queue (ep_kcp x3) = []" "reads x2 x3"
    using drain y3(2) linked_sym by metis
  have run: "link_step\<^sup>*\<^sup>* (x, y) (x3, y3)"
    using s1(1) s2 ep_run_right [OF y3(1)] ep_run_left [OF x3(1)] by (auto simp: onward_def intro: rtranclp_trans)
  have same: "ep_sent x3 = ep_sent x" "ep_sent y3 = ep_sent y"
    using s1(1) s2 y3(4) x3(4) by (simp_all add: onward_def reads_def)
  have b3: "backlog (ep_kcp x3) = 0" "backlog (ep_kcp y3) = 0"
    using bx2 b2 y3(4) x3(4) by (simp_all add: backlog_def reads_def snd_part_def)
  have idle: "ikcp_waitsnd (ep_kcp x3) = 0" "ikcp_waitsnd (ep_kcp y3) = 0"
    using idle_of_backlog x3(2) b3 linked_sym by metis+
  have inv: "link_inv (x3, y3)" using reachable_link_inv rtranclp_trans [OF assms run] by blast
  have "link_inv (y3, x3)" using inv by (auto simp: link_inv_def link_inv_at_def)
  from link_idle [OF inv idle(1) y3(3)] link_idle [OF this idle(2) x3(3)] show ?thesis
    using run same idle x3(3) y3(3) by (intro exI [of _ x3] exI [of _ y3]) simp
qed

subsection \<open>Property\<close>

text \<open>C6: no reachable state of a connection is stuck.  Whatever was lost, duplicated or reordered so far, however
  full the buffers are and even if the receiver had closed its window, there is a continuation without any
  further send in which everything that either application has sent is delivered to the other, and
  nothing is left waiting.\<close>

theorem kcp_can_always_finish:
  assumes "link_step\<^sup>*\<^sup>* (new_link conv) (x, y)"
  shows "\<exists>x' y'. link_step\<^sup>*\<^sup>* (x, y) (x', y') \<and> ep_sent x' = ep_sent x \<and> ep_sent y' = ep_sent y
    \<and> ep_got y' = ep_sent x \<and> ep_got x' = ep_sent y
    \<and> ikcp_waitsnd (ep_kcp x') = 0 \<and> ikcp_waitsnd (ep_kcp y') = 0
    \<and> kc_rcv_queue (ep_kcp x') = [] \<and> kc_rcv_queue (ep_kcp y') = []"
  by (rule link_can_finish [OF assms])

lemma kcp_can_always_finish_witness:
  "\<exists>x' y'. link_step\<^sup>*\<^sup>* (demo_sender, new_endpoint 0) (x', y') \<and> ep_got y' = [3, 0, 0, 0, 1, 2, 3]
    \<and> ikcp_waitsnd (ep_kcp x') = 0"
proof -
  note demo_sender_sent
  with kcp_can_always_finish [OF demo_started] show ?thesis by metis
qed

end
