(* ===== verification/Transport.thy ===== *)
theory Transport
  imports Kcp_Link
begin

text \<open>
  \<^verbatim>\<open>src/net/transport.cpp\<close>: four KCP streams over one UDP socket, with length-prefixed frames on each
  stream.  The socket is the environment: datagrams that arrive are inputs of \<open>net_iteration\<close>, datagrams
  handed to \<open>sendto\<close> are its outputs, and the result of \<open>sendto\<close> is a function argument.  Calls of
  \<open>on_received_\<close> are the list of frames passed to it.  The mutexes make each operation on a stream
  atomic.
\<close>

subsection \<open>The code\<close>

definition kNumStreams :: nat where "kNumStreams = 4"

definition conv_id :: u32 where "conv_id = 0x11223344"

text \<open>The state of a connected transport: the control blocks, \<open>stream_buffer\<close> of the network thread,
  the counters, and the peer address with \<open>address_locked\<close> (an address is a number; \<open>None\<close> is
  \<open>sin_family == 0\<close>).\<close>

record transport =
  tr_kcps :: "IKCPCB list"
  tr_stream_buffer :: "byte list list"
  tr_byteSent :: u64
  tr_byteReceived :: u64
  tr_remote_addr :: "nat option"
  tr_address_locked :: bool

definition open_streams :: "u32 \<Rightarrow> IKCPCB list" where
  "open_streams config_conv_id = map (\<lambda>i. new_stream (config_conv_id + word_of_nat i)) [0..<kNumStreams]"

definition open_transport :: "nat option \<Rightarrow> transport" where
  "open_transport remote = \<lparr>tr_kcps = open_streams conv_id, tr_stream_buffer = replicate kNumStreams [],
     tr_byteSent = 0, tr_byteReceived = 0, tr_remote_addr = remote, tr_address_locked = False\<rparr>"

text \<open>\<open>kcpOutputCallback\<close> for the datagrams of one KCP call.\<close>

definition kcpOutputCallback :: "(byte list \<Rightarrow> int) \<Rightarrow> byte list \<Rightarrow> transport \<Rightarrow> transport" where
  "kcpOutputCallback sendto buf t =
     (if sendto buf > 0 then t\<lparr>tr_byteSent := tr_byteSent t + word_of_int (sendto buf)\<rparr> else t)"

definition put_stream :: "(byte list \<Rightarrow> int) \<Rightarrow> nat \<Rightarrow> byte list list \<times> IKCPCB \<Rightarrow> transport \<Rightarrow> byte list list \<times> transport" where
  "put_stream sendto i r t =
     (fst r, fold (kcpOutputCallback sendto) (fst r) (t\<lparr>tr_kcps := (tr_kcps t)[i := snd r]\<rparr>))"

subsubsection \<open>Sending\<close>

definition max_send_size :: int where "max_send_size = 131072"

function send_pieces :: "byte list \<Rightarrow> int \<Rightarrow> int \<Rightarrow> IKCPCB \<Rightarrow> IKCPCB" where
  "send_pieces ptr total_size sent k =
     (if sent < total_size
      then let to_send = min max_send_size (total_size - sent);
               (ret, k') = ikcp_send k (take (nat to_send) (drop (nat sent) ptr)) to_send
           in if ret < 0 then k' else send_pieces ptr total_size (sent + to_send) k'
      else k)"
  by pat_completeness auto
termination
  by (relation "measure (\<lambda>(ptr, total_size, sent, k). nat (total_size - sent))")
    (auto simp: max_send_size_def)

declare send_pieces.simps [simp del]

text \<open>The frame put on the stream: the length as \<open>uint32_t\<close>, then the payload.\<close>

definition frame :: "byte list \<Rightarrow> byte list" where
  "frame payload = put32 (word_of_nat (length payload)) @ payload"

definition queue_frame :: "byte list \<Rightarrow> IKCPCB \<Rightarrow> IKCPCB" where
  "queue_frame raw_payload k =
     (let raw = frame raw_payload
      in send_pieces raw (sint (word_of_nat (length raw) :: u32)) 0 k)"

definition sendChunk :: "(byte list \<Rightarrow> int) \<Rightarrow> byte list \<Rightarrow> u32 \<Rightarrow> transport \<Rightarrow> byte list list \<times> transport" where
  "sendChunk sendto raw_payload stream_id t =
     (let s_id = unat stream_id mod kNumStreams
      in put_stream sendto s_id (ikcp_flush (queue_frame raw_payload (tr_kcps t ! s_id))) t)"

definition get_wait_snd :: "u32 \<Rightarrow> transport \<Rightarrow> int" where
  "get_wait_snd stream_id t = ikcp_waitsnd (tr_kcps t ! (unat stream_id mod kNumStreams))"

subsubsection \<open>Receiving\<close>

text \<open>One datagram from the socket.  A datagram of at most 4 bytes ends the inner loop.\<close>

definition handle_datagram :: "(byte list \<Rightarrow> int) \<Rightarrow> nat \<Rightarrow> byte list \<Rightarrow> transport \<Rightarrow> byte list list \<times> transport" where
  "handle_datagram sendto sender d t =
     (let s_id = unat (ikcp_getconv d) mod kNumStreams;
          t1 = (if \<not> tr_address_locked t \<and> tr_remote_addr t = None
                then t\<lparr>tr_remote_addr := Some sender, tr_address_locked := True\<rparr> else t);
          (ret, k) = ikcp_input (tr_kcps t1 ! s_id) d
      in put_stream sendto s_id (ikcp_flush k) t1)"

fun recv_datagrams :: "(byte list \<Rightarrow> int) \<Rightarrow> (nat \<times> byte list) list \<Rightarrow> transport \<Rightarrow> byte list list \<times> transport" where
  "recv_datagrams sendto [] t = ([], t)"
| "recv_datagrams sendto ((sender, d) # ds) t =
     (if length d > 4
      then let (outs, t1) = handle_datagram sendto sender d t;
               (outs', t2) = recv_datagrams sendto ds t1
           in (outs @ outs', t2)
      else ([], t))"

fun update_streams :: "(byte list \<Rightarrow> int) \<Rightarrow> u32 \<Rightarrow> nat list \<Rightarrow> transport \<Rightarrow> byte list list \<times> transport" where
  "update_streams sendto now [] t = ([], t)"
| "update_streams sendto now (i # is) t =
     (let (outs, t1) = put_stream sendto i (ikcp_update (tr_kcps t ! i) now) t;
          (outs', t2) = update_streams sendto now is t1
      in (outs @ outs', t2))"

text \<open>Frames at the front of a stream buffer.  \<open>4 + frameLength\<close> is computed in \<open>uint32_t\<close>, so it can
  wrap; the copy of \<open>frameLength\<close> bytes then reads past the buffer.\<close>

function extract_frames :: "byte list \<Rightarrow> (byte list list \<times> byte list) result" where
  "extract_frames buf =
     (if 4 \<le> length buf
      then let frameLength = get32 (take 4 buf)
           in if length buf \<ge> unat (4 + frameLength)
              then if length buf < 4 + unat frameLength then Inl OutOfBounds
                   else (case extract_frames (drop (4 + unat frameLength) buf) of
                       Inl e \<Rightarrow> Inl e
                     | Inr (frames, rest) \<Rightarrow> Inr (take (unat frameLength) (drop 4 buf) # frames, rest))
              else Inr ([], buf)
      else Inr ([], buf))"
  by pat_completeness auto
termination
  by (relation "measure length") auto

declare extract_frames.simps [simp del]

lemma merge_fragment_length:
  "merge_fragment q = (segs, rest) \<Longrightarrow> q \<noteq> [] \<Longrightarrow> length rest < length q"
proof (induction q arbitrary: segs rest)
  case (Cons s q)
  then show ?case by (cases "q = []") (auto split: if_splits prod.splits)
qed simp

lemma recv_decreases:
  assumes "ikcp_recv k len = (ret, bs, k')" and "ret > 0" and "0 \<le> len"
  shows "length (kc_rcv_queue k') + length (kc_rcv_buf k') < length (kc_rcv_queue k) + length (kc_rcv_buf k)"
proof -
  obtain segs rest where m: "merge_fragment (kc_rcv_queue k) = (segs, rest)" by (rule prod.exhaust)
  let ?k1 = "k\<lparr>kc_rcv_queue := rest, kc_nrcv_que := kc_nrcv_que k - word_of_nat (length segs)\<rparr>"
  have q: "kc_rcv_queue k \<noteq> []" using assms(1,2) by (auto simp: ikcp_recv_def)
  have "kc_rcv_queue k' = kc_rcv_queue (move_rcv_buf ?k1)" "kc_rcv_buf k' = kc_rcv_buf (move_rcv_buf ?k1)"
    using assms q m by (auto simp: ikcp_recv_def Let_def split: if_splits)
  then show ?thesis using move_rcv_buf_length [of ?k1] merge_fragment_length [OF m q] by simp
qed

text \<open>The inner loop of \<open>net_loop\<close> for one stream: take messages from KCP into the stream buffer and
  hand out complete frames.\<close>

function recv_stream :: "IKCPCB \<Rightarrow> byte list \<Rightarrow> u64 \<Rightarrow> (byte list list \<times> IKCPCB \<times> byte list \<times> u64) result" where
  "recv_stream k buf byteRecv =
     (let (size, bs, k') = ikcp_recv k 4194304
      in if size > 0
         then (case extract_frames (buf @ take (nat size) bs) of
             Inl e \<Rightarrow> Inl e
           | Inr (frames, rest) \<Rightarrow>
               (case recv_stream k' rest (byteRecv + word_of_int size) of
                  Inl e \<Rightarrow> Inl e
                | Inr (frames', r) \<Rightarrow> Inr (frames @ frames', r)))
         else Inr ([], k', buf, byteRecv))"
  by pat_completeness auto
termination
  by (relation "measure (\<lambda>(k, buf, byteRecv). length (kc_rcv_queue k) + length (kc_rcv_buf k))")
    (auto dest: recv_decreases [OF sym])

declare recv_stream.simps [simp del]

fun recv_streams :: "nat list \<Rightarrow> transport \<Rightarrow> (byte list list \<times> transport) result" where
  "recv_streams [] t = Inr ([], t)"
| "recv_streams (i # is) t =
     (case recv_stream (tr_kcps t ! i) (tr_stream_buffer t ! i) (tr_byteReceived t) of
        Inl e \<Rightarrow> Inl e
      | Inr (frames, k, buf, byteRecv) \<Rightarrow>
          (case recv_streams is (t\<lparr>tr_kcps := (tr_kcps t)[i := k],
                 tr_stream_buffer := (tr_stream_buffer t)[i := buf], tr_byteReceived := byteRecv\<rparr>) of
             Inl e \<Rightarrow> Inl e
           | Inr (frames', t') \<Rightarrow> Inr (frames @ frames', t')))"

text \<open>One turn of \<open>net_loop\<close>: the datagrams that have arrived, the clock, and what comes out: datagrams
  for the socket, frames for the callback.\<close>

definition net_iteration :: "(byte list \<Rightarrow> int) \<Rightarrow> u32 \<Rightarrow> (nat \<times> byte list) list \<Rightarrow> transport
    \<Rightarrow> (byte list list \<times> byte list list \<times> transport) result" where
  "net_iteration sendto now arrived t =
     (let (outs, t1) = recv_datagrams sendto arrived t;
          (outs', t2) = update_streams sendto now [0..<kNumStreams] t1
      in case recv_streams [0..<kNumStreams] t2 of
           Inl e \<Rightarrow> Inl e
         | Inr (frames, t3) \<Rightarrow> Inr (outs @ outs', frames, t3))"

definition get_stats :: "transport \<Rightarrow> u64 \<times> u64" where
  "get_stats t = (tr_byteSent t, tr_byteReceived t)"

subsection \<open>Framing\<close>

text \<open>Frames of messages shorter than \<open>2 ^ 32 - 4\<close> bytes.\<close>

definition frameable :: "byte list \<Rightarrow> bool" where
  "frameable m \<longleftrightarrow> length m + 4 < 2 ^ 32"

lemma length_frame [simp]: "length (frame m) = 4 + length m"
  by (simp add: frame_def)

lemma frame_header:
  assumes "frameable m"
  shows "get32 (take 4 (frame m)) = word_of_nat (length m)"
    and "unat (word_of_nat (length m) :: u32) = length m"
    and "unat (4 + word_of_nat (length m) :: u32) = 4 + length m"
proof -
  show "get32 (take 4 (frame m)) = word_of_nat (length m)"
    using le32.dec_enc [of "word_of_nat (length m)" "[]"] le32.split_enc(1) [of "word_of_nat (length m)" m]
    by (simp add: frame_def)
  show u: "unat (word_of_nat (length m) :: u32) = length m"
    using assms by (simp add: frameable_def unat_word_of_nat_small)
  show "unat (4 + word_of_nat (length m) :: u32) = 4 + length m"
    using assms u by (subst unat_add_lem [THEN iffD1]) (auto simp: frameable_def)
qed

lemma extract_frame:
  assumes "frameable m"
  shows "extract_frames (frame m @ r) =
    (case extract_frames r of Inl e \<Rightarrow> Inl e | Inr (fs, rest) \<Rightarrow> Inr (m # fs, rest))"
proof -
  have h: "get32 (take 4 (frame m @ r)) = word_of_nat (length m)"
    using frame_header(1) [OF assms] by simp
  have d: "drop 4 (frame m @ r) = m @ r" by (simp add: frame_def)
  have d': "drop (4 + length m) (frame m @ r) = r" by simp
  show ?thesis
    by (subst extract_frames.simps) (simp only: h Let_def frame_header(2,3) [OF assms] d d', simp split: sum.splits)
qed

text \<open>A proper part of a frame stays in the buffer.\<close>

lemma extract_partial:
  assumes "frameable m" and "prefix p (frame m)" and "p \<noteq> frame m"
  shows "extract_frames p = Inr ([], p)"
proof (cases "4 \<le> length p")
  case True
  obtain r where r: "frame m = p @ r" using assms(2) by (auto elim: prefixE)
  with assms(3) have "r \<noteq> []" by auto
  then have "length p < length (frame m)" by (simp add: r)
  then have lt: "length p < 4 + length m" by simp
  have "take 4 p = take 4 (frame m)" using True by (simp add: r)
  then have "get32 (take 4 p) = word_of_nat (length m)" using frame_header(1) [OF assms(1)] by simp
  with lt show ?thesis
    by (subst extract_frames.simps) (simp add: Let_def frame_header(3) [OF assms(1)])
next
  case False
  then show ?thesis by (subst extract_frames.simps) simp
qed

lemma extract_frames_all:
  assumes "\<forall>m\<in>set ms. frameable m"
  shows "extract_frames (concat (map frame ms) @ p) =
    (case extract_frames p of Inl e \<Rightarrow> Inl e | Inr (fs, rest) \<Rightarrow> Inr (ms @ fs, rest))"
  using assms
proof (induction ms)
  case Nil
  then show ?case by (simp split: sum.splits)
next
  case (Cons m ms)
  then show ?case by (simp add: extract_frame split: sum.splits prod.splits)
qed

text \<open>Every prefix of a framed message sequence is some complete frames and a proper part of the next.\<close>

lemma framed_prefix:
  assumes "prefix b (concat (map frame ms))"
  shows "\<exists>n p. n \<le> length ms \<and> b = concat (map frame (take n ms)) @ p
    \<and> (p = [] \<or> n < length ms \<and> prefix p (frame (ms ! n)) \<and> p \<noteq> frame (ms ! n))"
  using assms
proof (induction ms arbitrary: b)
  case Nil
  then show ?case by (intro exI [of _ 0] exI [of _ "[]"]) simp
next
  case (Cons m ms)
  show ?case
  proof (cases "prefix (frame m) b")
    case True
    then obtain b' where b: "b = frame m @ b'" by (auto elim: prefixE)
    with Cons.prems have "prefix b' (concat (map frame ms))" by simp
    from Cons.IH [OF this] obtain n p where "n \<le> length ms" "b' = concat (map frame (take n ms)) @ p"
      "p = [] \<or> n < length ms \<and> prefix p (frame (ms ! n)) \<and> p \<noteq> frame (ms ! n)" by blast
    then show ?thesis by (intro exI [of _ "Suc n"] exI [of _ p]) (simp add: b)
  next
    case False
    then have "prefix b (frame m)" using Cons.prems by (auto dest: prefix_same_cases intro: prefixI)
    moreover from False have "b \<noteq> frame m" by auto
    ultimately show ?thesis by (intro exI [of _ 0] exI [of _ b]) simp
  qed
qed

lemma extract_append:
  "extract_frames a = Inr (fs, rest) \<Longrightarrow> extract_frames (a @ b) =
     (case extract_frames (rest @ b) of Inl e \<Rightarrow> Inl e | Inr (fs', r) \<Rightarrow> Inr (fs @ fs', r))"
proof (induction a arbitrary: fs rule: extract_frames.induct)
  case (1 buf)
  define n where "n = get32 (take 4 buf)"
  show ?case
  proof (cases "4 \<le> length buf \<and> unat (4 + n) \<le> length buf")
    case False
    then have "fs = []" "rest = buf"
      using "1.prems" by (auto simp: extract_frames.simps [of buf] n_def Let_def split: if_splits)
    then show ?thesis by (simp split: sum.splits)
  next
    case True
    then have fit: "\<not> length buf < 4 + unat n"
      using "1.prems" by (auto simp: extract_frames.simps [of buf] n_def Let_def split: if_splits)
    obtain fs1 where tl: "extract_frames (drop (4 + unat n) buf) = Inr (fs1, rest)"
      and fs: "fs = take (unat n) (drop 4 buf) # fs1"
      using True fit "1.prems"
      by (auto simp: extract_frames.simps [of buf] n_def Let_def split: if_splits sum.splits)
    have n': "get32 (take 4 (buf @ b)) = n" using True by (simp add: n_def)
    have sub: "take (unat n) (drop 4 (buf @ b)) = take (unat n) (drop 4 buf)"
      "drop (4 + unat n) (buf @ b) = drop (4 + unat n) buf @ b" using fit by simp_all
    have "extract_frames (buf @ b) = (case extract_frames (drop (4 + unat n) buf @ b) of
        Inl e \<Rightarrow> Inl e | Inr (frames, r) \<Rightarrow> Inr (take (unat n) (drop 4 buf) # frames, r))"
      using True fit by (subst extract_frames.simps) (simp only: n' Let_def sub, simp)
    also have "extract_frames (drop (4 + unat n) buf @ b) =
        (case extract_frames (rest @ b) of Inl e \<Rightarrow> Inl e | Inr (fs', r) \<Rightarrow> Inr (fs1 @ fs', r))"
      by (rule "1.IH" [OF _ _ _ _ tl [unfolded n_def], folded n_def]) (use True fit in \<open>simp_all add: n_def\<close>)
    finally show ?thesis by (simp add: fs split: sum.splits)
  qed
qed

text \<open>What the frames of a prefix of a framed sequence are.\<close>

lemma extract_of_prefix:
  assumes "prefix b (concat (map frame ms))" and "\<forall>m\<in>set ms. frameable m"
  shows "\<exists>n rest. extract_frames b = Inr (take n ms, rest)" 
    and "b = concat (map frame ms) \<Longrightarrow> extract_frames b = Inr (ms, [])"
proof -
  have nil: "extract_frames [] = Inr ([], [])" by (subst extract_frames.simps) simp
  obtain n p where b: "b = concat (map frame (take n ms)) @ p"
    and p: "p = [] \<or> n < length ms \<and> prefix p (frame (ms ! n)) \<and> p \<noteq> frame (ms ! n)"
    using framed_prefix [OF assms(1)] by (elim exE conjE)
  have "extract_frames p = Inr ([], p)"
  proof (cases "p = []")
    case False
    then have n: "n < length ms" "prefix p (frame (ms ! n))" "p \<noteq> frame (ms ! n)" using p by blast+
    have "frameable (ms ! n)" using assms(2) nth_mem [OF n(1)] by blast
    then show ?thesis using n(2,3) by (rule extract_partial)
  qed (simp add: nil)
  moreover have "\<forall>m\<in>set (take n ms). frameable m" using assms(2) by (auto dest: in_set_takeD)
  ultimately have "extract_frames b = Inr (take n ms, p)"
    using extract_frames_all [of "take n ms" p] unfolding b by simp
  then show "\<exists>n rest. extract_frames b = Inr (take n ms, rest)" by blast
  show "extract_frames b = Inr (ms, [])" if "b = concat (map frame ms)"
    using extract_frames_all [OF assms(2), of "[]"] unfolding that nil by simp
qed

text \<open>Appending the pieces of a stream to the buffer one by one and extracting after each.\<close>

fun feed_pieces :: "byte list \<Rightarrow> byte list list \<Rightarrow> (byte list list \<times> byte list) result" where
  "feed_pieces buf [] = Inr ([], buf)"
| "feed_pieces buf (p # ps) =
     (case extract_frames (buf @ p) of
        Inl e \<Rightarrow> Inl e
      | Inr (fs, rest) \<Rightarrow> (case feed_pieces rest ps of Inl e \<Rightarrow> Inl e | Inr (fs', r) \<Rightarrow> Inr (fs @ fs', r)))"

lemma feed_pieces_spec:
  assumes "extract_frames got = Inr (fs, buf)" and "prefix (got @ concat ps) (concat (map frame ms))"
    and "\<forall>m\<in>set ms. frameable m"
  shows "\<exists>fs' rest. feed_pieces buf ps = Inr (fs', rest) \<and> extract_frames (got @ concat ps) = Inr (fs @ fs', rest)"
  using assms
proof (induction ps arbitrary: got fs buf)
  case (Cons p ps)
  have "prefix (got @ p) (concat (map frame ms))"
    using Cons.prems(2) by (metis append.assoc append_prefixD concat.simps(2))
  from extract_of_prefix(1) [OF this Cons.prems(3)] obtain n rest where
    e: "extract_frames (got @ p) = Inr (take n ms, rest)" by blast
  with extract_append [OF Cons.prems(1), of p] obtain fs1 where
    f: "extract_frames (buf @ p) = Inr (fs1, rest)" "take n ms = fs @ fs1" by (auto split: sum.splits)
  obtain fs2 r2 where "feed_pieces rest ps = Inr (fs2, r2)"
    "extract_frames ((got @ p) @ concat ps) = Inr ((fs @ fs1) @ fs2, r2)"
    using Cons.IH [OF e [unfolded f(2)]] Cons.prems(2,3) by auto
  with f show ?case by simp
qed simp

subsection \<open>The network thread refines the link\<close>

lemma link_run_inv: "link_inv l \<Longrightarrow> link_step\<^sup>*\<^sup>* l l' \<Longrightarrow> link_inv l'"
  using kcp_link.run_inv by blast

lemma recv_result:
  assumes inv: "link_inv (x, y)" and r: "ikcp_recv (ep_kcp y) len = (ret, bs, k)" and "0 \<le> len"
  shows "0 < ret \<Longrightarrow> take (nat ret) bs = bs" and "\<not> 0 < ret \<Longrightarrow> bs = []"
proof -
  obtain lx ly where "endpoint_inv ly (ep_sent y) (received (ep_kcp x)) lx (ep_got y) (ep_kcp y)"
    using link_sides [OF inv] by (metis fst_conv snd_conv)
  then have "rcv_inv lx (ep_got y) (ep_kcp y)" by (simp add: endpoint_inv_def)
  note f = recv_inv [OF this assms(3) r]
  from f show "0 < ret \<Longrightarrow> take (nat ret) bs = bs" by simp
  from f show "\<not> 0 < ret \<Longrightarrow> bs = []" by (cases "ret = 0") auto
qed

text \<open>Running the receive loop of one stream is a sequence of link steps; the stream buffer and the
  frames handed out are determined by the bytes KCP has delivered.\<close>

lemma recv_stream_steps:
  assumes "link_inv (x, y)" and "ep_kcp y = k" and "extract_frames (ep_got y) = Inr (fs, buf)"
    and ms: "ep_sent x = concat (map frame ms)" "\<forall>m\<in>set ms. frameable m"
  shows "\<exists>fs' y' buf' n'. recv_stream k buf n = Inr (fs', ep_kcp y', buf', n')
    \<and> link_step\<^sup>*\<^sup>* (x, y) (x, y') \<and> extract_frames (ep_got y') = Inr (fs @ fs', buf')"
  using assms(1-3)
proof (induction k buf n arbitrary: y fs rule: recv_stream.induct)
  case (1 k buf n)
  obtain ret bs k1 where r: "ikcp_recv k 4194304 = (ret, bs, k1)" by (rule prod_cases3)
  define y1 where "y1 = y\<lparr>ep_kcp := k1, ep_got := ep_got y @ bs\<rparr>"
  have st: "link_step (x, y) (x, y1)"
    unfolding y1_def using r "1.prems"(2) by (intro link_step.right ep_step.recv) auto
  have inv1: "link_inv (x, y1)" using link_step_inv [OF "1.prems"(1) st] .
  have bs: "0 < ret \<Longrightarrow> take (nat ret) bs = bs" "\<not> 0 < ret \<Longrightarrow> bs = []"
    using recv_result [OF "1.prems"(1), of 4194304 ret bs k1] r "1.prems"(2) by auto
  have y1: "ep_kcp y1 = k1" "ep_got y1 = ep_got y @ bs" by (simp_all add: y1_def)
  show ?case
  proof (cases "ret > 0")
    case False
    then have "recv_stream k buf n = Inr ([], ep_kcp y1, buf, n)"
      by (subst recv_stream.simps) (simp add: r y1)
    moreover have "extract_frames (ep_got y1) = Inr (fs @ [], buf)"
      using "1.prems"(3) bs(2) [OF False] y1 by simp
    ultimately show ?thesis using st by blast
  next
    case True
    have "prefix (ep_got y1) (concat (map frame ms))" using link_prefix(1) [OF inv1] ms(1) by simp
    from extract_of_prefix(1) [OF this ms(2)] obtain j rest where
      "extract_frames (ep_got y @ bs) = Inr (take j ms, rest)" unfolding y1 by blast
    with extract_append [OF "1.prems"(3), of bs] obtain fs1 where
      e: "extract_frames (buf @ bs) = Inr (fs1, rest)" "extract_frames (ep_got y @ bs) = Inr (fs @ fs1, rest)"
      by (auto split: sum.splits)
    obtain fs2 y' buf' n' where
      rec: "recv_stream k1 rest (n + word_of_int ret) = Inr (fs2, ep_kcp y', buf', n')"
      and run: "link_step\<^sup>*\<^sup>* (x, y1) (x, y')" and ex: "extract_frames (ep_got y') = Inr ((fs @ fs1) @ fs2, buf')"
      using "1.IH" [OF r [symmetric] refl refl True, of "(fs1, rest)" fs1 rest y1 "fs @ fs1"] e bs(1) [OF True]
        inv1 y1 by auto
    have "recv_stream k buf n = Inr (fs1 @ fs2, ep_kcp y', buf', n')"
      by (subst recv_stream.simps) (simp add: r True bs(1) [OF True] e rec)
    moreover have "link_step\<^sup>*\<^sup>* (x, y) (x, y')" using st run by (rule converse_rtranclp_into_rtranclp)
    ultimately show ?thesis using ex by (metis append.assoc)
  qed
qed

subsection \<open>Queueing a frame\<close>

lemma send_pieces_steps:
  assumes "link_inv (x, y)" and "ep_kcp x = k" and "0 \<le> sent" and "sent \<le> int (length raw)"
    and "length raw < 2 ^ 31"
    and "unat (kc_snd_nxt k) + length (kc_snd_queue k) + (length raw - nat sent) \<le> 2 ^ 30"
  shows "\<exists>x'. send_pieces raw (int (length raw)) sent k = ep_kcp x' \<and> link_step\<^sup>*\<^sup>* (x, y) (x', y)
    \<and> ep_sent x' = ep_sent x @ drop (nat sent) raw"
  using assms
proof (induction raw "int (length raw)" sent k arbitrary: x rule: send_pieces.induct)
  case (1 ptr sent k)
  show ?case
  proof (cases "sent < int (length ptr)")
    case False
    then have "send_pieces ptr (int (length ptr)) sent k = k" by (subst send_pieces.simps) simp
    with False "1.prems" show ?thesis by (intro exI [of _ x]) simp
  next
    case True
    define m where "m = min max_send_size (int (length ptr) - sent)"
    define b where "b = take (nat m) (drop (nat sent) ptr)"
    have m: "0 < m" "m \<le> 131072" "sent + m \<le> int (length ptr)"
      using True by (auto simp: m_def max_send_size_def)
    have lb: "int (length b) = m" using m "1.prems"(3) by (auto simp: b_def)
    obtain ret k1 where r: "ikcp_send k b m = (ret, k1)" by (rule prod.exhaust)
    obtain lx ly where e: "endpoint_inv lx (ep_sent x) (received (ep_kcp y)) ly (ep_got x) (ep_kcp x)"
      using link_sides [OF "1.prems"(1)] by (metis fst_conv snd_conv)
    then have ok: "stream_ok k" using "1.prems"(2) by (simp add: endpoint_inv_def snd_inv_def)
    have "length b \<le> 127 * unat (kc_mss k)" using lb m(2) ok by (simp add: stream_ok_def)
    moreover have lb31: "length b < 2 ^ 31" using lb m(2) by simp
    ultimately have ret: "ret = int (length b)"
      and spec: "sent_spec k b ret k1" using send_stream [OF ok, of b ret k1] r lb by auto
    have k1: "kc_snd_nxt k1 = kc_snd_nxt k" "length (kc_snd_queue k1) \<le> length (kc_snd_queue k) + length b"
      using spec by (auto simp: sent_spec_def)
    have room: "unat (kc_snd_nxt k1) + length (kc_snd_queue k1) + (length ptr - nat (sent + m)) \<le> 2 ^ 30"
      using "1.prems"(3,6) k1 lb m by (simp add: nat_add_distrib)
    define x1 where "x1 = x\<lparr>ep_kcp := k1, ep_sent := ep_sent x @ take (nat ret) b\<rparr>"
    have st: "link_step (x, y) (x1, y)"
      unfolding x1_def using r lb lb31 room "1.prems"(2) by (intro link_step.left ep_step.send) auto
    have inv1: "link_inv (x1, y)" using link_step_inv [OF "1.prems"(1) st] .
    have "\<exists>x'. send_pieces ptr (int (length ptr)) (sent + m) k1 = ep_kcp x' \<and> link_step\<^sup>*\<^sup>* (x1, y) (x', y)
        \<and> ep_sent x' = ep_sent x1 @ drop (nat (sent + m)) ptr"
      using "1.hyps" [OF True m_def, of "(ret, k1)" ret k1 x1] r [unfolded b_def] inv1 room m(3) "1.prems"(3,5) ret m(1)
      by (simp add: x1_def)
    then obtain x' where x': "send_pieces ptr (int (length ptr)) (sent + m) k1 = ep_kcp x'"
      "link_step\<^sup>*\<^sup>* (x1, y) (x', y)" "ep_sent x' = ep_sent x1 @ drop (nat (sent + m)) ptr" by blast
    have "send_pieces ptr (int (length ptr)) sent k = ep_kcp x'"
      using True r x'(1) ret by (subst send_pieces.simps) (simp add: b_def m_def Let_def)
    moreover have "b @ drop (nat (sent + m)) ptr = drop (nat sent) ptr"
      using "1.prems"(3) m(1) by (simp add: b_def nat_add_distrib add.commute flip: drop_drop)
    then have "ep_sent x' = ep_sent x @ drop (nat sent) ptr" using x'(3) ret by (simp add: x1_def)
    ultimately show ?thesis using st x'(2) by (meson converse_rtranclp_into_rtranclp)
  qed
qed

lemma queue_frame_steps:
  assumes inv: "link_inv (x, y)" and small: "length m + 4 < 2 ^ 31"
    and room: "unat (kc_snd_nxt (ep_kcp x)) + length (kc_snd_queue (ep_kcp x)) + (length m + 4) \<le> 2 ^ 30"
  shows "\<exists>x'. queue_frame m (ep_kcp x) = ep_kcp x' \<and> link_step\<^sup>*\<^sup>* (x, y) (x', y)
    \<and> ep_sent x' = ep_sent x @ frame m"
proof -
  have l: "length (frame m) = length m + 4" by simp
  have "unat (word_of_nat (length m + 4) :: u32) = length m + 4" using small unat_word_of_nat_small [of "length m + 4", where 'a = 32] by simp
  then have "sint (word_of_nat (length (frame m)) :: u32) = int (length (frame m))"
    unfolding l using small by (subst sint_small) auto
  then have "queue_frame m (ep_kcp x) = send_pieces (frame m) (int (length (frame m))) 0 (ep_kcp x)"
    by (simp add: queue_frame_def Let_def)
  with send_pieces_steps [OF inv refl, of 0 "frame m"] small room show ?thesis by auto
qed

subsection \<open>Properties\<close>

text \<open>C9: \<open>sendChunk\<close> puts the whole message on its stream as long as the stream stays within $2^{30}$ sequence numbers
  (counting one for every byte at worst), which bounds the message by 1 GiB: the loop over
  128 KiB pieces never meets a refusal of \<open>ikcp_send\<close>, and what it does is a sequence of KCP sends that
  appends exactly the frame (length, payload) to the bytes sent.\<close>

theorem send_chunk_queues_frame:
  assumes "link_step\<^sup>*\<^sup>* (new_link conv) (x, y)" and "length m + 4 < 2 ^ 31"
    and "unat (kc_snd_nxt (ep_kcp x)) + length (kc_snd_queue (ep_kcp x)) + (length m + 4) \<le> 2 ^ 30"
  shows "\<exists>x'. queue_frame m (ep_kcp x) = ep_kcp x' \<and> link_step\<^sup>*\<^sup>* (new_link conv) (x', y)
    \<and> ep_sent x' = ep_sent x @ frame m"
proof -
  obtain x' where "queue_frame m (ep_kcp x) = ep_kcp x'" "link_step\<^sup>*\<^sup>* (x, y) (x', y)"
    "ep_sent x' = ep_sent x @ frame m"
    using queue_frame_steps [OF reachable_link_inv [OF assms(1)] assms(2,3)] by blast
  with assms(1) show ?thesis by (meson rtranclp_trans)
qed

text \<open>C8: the network thread refines the link and delivers messages in order.  Whatever the peer has
  sent is a sequence of frames; then the receive loop of a stream never fails, corresponds to KCP
  receive steps, keeps the stream buffer in step with the delivered bytes, and the frames handed to the
  callback, old and new together, are the first messages sent, each complete and in order.\<close>

theorem receive_loop_delivers_in_order:
  assumes "link_step\<^sup>*\<^sup>* (new_link conv) (x, y)"
    and "ep_sent x = concat (map frame ms)" and "\<forall>m\<in>set ms. frameable m"
    and "extract_frames (ep_got y) = Inr (fs, buf)"
  shows "\<exists>fs' y' buf' n'. recv_stream (ep_kcp y) buf n = Inr (fs', ep_kcp y', buf', n')
    \<and> link_step\<^sup>*\<^sup>* (new_link conv) (x, y') \<and> extract_frames (ep_got y') = Inr (fs @ fs', buf')
    \<and> prefix (fs @ fs') ms"
proof -
  note inv = reachable_link_inv [OF assms(1)]
  obtain fs' y' buf' n' where s: "recv_stream (ep_kcp y) buf n = Inr (fs', ep_kcp y', buf', n')"
    "link_step\<^sup>*\<^sup>* (x, y) (x, y')" "extract_frames (ep_got y') = Inr (fs @ fs', buf')"
    using recv_stream_steps [OF inv refl assms(4,2,3)] by blast
  have "prefix (ep_got y') (concat (map frame ms))"
    using link_prefix(1) [OF link_run_inv [OF inv s(2)]] assms(2) by simp
  from extract_of_prefix(1) [OF this assms(3)] obtain j rest where
    "extract_frames (ep_got y') = Inr (take j ms, rest)" by blast
  then have "prefix (fs @ fs') ms" using s(3) by (simp add: take_is_prefix)
  moreover have "link_step\<^sup>*\<^sup>* (new_link conv) (x, y')" using assms(1) s(2) by (rule rtranclp_trans)
  ultimately show ?thesis using s by blast
qed

text \<open>When the sender's \<open>get_wait_snd\<close> count of a stream is 0 and the receiver has drained KCP, every
  message of the stream has reached the callback and the stream buffer is empty.\<close>

theorem idle_stream_delivered_all:
  assumes "link_step\<^sup>*\<^sup>* (new_link conv) (x, y)"
    and "ep_sent x = concat (map frame ms)" and "\<forall>m\<in>set ms. frameable m"
    and "tr_kcps t ! (unat sid mod kNumStreams) = ep_kcp x" and "get_wait_snd sid t = 0"
    and "kc_rcv_queue (ep_kcp y) = []"
  shows "extract_frames (ep_got y) = Inr (ms, [])"
proof -
  have "ep_got y = concat (map frame ms)"
    using link_idle [OF reachable_link_inv [OF assms(1)]] assms(2,4,5,6) by (simp add: get_wait_snd_def)
  then show ?thesis using extract_of_prefix(2) [of "ep_got y" ms] assms(3) by simp
qed

text \<open>C13: the length-prefixed framing survives any fragmentation: however a sequence of frames is cut
  into pieces, appending the pieces and extracting after each yields the messages and an empty buffer.\<close>

theorem framing_roundtrip:
  assumes "\<forall>m\<in>set ms. frameable m" and "concat ps = concat (map frame ms)"
  shows "feed_pieces [] ps = Inr (ms, [])"
proof -
  have nil: "extract_frames [] = Inr ([], [])" by (subst extract_frames.simps) simp
  have "\<exists>fs' rest. feed_pieces [] ps = Inr (fs', rest) \<and> extract_frames ([] @ concat ps) = Inr ([] @ fs', rest)"
    by (rule feed_pieces_spec [OF nil _ assms(1)]) (simp add: assms(2))
  then show ?thesis using extract_of_prefix(2) [OF _ assms(1), of "concat ps"] assms(2) by auto
qed

lemma framing_roundtrip_witness:
  "feed_pieces [] [[2, 0, 0], [0, 9, 8, 0], [0, 0, 0]] = Inr ([[9, 8], []], [])"
proof (rule framing_roundtrip)
  show "\<forall>m\<in>set [[9, 8], []]. frameable m" by (simp add: frameable_def)
  show "concat [[2, 0, 0], [0, 9, 8, 0], [0, 0, 0]] = concat (map frame [[9, 8], []])"
    by (simp add: frame_def put32_def le_enc_numeral)
qed

text \<open>C16: a length field of \<open>0xFFFFFFFC\<close> or more makes the test \<open>4 + frameLength\<close> wrap: the loop takes the
  frame for complete and copies that many bytes from a shorter buffer.\<close>

theorem frame_length_overflow:
  assumes "0xFFFFFFFC \<le> unat n" and "length r < unat n"
  shows "extract_frames (put32 n @ r) = Inl OutOfBounds"
proof -
  have "unat n < 2 ^ 32" using unat_less_width [of n] by simp
  then have "unat (4 + n) = unat n + 4 - 2 ^ 32"
    using assms(1) by (simp add: unat_word_ariths mod_if le_mod_geq)
  moreover have "get32 (take 4 (put32 n @ r)) = n"
    using le32.split_enc(1) [of n r] le32.dec_enc [of n "[]"] by simp
  ultimately show ?thesis
    using assms \<open>unat n < 2 ^ 32\<close> by (subst extract_frames.simps) (simp add: Let_def)
qed

lemma frame_length_overflow_witness: "extract_frames (put32 0xFFFFFFFF @ [1, 2]) = Inl OutOfBounds"
  by (rule frame_length_overflow) simp_all

lemma output_callbacks_kcps: "tr_kcps (fold (kcpOutputCallback sendto) ds t) = tr_kcps t"
  by (induction ds arbitrary: t) (simp_all add: kcpOutputCallback_def)

text \<open>The datagrams on the wire carry the number of their conversation in front, and the peer accepts them.\<close>

lemma emitted_datagram:
  assumes "link_inv_at c (x, y)" and "d \<in> set (ep_emitted x)" and "4 < length d"
  shows "ikcp_getconv d = c" and "fst (ikcp_input (ep_kcp y) d) = 0"
proof -
  obtain lx r where "datagram_ok c lx r d" and c: "kc_conv (ep_kcp y) = c" using assms(1,2) by (auto simp: link_inv_at_def side_inv_def)
  then obtain segs where d: "d = concat (map wire segs)" and ok: "\<forall>s\<in>set segs. sendable c s"
    by (auto simp: datagram_ok_def segment_ok_def)
  then obtain s rest where s: "segs = s # rest" using assms(3) by (cases segs) auto
  show "ikcp_getconv d = c"
    using ok by (simp add: d s sendable_def wire_def ikcp_getconv_def ikcp_decode32u_def ikcp_encode_seg_def ikcp_encode32u_def le32.dec_enc)
  obtain k1 f m ts where "fold (\<lambda>s. input_segment (header_of s) (seg_bytes s)) segs ((ep_kcp y)\<lparr>kc_ackedlen := 0\<rparr>, (False, 0, 0)) = (k1, (f, m, ts))"
    by (rule prod_cases4)
  with input_loop_wire [of segs "((ep_kcp y)\<lparr>kc_ackedlen := 0\<rparr>, (False, 0, 0))"] ok c
  have "input_loop d ((ep_kcp y)\<lparr>kc_ackedlen := 0\<rparr>, (False, 0, 0)) = (0, k1, (f, m, ts))" by (simp add: d)
  moreover have "\<not> int (length d) < sint IKCP_OVERHEAD" by (simp add: d s wire_def IKCP_OVERHEAD_def)
  ultimately show "fst (ikcp_input (ep_kcp y) d) = 0" by (simp add: ikcp_input_def Let_def)
qed

text \<open>C14: datagrams find their stream.  With a base identifier divisible by the number of streams, as the
  default \<open>0x11223344\<close> is, let a datagram that stream \<open>i\<close> of one transport has emitted arrive at the other side and
  not be discarded as too short.  Whoever it comes from, \<open>handle_datagram\<close> gives it to stream \<open>i\<close> there, whose
  \<open>ikcp_input\<close> accepts it, flushes that stream and sends what the flush emits; the other streams stay
  as they were, and the two streams move as the link of KCP endpoints allows.\<close>

theorem datagrams_reach_their_stream:
  assumes "unat base mod kNumStreams = 0" and "i < kNumStreams"
    and "link_step\<^sup>*\<^sup>* (new_link (kc_conv (open_streams base ! i))) (x, y)"
    and "d \<in> set (ep_emitted x)" and "4 < length d" and "tr_kcps t ! i = ep_kcp y"
  shows "fst (ikcp_input (tr_kcps t ! i) d) = 0
    \<and> (\<exists>y'. ikcp_flush (snd (ikcp_input (tr_kcps t ! i) d)) = (fst (handle_datagram sendto sender d t), ep_kcp y')
          \<and> tr_kcps (snd (handle_datagram sendto sender d t)) = (tr_kcps t)[i := ep_kcp y']
          \<and> ep_emitted y' = ep_emitted y @ fst (handle_datagram sendto sender d t)
          \<and> link_step\<^sup>*\<^sup>* (x, y) (x, y'))"
proof -
  let ?c = "kc_conv (open_streams base ! i)"
  have c: "?c = base + word_of_nat i" using assms(2) by (simp add: open_streams_def)
  have conv: "ikcp_getconv d = ?c" and ret: "fst (ikcp_input (ep_kcp y) d) = 0"
    using emitted_datagram [OF kcp_link_at.reachable_inv [OF refl assms(3)] assms(4,5)] by simp_all
  have "unat (base + word_of_nat i) mod kNumStreams = i"
  proof -
    have "unat (word_of_nat i :: u32) = i" using assms(2) by (simp add: kNumStreams_def unat_word_of_nat_small)
    then have "unat (base + word_of_nat i) = (unat base + i) mod (4 * 2 ^ 30)" by (simp add: unat_word_ariths)
    then have "unat (base + word_of_nat i) mod 4 = (unat base + i) mod 4" by (simp only: mod_mult_self4 mod_mod_cancel dvd_triv_left)
    also have "\<dots> = i" using assms(1,2) by (simp add: kNumStreams_def mod_add_eq [symmetric])
    finally show ?thesis by (simp add: kNumStreams_def)
  qed
  then have i: "unat (ikcp_getconv d) mod kNumStreams = i" by (simp add: conv c)
  obtain k1 where k1: "ikcp_input (ep_kcp y) d = (0, k1)" using ret by (cases "ikcp_input (ep_kcp y) d") simp
  obtain outs k2 where k2: "ikcp_flush k1 = (outs, k2)" by (rule prod.exhaust)
  let ?y' = "y\<lparr>ep_kcp := k2, ep_emitted := ep_emitted y @ outs\<rparr>"
  have "ep_step (ep_emitted x) y (y\<lparr>ep_kcp := k1\<rparr>)" using assms(4) k1 by (rule ep_step.input)
  moreover have "ep_step (ep_emitted x) (y\<lparr>ep_kcp := k1\<rparr>) ?y'"
    using ep_step.flush [of "y\<lparr>ep_kcp := k1\<rparr>"] k2 by simp
  ultimately have "link_step (x, y) (x, y\<lparr>ep_kcp := k1\<rparr>)" "link_step (x, y\<lparr>ep_kcp := k1\<rparr>) (x, ?y')"
    by (auto intro: link_step.right)
  then have steps: "link_step\<^sup>*\<^sup>* (x, y) (x, ?y')" by simp
  have "fst (handle_datagram sendto sender d t) = outs"
    "tr_kcps (snd (handle_datagram sendto sender d t)) = (tr_kcps t)[i := k2]"
    by (simp_all add: handle_datagram_def Let_def i assms(6) k1 k2 put_stream_def output_callbacks_kcps)
  with steps k1 k2 show ?thesis unfolding assms(6) by (intro conjI exI [of _ ?y']) simp_all
qed

lemma demo_frame: "[3, 0, 0, 0, 1, 2, 3] = concat (map frame [[1, 2, 3]])"
  by (simp add: frame_def put32_def le_enc_numeral)

lemma demo_got: "ep_got demo_receiver = concat (map frame [[1, 2, 3]])"
  using link_idle [OF reachable_link_inv [OF demo_reachable] demo_idle demo_empty] demo_sent demo_frame by simp

lemma send_chunk_queues_frame_witness:
  "\<exists>x'. queue_frame [9] (ep_kcp (new_endpoint 0)) = ep_kcp x' \<and> link_step\<^sup>*\<^sup>* (new_link 0) (x', new_endpoint 0)
    \<and> ep_sent x' = ep_sent (new_endpoint 0) @ frame [9]"
  by (rule send_chunk_queues_frame) (simp_all add: new_link_def new_endpoint_def)

lemma receive_loop_delivers_in_order_witness:
  "\<exists>fs' y' buf' n'. recv_stream (ep_kcp demo_receiver) [] 0 = Inr (fs', ep_kcp y', buf', n')
    \<and> link_step\<^sup>*\<^sup>* (new_link 0) (demo_done, y') \<and> extract_frames (ep_got y') = Inr ([[1, 2, 3]] @ fs', buf')
    \<and> prefix ([[1, 2, 3]] @ fs') [[1, 2, 3]]"
proof (rule receive_loop_delivers_in_order [OF demo_reachable])
  show "ep_sent demo_done = concat (map frame [[1, 2, 3]])" using demo_sent demo_frame by simp
  show "\<forall>m\<in>set [[1, 2, 3]]. frameable m" by (simp add: frameable_def)
  then show "extract_frames (ep_got demo_receiver) = Inr ([[1, 2, 3]], [])"
    unfolding demo_got by (rule extract_of_prefix(2) [OF _ _ refl, rotated]) simp
qed

definition demo_transport :: transport where
  "demo_transport = (open_transport None)\<lparr>tr_kcps := [ep_kcp demo_done]\<rparr>"

lemma idle_stream_delivered_all_witness: "extract_frames (ep_got demo_receiver) = Inr ([[1, 2, 3]], [])"
proof (rule idle_stream_delivered_all [OF demo_reachable, of _ demo_transport 0])
  show "ep_sent demo_done = concat (map frame [[1, 2, 3]])" using demo_sent demo_frame by simp
  show "tr_kcps demo_transport ! (unat 0 mod kNumStreams) = ep_kcp demo_done"
    by (simp add: demo_transport_def)
  then show "get_wait_snd 0 demo_transport = 0" using demo_idle by (simp add: get_wait_snd_def)
qed (simp_all add: frameable_def demo_empty)

lemma datagrams_reach_their_stream_witness:
  "fst (ikcp_input (ep_kcp demo_receiver) (hd (ep_emitted demo_done))) = 0
    \<and> (\<exists>y'. tr_kcps (snd (handle_datagram (\<lambda>d. int (length d)) 99 (hd (ep_emitted demo_done))
        ((open_transport None)\<lparr>tr_kcps := (open_streams 0)[0 := ep_kcp demo_receiver]\<rparr>))) = (open_streams 0)[0 := ep_kcp y']
      \<and> link_step\<^sup>*\<^sup>* (demo_done, demo_receiver) (demo_done, y'))"
proof -
  let ?t = "(open_transport None)\<lparr>tr_kcps := (open_streams 0)[0 := ep_kcp demo_receiver]\<rparr>"
  have reach: "link_step\<^sup>*\<^sup>* (new_link (kc_conv (open_streams 0 ! 0))) (demo_done, demo_receiver)"
    using demo_reachable by (simp add: open_streams_def kNumStreams_def)
  have e: "ep_emitted demo_done = ep_emitted demo_sender" by (simp add: demo_done_def ep_input_def)
  have hd_in: "hd (ep_emitted demo_done) \<in> set (ep_emitted demo_done)" using demo_emits e by simp
  have "4 < length (hd (ep_emitted demo_sender))" by code_simp
  then have long: "4 < length (hd (ep_emitted demo_done))" using e by simp
  have at: "tr_kcps ?t ! 0 = ep_kcp demo_receiver" by (simp add: open_streams_def kNumStreams_def)
  have kcps: "(tr_kcps ?t)[0 := k] = (open_streams 0)[0 := k]" for k by simp
  have "unat (0 :: u32) mod kNumStreams = 0" "0 < kNumStreams" by (simp_all add: kNumStreams_def)
  from datagrams_reach_their_stream [OF this reach hd_in long at, of "\<lambda>d. int (length d)" 99]
  show ?thesis unfolding at kcps by blast
qed

end
