(* ===== verification/Resources.thy ===== *)
theory Resources
  imports Prelude "HOL-Library.Multiset"
begin

text \<open>
  Resources of the operating system that code acquires and releases: the calls in the order they are made,
  and their effect on what is open.
\<close>

datatype 'r os_call = Acquire 'r | Release 'r

text \<open>The resources open after a log of calls; \<open>None\<close> when something is released that is not open.\<close>

fun replay :: "'r os_call list \<Rightarrow> 'r multiset \<Rightarrow> 'r multiset option" where
  "replay [] open_now = Some open_now"
| "replay (Acquire r # log) open_now = replay log (add_mset r open_now)"
| "replay (Release r # log) open_now = (if r \<in># open_now then replay log (open_now - {#r#}) else None)"

lemma replay_append:
  "replay (l1 @ l2) R = (case replay l1 R of None \<Rightarrow> None | Some R' \<Rightarrow> replay l2 R')"
  by (induction l1 R rule: replay.induct) auto

text \<open>Code that releases what it acquires, in whatever state it runs.\<close>

definition balanced :: "'r os_call list \<Rightarrow> bool" where
  "balanced log \<longleftrightarrow> (\<forall>R. replay log R = Some R)"

lemma balanced_intros:
  "balanced []" "balanced l1 \<Longrightarrow> balanced l2 \<Longrightarrow> balanced (l1 @ l2)"
  "balanced log \<Longrightarrow> balanced (Acquire r # log @ [Release r])"
  by (simp_all add: balanced_def replay_append)

lemma balanced_replay: "balanced log \<Longrightarrow> replay log R = Some R"
  by (simp add: balanced_def)

end
