(* ===== verification/File_Mapper.thy ===== *)
theory File_Mapper
  imports Resources
begin

text \<open>
  \<^verbatim>\<open>src/core/file_mapper.cpp\<close>: the RAII wrapper of a memory-mapped file.  A handle or a view is the
  number Windows returned for it; \<open>None\<close> is \<open>INVALID_HANDLE_VALUE\<close> or \<open>nullptr\<close>.  What the system calls
  return is an argument of each operation, and the calls that acquire or release a resource are
  recorded in order.  The invariant says that the resources still open are exactly those the object
  holds, on the exceptional paths too.
\<close>

subsection \<open>The code\<close>

datatype resource = Handle nat | View nat

record FileMapper =
  fm_fileHandle :: "nat option"
  fm_mappingHandle :: "nat option"
  fm_mappedView :: "nat option"
  fm_mappedLength :: u64

definition new_mapper :: FileMapper where
  "new_mapper = \<lparr>fm_fileHandle = None, fm_mappingHandle = None, fm_mappedView = None, fm_mappedLength = 0\<rparr>"

text \<open>\<open>cleanup\<close>, which \<open>unmap\<close> and the destructor call.  \<open>FlushViewOfFile\<close> releases nothing.\<close>

definition cleanup :: "FileMapper \<Rightarrow> resource os_call list \<times> FileMapper" where
  "cleanup m =
     ((case fm_mappedView m of Some v \<Rightarrow> [Release (View v)] | None \<Rightarrow> [])
      @ (case fm_mappingHandle m of Some h \<Rightarrow> [Release (Handle h)] | None \<Rightarrow> [])
      @ (case fm_fileHandle m of Some h \<Rightarrow> [Release (Handle h)] | None \<Rightarrow> []),
      m\<lparr>fm_mappedView := None, fm_mappingHandle := None, fm_fileHandle := None, fm_mappedLength := 0\<rparr>)"

text \<open>The results of \<open>CreateFileW\<close>, \<open>CreateFileMappingW\<close> and \<open>MapViewOfFile\<close>.\<close>

record os_results =
  os_file :: "nat option"
  os_mapping :: "nat option"
  os_view :: "nat option"

text \<open>The common part of \<open>map_read\<close> and \<open>map_write\<close>, which differ in access flags and messages; the
  result is the span, a view with its length.\<close>

definition map_file :: "string \<times> string \<times> string \<Rightarrow> os_results \<Rightarrow> u64 \<Rightarrow> FileMapper
    \<Rightarrow> resource os_call list \<times> FileMapper \<times> (nat \<times> u64) result" where
  "map_file msgs os len m0 =
     (let (log0, m1) = cleanup m0
      in case os_file os of
           None \<Rightarrow> (log0, m1, Inl (Throw (fst msgs)))
         | Some f \<Rightarrow>
             let m2 = m1\<lparr>fm_fileHandle := Some f\<rparr>; log1 = log0 @ [Acquire (Handle f)]
             in case os_mapping os of
                  None \<Rightarrow> (log1, m2, Inl (Throw (fst (snd msgs))))
                | Some h \<Rightarrow>
                    let m3 = m2\<lparr>fm_mappingHandle := Some h\<rparr>; log2 = log1 @ [Acquire (Handle h)]
                    in case os_view os of
                         None \<Rightarrow> (log2, m3, Inl (Throw (snd (snd msgs))))
                       | Some v \<Rightarrow>
                           (log2 @ [Acquire (View v)],
                            m3\<lparr>fm_mappedView := Some v, fm_mappedLength := len\<rparr>, Inr (v, len)))"

definition map_read :: "os_results \<Rightarrow> u64 \<Rightarrow> FileMapper \<Rightarrow> resource os_call list \<times> FileMapper \<times> (nat \<times> u64) result" where
  "map_read = map_file (''Failed to open file for reading'', ''failed to create file mapping'',
     ''Failed to map view of file'')"

definition map_write :: "os_results \<Rightarrow> u64 \<Rightarrow> FileMapper \<Rightarrow> resource os_call list \<times> FileMapper \<times> (nat \<times> u64) result" where
  "map_write = map_file (''failed to create file mapping'', ''failed to create file mapping'',
     ''failed to map the view of file'')"

text \<open>\<open>preallocate_file\<close> opens its own handle and closes it; the file ends up with the given size.\<close>

definition preallocate_file :: "nat option \<Rightarrow> u64 \<Rightarrow> resource os_call list \<times> u64 result" where
  "preallocate_file hFile new_size =
     (case hFile of
        None \<Rightarrow> ([], Inl (Throw ''Failed to create file for preallocation, Windows Error: ''))
      | Some h \<Rightarrow> ([Acquire (Handle h), Release (Handle h)], Inr new_size))"

definition unmap :: "FileMapper \<Rightarrow> resource os_call list \<times> FileMapper" where
  "unmap m = cleanup m"

text \<open>Move assignment of \<open>other\<close> to a different object: what it releases, the new value of the target,
  and the emptied source.\<close>

definition move_assign :: "FileMapper \<Rightarrow> FileMapper \<Rightarrow> resource os_call list \<times> FileMapper \<times> FileMapper" where
  "move_assign m other =
     (let (log, m1) = cleanup m
      in (log, m1\<lparr>fm_fileHandle := fm_fileHandle other, fm_mappingHandle := fm_mappingHandle other,
                  fm_mappedView := fm_mappedView other, fm_mappedLength := fm_mappedLength other\<rparr>,
          other\<lparr>fm_fileHandle := None, fm_mappingHandle := None, fm_mappedView := None, fm_mappedLength := 0\<rparr>))"

definition move_construct :: "FileMapper \<Rightarrow> resource os_call list \<times> FileMapper \<times> FileMapper" where
  "move_construct other = move_assign new_mapper other"

subsection \<open>Resource accounting\<close>

text \<open>The resources an object holds.\<close>

definition holds :: "FileMapper \<Rightarrow> resource multiset" where
  "holds m = (case fm_fileHandle m of Some h \<Rightarrow> {#Handle h#} | None \<Rightarrow> {#})
     + (case fm_mappingHandle m of Some h \<Rightarrow> {#Handle h#} | None \<Rightarrow> {#})
     + (case fm_mappedView m of Some v \<Rightarrow> {#View v#} | None \<Rightarrow> {#})"

lemma cleanup_replay:
  assumes "cleanup m = (log, m')"
  shows "replay log (holds m + R) = Some R"
  using assms by (auto simp: cleanup_def holds_def split: option.splits)

lemma cleanup_holds: "cleanup m = (log, m') \<Longrightarrow> holds m' = {#}"
  by (auto simp: cleanup_def holds_def)

text \<open>Mapping a file, successful or not, leaves the process with what the object holds.\<close>

lemma map_file_replay:
  assumes "map_file msgs os len m = (log, m', r)"
  shows "replay log (holds m + R) = Some (holds m' + R)"
proof -
  obtain log0 m1 where c: "cleanup m = (log0, m1)" by (rule prod.exhaust)
  have m1: "fm_fileHandle m1 = None" "fm_mappingHandle m1 = None" "fm_mappedView m1 = None"
    using c by (auto simp: cleanup_def)
  show ?thesis
    using assms m1 cleanup_replay [OF c, of R]
    by (auto simp: map_file_def c Let_def replay_append holds_def ac_simps split: option.splits)
qed

text \<open>The operations a client may perform on one object.\<close>

datatype mapper_op = Map_Read os_results u64 | Map_Write os_results u64 | Unmap

fun mapper_step :: "mapper_op \<Rightarrow> resource os_call list \<times> FileMapper \<Rightarrow> resource os_call list \<times> FileMapper" where
  "mapper_step (Map_Read os len) (log, m) = (let (l, m', r) = map_read os len m in (log @ l, m'))"
| "mapper_step (Map_Write os len) (log, m) = (let (l, m', r) = map_write os len m in (log @ l, m'))"
| "mapper_step Unmap (log, m) = (let (l, m') = unmap m in (log @ l, m'))"

lemma mapper_step_balanced:
  assumes "replay log {#} = Some (holds m)" and "mapper_step op (log, m) = (log', m')"
  shows "replay log' {#} = Some (holds m')"
  using assms map_file_replay [of _ _ _ m _ _ _ "{#}"] cleanup_replay [of m _ _ "{#}"] cleanup_holds [of m]
  by (cases op) (auto simp: map_read_def map_write_def unmap_def replay_append Let_def split: prod.splits)

lemma mapper_run_balanced:
  assumes "replay log {#} = Some (holds m)" and "fold mapper_step ops (log, m) = (log', m')"
  shows "replay log' {#} = Some (holds m')"
  using assms
proof (induction ops arbitrary: log m)
  case (Cons op ops)
  obtain log1 m1 where "mapper_step op (log, m) = (log1, m1)" by (rule prod.exhaust)
  with Cons.prems mapper_step_balanced [OF Cons.prems(1)] Cons.IH [of log1 m1] show ?case by simp
qed simp

subsection \<open>Properties\<close>

text \<open>C34: no sequence of mapping, remapping and unmapping, with any of the system calls failing at any
  point, releases a resource twice or leaks one: when the destructor has run, every handle and view
  that was acquired has been released exactly once.\<close>

theorem file_mapper_releases_all:
  assumes "fold mapper_step ops ([], new_mapper) = (log, m)" and "cleanup m = (log', m')"
  shows "replay (log @ log') {#} = Some {#}"
proof -
  have "replay [] {#} = Some (holds new_mapper)" by (simp add: holds_def new_mapper_def)
  from mapper_run_balanced [OF this assms(1)] show ?thesis
    using cleanup_replay [OF assms(2), of "{#}"] by (simp add: replay_append)
qed

definition failing_os :: os_results where
  "failing_os = \<lparr>os_file = Some 4, os_mapping = None, os_view = None\<rparr>"

definition working_os :: os_results where
  "working_os = \<lparr>os_file = Some 4, os_mapping = Some 8, os_view = Some 1\<rparr>"

lemma file_mapper_releases_all_witness:
  "replay ([Acquire (Handle 4), Acquire (Handle 8), Acquire (View 1), Release (View 1), Release (Handle 8),
     Release (Handle 4), Acquire (Handle 4)] @ [Release (Handle 4)]) {#} = Some {#}"
  by (rule file_mapper_releases_all [where ops = "[Map_Read working_os 10, Map_Write failing_os 10]"
        and m = "new_mapper\<lparr>fm_fileHandle := Some 4\<rparr>" and m' = new_mapper])
    (simp_all add: map_read_def map_write_def map_file_def cleanup_def new_mapper_def failing_os_def working_os_def)

text \<open>Moving a mapper transfers its resources: the target releases what it held before, owns what the
  source owned, and the source owns nothing, so that destroying both closes everything once.\<close>

theorem file_mapper_move_transfers:
  assumes "move_assign m other = (log, m', other')"
  shows "replay log (holds m + holds other) = Some (holds m' + holds other') \<and> holds m' = holds other
    \<and> holds other' = {#} \<and> fm_mappedLength m' = fm_mappedLength other"
proof -
  obtain log0 m1 where c: "cleanup m = (log0, m1)" by (rule prod.exhaust)
  show ?thesis using assms cleanup_replay [OF c, of "holds other"] by (auto simp: move_assign_def c holds_def)
qed

lemma file_mapper_move_transfers_witness:
  "replay [Release (Handle 4)] {#Handle 4, View 1#} = Some {#View 1#}"
  using file_mapper_move_transfers [of "new_mapper\<lparr>fm_fileHandle := Some 4\<rparr>" "new_mapper\<lparr>fm_mappedView := Some 1\<rparr>"
      "[Release (Handle 4)]" "new_mapper\<lparr>fm_mappedView := Some 1\<rparr>" new_mapper]
  by (simp add: move_assign_def cleanup_def new_mapper_def holds_def)

end
