(* ===== verification/Metrics.thy ===== *)
theory Metrics
  imports Strings Complex_Main "HOL-Library.Signed_Division"
begin

text \<open>
  \<^verbatim>\<open>src/core/metrics.cpp\<close>: progress, speed and remaining time of a transfer.  Clock readings are
  seconds and arguments of the operations; a \<open>double\<close> is a real number, so rounding is not modelled.
  Byte counters are 64-bit and wrap.  Conversions that C++ leaves undefined, and the exception of
  \<open>std::string (n, c)\<close> for a size that is negative as \<open>int\<close>, are failures.
\<close>

subsection \<open>The code\<close>

record transferMetrics =
  mt_total_bytes :: u64
  mt_bytes_transferred :: u64
  mt_last_update_time :: real
  mt_last_bytes_snap :: u64
  mt_current_speed_mbps :: real
  mt_current_eta_secs :: u32

definition new_metrics :: "u64 \<Rightarrow> real \<Rightarrow> transferMetrics" where
  "new_metrics total_bytes now =
     \<lparr>mt_total_bytes = total_bytes, mt_bytes_transferred = 0, mt_last_update_time = now,
      mt_last_bytes_snap = 0, mt_current_speed_mbps = 0, mt_current_eta_secs = 0\<rparr>"

definition add_bytes :: "u64 \<Rightarrow> transferMetrics \<Rightarrow> transferMetrics" where
  "add_bytes bytes m = m\<lparr>mt_bytes_transferred := mt_bytes_transferred m + bytes\<rparr>"

definition double_to_u32 :: "real \<Rightarrow> u32 result" where
  "double_to_u32 d =
     (if - 1 < d \<and> d < 2 ^ 32 then Inr (word_of_int \<lfloor>d\<rfloor>) else Inl BrokenPrecondition)"

definition get_speed_mbps :: "real \<Rightarrow> transferMetrics \<Rightarrow> (real \<times> transferMetrics) result" where
  "get_speed_mbps now m =
     (let elapsed = now - mt_last_update_time m
      in if elapsed \<ge> 1 / 4
         then let current_bytes = mt_bytes_transferred m;
                  bytes_since_last = current_bytes - mt_last_bytes_snap m;
                  speed = (real (unat bytes_since_last) / 1048576) / elapsed;
                  remaining_bytes = (if mt_total_bytes m > current_bytes then mt_total_bytes m - current_bytes else 0)
              in bind_result
                   (if speed > 1 / 10 then double_to_u32 ((real (unat remaining_bytes) / 1048576) / speed)
                    else Inr 999)
                   (\<lambda>eta. Inr (speed, m\<lparr>mt_current_speed_mbps := speed, mt_current_eta_secs := eta,
                      mt_last_bytes_snap := current_bytes, mt_last_update_time := now\<rparr>))
         else Inr (mt_current_speed_mbps m, m))"

definition get_ets_secs :: "real \<Rightarrow> transferMetrics \<Rightarrow> (u32 \<times> transferMetrics) result" where
  "get_ets_secs now m = bind_result (get_speed_mbps now m) (\<lambda>(_, m'). Inr (mt_current_eta_secs m', m'))"

text \<open>The cast to \<open>int\<close> keeps the low 32 bits.\<close>

definition get_progress_per :: "transferMetrics \<Rightarrow> int" where
  "get_progress_per m =
     (if mt_total_bytes m = 0 then 100
      else sint (ucast ((mt_bytes_transferred m * 100) div mt_total_bytes m) :: u32))"

text \<open>The bar of \<open>get_ui_string\<close>.  \<open>fmt_speed\<close> is \<open>fmt\<close>'s rendering of a \<open>double\<close> as \<open>{:.1f}\<close>.\<close>

definition ui_bar :: "int \<Rightarrow> string result" where
  "ui_bar percent =
     (if percent * 40 \<ge> 2 ^ 31 \<or> percent * 40 < - (2 ^ 31) then Inl BrokenPrecondition
      else let bars = percent * 40 sdiv 100
           in if bars < 0 \<or> 40 - bars < 0 then Inl (Throw ''string too long'')
              else Inr (replicate (nat bars) CHR ''='' @ replicate (nat (40 - bars)) CHR '' ''))"

definition int_to_string :: "int \<Rightarrow> string" where
  "int_to_string n = (if n < 0 then CHR ''-'' # to_string (nat (- n)) else to_string (nat n))"

definition get_ui_string :: "(real \<Rightarrow> string) \<Rightarrow> real \<Rightarrow> transferMetrics \<Rightarrow> (string \<times> transferMetrics) result" where
  "get_ui_string fmt_speed now m =
     (let percent = get_progress_per m
      in bind_result (get_speed_mbps now m) (\<lambda>(speed, m1).
         bind_result (get_ets_secs now m1) (\<lambda>(eta, m2).
         bind_result (ui_bar percent) (\<lambda>bar.
           Inr (''['' @ bar @ ''] '' @ int_to_string percent @ ''% | '' @ fmt_speed speed @ '' MB/s | ETA: ''
             @ to_string (unat eta), m2)))))"

subsection \<open>Lemmas\<close>

lemma progress_div:
  assumes "0 < unat (mt_total_bytes m)" and "unat (mt_bytes_transferred m) * 100 < 2 ^ 64"
    and "unat (mt_bytes_transferred m) * 100 div unat (mt_total_bytes m) < 2 ^ 31"
  shows "get_progress_per m = int (unat (mt_bytes_transferred m) * 100 div unat (mt_total_bytes m))"
proof -
  let ?q = "(mt_bytes_transferred m * 100) div mt_total_bytes m"
  have "unat (mt_bytes_transferred m * 100) = unat (mt_bytes_transferred m) * 100"
    using assms(2) by (subst unat_mult_lem [THEN iffD1]) auto
  then have q: "unat ?q = unat (mt_bytes_transferred m) * 100 div unat (mt_total_bytes m)"
    by (simp add: unat_div)
  then have "unat (ucast ?q :: u32) = unat ?q"
    using assms(3) by (intro unat_ucast_small) auto
  then have "sint (ucast ?q :: u32) = int (unat (mt_bytes_transferred m) * 100 div unat (mt_total_bytes m))"
    using assms(3) q sint_small [of "ucast ?q"] by (simp del: of_nat_unat)
  moreover have "mt_total_bytes m \<noteq> 0" using assms(1) by auto
  ultimately show ?thesis by (simp add: get_progress_per_def)
qed

lemma sdiv_nonneg: "0 \<le> a \<Longrightarrow> 0 < b \<Longrightarrow> (a :: int) sdiv b = a div b"
  by (simp add: signed_divide_int_def sgn_if)

subsection \<open>Properties\<close>

text \<open>C35: as long as no more bytes are counted than the file has, the percentage is between 0 and 100, it
  is 100 exactly at the end, and more bytes never lower it (files below \<open>2 ^ 64 / 100\<close> bytes).\<close>

theorem progress_is_a_percentage:
  assumes "0 < unat (mt_total_bytes m)" and "unat (mt_total_bytes m) * 100 < 2 ^ 64"
    and "unat (mt_bytes_transferred m) + unat n \<le> unat (mt_total_bytes m)"
  shows "0 \<le> get_progress_per m \<and> get_progress_per m \<le> get_progress_per (add_bytes n m)
    \<and> get_progress_per (add_bytes n m) \<le> 100
    \<and> (get_progress_per (add_bytes n m) = 100 \<longleftrightarrow> unat (mt_bytes_transferred m) + unat n = unat (mt_total_bytes m))"
proof -
  define t where "t = unat (mt_total_bytes m)"
  define b where "b = unat (mt_bytes_transferred m)"
  define c where "c = b + unat n"
  have t: "0 < t" "t * 100 < 2 ^ 64" "c \<le> t" using assms by (simp_all add: t_def b_def c_def)
  have le: "x * 100 div t \<le> 100" if "x \<le> t" for x
  proof -
    have "x * 100 div t \<le> t * 100 div t" using that by (intro div_le_mono) simp
    with t(1) show ?thesis by simp
  qed
  have "unat (mt_bytes_transferred m + n) = c"
    unfolding c_def b_def using t(2,3) by (subst unat_add_lem [THEN iffD1]) (auto simp: c_def b_def)
  then have "get_progress_per (add_bytes n m) = int (c * 100 div t)"
    using progress_div [of "add_bytes n m"] t le [OF t(3)] by (simp add: add_bytes_def t_def)
  moreover have "get_progress_per m = int (b * 100 div t)"
    using progress_div [of m] t le [of b] by (simp add: t_def b_def c_def)
  moreover have "b * 100 div t \<le> c * 100 div t" by (intro div_le_mono) (simp add: c_def)
  moreover have "c * 100 div t = 100 \<longleftrightarrow> c = t"
  proof
    assume "c * 100 div t = 100"
    then have "100 * t \<le> c * 100" using t(1) by (metis div_times_less_eq_dividend)
    then show "c = t" using t(3) by simp
  qed (use t(1) in simp)
  ultimately show ?thesis using le [OF t(3)] by (simp add: t_def b_def c_def)
qed

definition sample_metrics :: transferMetrics where
  "sample_metrics = add_bytes 10 (new_metrics 40 0)"

lemma progress_is_a_percentage_witness:
  "0 \<le> get_progress_per sample_metrics \<and> get_progress_per sample_metrics \<le> get_progress_per (add_bytes 30 sample_metrics)
    \<and> get_progress_per (add_bytes 30 sample_metrics) \<le> 100 \<and> get_progress_per (add_bytes 30 sample_metrics) = 100"
  using progress_is_a_percentage [of sample_metrics 30]
  by (simp add: sample_metrics_def add_bytes_def new_metrics_def)

text \<open>The progress bar is 40 characters wide for every percentage up to 102 and throws beyond it: if
  bytes are counted twice, as a repeated chunk does, \<open>40 - bars\<close> becomes negative and is taken as the
  size of a string.\<close>

theorem ui_bar_width:
  assumes "0 \<le> percent" and "percent < 2 ^ 25"
  shows "if percent \<le> 102 then \<exists>s. ui_bar percent = Inr s \<and> length s = 40
         else ui_bar percent = Inl (Throw ''string too long'')"
proof -
  have "percent * 40 sdiv 100 = percent * 40 div 100" using assms(1) by (simp add: sdiv_nonneg)
  moreover have "percent * 40 < 2 ^ 31" "- (2 ^ 31) \<le> percent * 40" using assms by simp_all
  moreover have "0 \<le> percent * 40 div 100" using assms(1) by simp
  moreover have "percent * 40 div 100 \<le> 40 \<longleftrightarrow> percent \<le> 102"
    using div_mult_mod_eq [of "percent * 40" 100] pos_mod_bound [of 100 "percent * 40"] pos_mod_sign [of 100 "percent * 40"]
    by linarith
  ultimately show ?thesis by (auto simp: ui_bar_def Let_def)
qed

lemma ui_bar_width_witness: "ui_bar 200 = Inl (Throw ''string too long'')"
  using ui_bar_width [of 200] by simp

end
