(* ===== verification/Discovery.thy ===== *)
theory Discovery
  imports Strings
begin

text \<open>
  \<^verbatim>\<open>src/net/discovery.cpp\<close>: announcing this device by UDP broadcast and collecting the peers that
  announce themselves.  The sockets and clocks are the environment; a datagram that arrives is given by
  its bytes, the textual address \<open>inet_ntop\<close> produces for its sender, and the time.
\<close>

subsection \<open>The code\<close>

record Peer =
  pr_ip_address :: string
  pr_hostname :: string
  pr_lastSeen :: nat

record discovery =
  dc_deviceName :: string
  dc_port :: u16
  dc_running :: bool
  dc_broadcastSocket :: bool
  dc_listenSocket :: bool
  dc_threads :: bool
  dc_callback :: bool
  dc_active_peers :: "string \<rightharpoonup> Peer"

definition new_discovery :: discovery where
  "new_discovery = \<lparr>dc_deviceName = [], dc_port = 0, dc_running = False, dc_broadcastSocket = False,
     dc_listenSocket = False, dc_threads = False, dc_callback = False, dc_active_peers = Map.empty\<rparr>"

definition set_callback :: "discovery \<Rightarrow> discovery" where
  "set_callback d = d\<lparr>dc_callback := True\<rparr>"

text \<open>\<open>start\<close>; the argument \<open>bound\<close> is whether \<open>bind\<close> succeeded, without which no thread runs.\<close>

definition start :: "bool \<Rightarrow> u16 \<Rightarrow> string \<Rightarrow> discovery \<Rightarrow> discovery" where
  "start bound port deviceName d =
     (let d1 = d\<lparr>dc_port := port, dc_deviceName := deviceName, dc_running := True,
                 dc_broadcastSocket := True, dc_listenSocket := True\<rparr>
      in if bound then d1\<lparr>dc_threads := True\<rparr> else d1)"

definition stop :: "discovery \<Rightarrow> discovery" where
  "stop d = d\<lparr>dc_running := False, dc_broadcastSocket := False, dc_listenSocket := False\<rparr>"

definition broadcast_payload :: "discovery \<Rightarrow> byte list" where
  "broadcast_payload d = bytes_of_string (''Sxaint|'' @ dc_deviceName d)"

text \<open>\<open>broadcast_loop\<close> while \<open>running_\<close> has the given values: address, port and bytes of the datagrams handed to \<open>sendto\<close>,
  every two seconds.\<close>

fun broadcast_loop :: "bool list \<Rightarrow> discovery \<Rightarrow> (string \<times> u16 \<times> byte list) list" where
  "broadcast_loop [] d = []"
| "broadcast_loop (running # later) d =
     (if running
      then (''255.255.255.255'', dc_port d, broadcast_payload d) # (''127.0.0.1'', dc_port d, broadcast_payload d) # broadcast_loop later d
      else [])"

text \<open>The text of a received datagram: a NUL is stored after it, and the string ends at the first NUL.\<close>

definition received_text :: "byte list \<Rightarrow> string" where
  "received_text datagram = string_of_bytes (takeWhile (\<lambda>b. b \<noteq> 0) datagram)"

text \<open>One turn of \<open>listen_loop\<close>: the new state and the peers passed to the callback.  For a datagram longer than
  the 1023 bytes asked for \<open>recvfrom\<close> returns an error on Windows.\<close>

definition listen_step :: "byte list \<Rightarrow> string \<Rightarrow> nat \<Rightarrow> discovery \<Rightarrow> discovery \<times> Peer list" where
  "listen_step datagram ip now d =
     (if datagram = [] \<or> 1023 < length datagram then (d, [])
      else let msg = received_text datagram
           in if take 7 msg = ''sxaint|''
              then (case dc_active_peers d ip of
                  None \<Rightarrow>
                    let new_peer = \<lparr>pr_ip_address = ip, pr_hostname = drop 7 msg, pr_lastSeen = now\<rparr>
                    in (d\<lparr>dc_active_peers := (dc_active_peers d)(ip \<mapsto> new_peer)\<rparr>,
                        if dc_callback d then [new_peer] else [])
                | Some p \<Rightarrow> (d\<lparr>dc_active_peers := (dc_active_peers d)(ip \<mapsto> p\<lparr>pr_lastSeen := now\<rparr>)\<rparr>, []))
              else (d, []))"

fun listen_run :: "(byte list \<times> string \<times> nat) list \<Rightarrow> discovery \<Rightarrow> discovery \<times> Peer list" where
  "listen_run [] d = (d, [])"
| "listen_run ((datagram, ip, now) # rest) d =
     (let (d1, found) = listen_step datagram ip now d; (d2, found') = listen_run rest d1
      in (d2, found @ found'))"

subsection \<open>Peers are reported once\<close>

lemma listen_step_peers:
  assumes "listen_step datagram ip now d = (d1, found)" and "dc_callback d"
  shows "dc_callback d1 \<and> distinct (map pr_ip_address found)
    \<and> dom (dc_active_peers d1) = dom (dc_active_peers d) \<union> pr_ip_address ` set found
    \<and> dom (dc_active_peers d) \<inter> pr_ip_address ` set found = {}"
proof (cases "datagram = [] \<or> 1023 < length datagram \<or> take 7 (received_text datagram) \<noteq> ''sxaint|''")
  case True
  then have "d1 = d" "found = []" using assms(1) by (auto simp: listen_step_def Let_def split: if_splits)
  with assms(2) show ?thesis by simp
next
  case False
  show ?thesis
  proof (cases "dc_active_peers d ip")
    case None
    then have "found = [\<lparr>pr_ip_address = ip, pr_hostname = drop 7 (received_text datagram), pr_lastSeen = now\<rparr>]"
      "dom (dc_active_peers d1) = insert ip (dom (dc_active_peers d))" "dc_callback d1"
      using False assms by (auto simp: listen_step_def Let_def)
    moreover have "ip \<notin> dom (dc_active_peers d)" using None by (simp add: domIff)
    ultimately show ?thesis by auto
  next
    case (Some p)
    then have "found = []" "dc_callback d1"
      "dc_active_peers d1 = (dc_active_peers d)(ip \<mapsto> p\<lparr>pr_lastSeen := now\<rparr>)"
      using False assms by (auto simp: listen_step_def Let_def)
    moreover from this Some have "dom (dc_active_peers d1) = dom (dc_active_peers d)" by auto
    ultimately show ?thesis by simp
  qed
qed

text \<open>C40: each peer address is reported to the callback exactly once, however often it announces itself:
  over any sequence of datagrams the reported addresses are pairwise different, none was known before,
  and afterwards the table holds exactly the old and the reported addresses.\<close>

theorem peers_reported_once:
  assumes "listen_run msgs d = (d', found)" and "dc_callback d"
  shows "distinct (map pr_ip_address found)
    \<and> dom (dc_active_peers d) \<inter> pr_ip_address ` set found = {}
    \<and> dom (dc_active_peers d') = dom (dc_active_peers d) \<union> pr_ip_address ` set found"
  using assms
proof (induction msgs arbitrary: d found)
  case (Cons m msgs)
  obtain datagram ip now where m: "m = (datagram, ip, now)" by (rule prod_cases3)
  obtain d1 f1 where s: "listen_step datagram ip now d = (d1, f1)" by (rule prod.exhaust)
  obtain f2 where r: "listen_run msgs d1 = (d', f2)" and res: "found = f1 @ f2"
    using Cons.prems(1) by (auto simp: m s split: prod.splits)
  note p = listen_step_peers [OF s Cons.prems(2)]
  with Cons.IH [OF r] show ?case by (auto simp: res)
qed simp

definition listening :: discovery where
  "listening = set_callback (start True 9001 ''me'' new_discovery)"

definition hello :: "byte list \<times> string \<times> nat" where
  "hello = (bytes_of_string ''sxaint|bob'', ''10.0.0.2'', 5)"

lemma received_text_of_string:
  assumes "CHR 0x00 \<notin> set s"
  shows "received_text (bytes_of_string s) = s"
proof -
  have "(of_char c :: byte) \<noteq> 0" if "c \<in> set s" for c
  proof
    assume "(of_char c :: byte) = 0"
    then have "string_of_bytes (bytes_of_string [c]) = [char_of (0 :: nat)]"
      by (simp add: bytes_of_string_def string_of_bytes_def)
    then show False using that assms by (simp add: char_of_def)
  qed
  then have "takeWhile (\<lambda>b. b \<noteq> 0) (bytes_of_string s) = bytes_of_string s"
    by (auto simp: bytes_of_string_def takeWhile_eq_all_conv)
  then show ?thesis unfolding received_text_def by (simp only: string_of_bytes_of_string)
qed

lemma hello_twice:
  "\<exists>d'. listen_run [hello, hello] listening =
     (d', [\<lparr>pr_ip_address = ''10.0.0.2'', pr_hostname = ''bob'', pr_lastSeen = 5\<rparr>])"
  using received_text_of_string [of "''sxaint|bob''"]
  by (simp add: hello_def listen_step_def listening_def set_callback_def start_def new_discovery_def Let_def)
    (simp add: bytes_of_string_def)

lemma peers_reported_once_witness:
  "\<exists>d'. dom (dc_active_peers d') = {''10.0.0.2''} \<and> fst (listen_run [hello, hello] listening) = d'"
proof -
  obtain d' where r: "listen_run [hello, hello] listening =
     (d', [\<lparr>pr_ip_address = ''10.0.0.2'', pr_hostname = ''bob'', pr_lastSeen = 5\<rparr>])" using hello_twice by blast
  have "dc_callback listening" "dom (dc_active_peers listening) = {}"
    by (simp_all add: listening_def set_callback_def start_def new_discovery_def)
  with peers_reported_once [OF r] r show ?thesis by simp
qed

subsection \<open>Announcements are not recognised\<close>

text \<open>A device never discovers another one: the announcement starts with \<open>Sxaint|\<close> but the listener looks
  for \<open>sxaint|\<close>.\<close>

lemma announcement_ignored:
  "listen_step (broadcast_payload sender) ip now d = (d, [])"
proof -
  have "char_of (unat (of_char CHR ''S'' :: byte)) = CHR ''S''"
    using string_of_bytes_of_string [of "''S''"] by (simp only: string_of_bytes_def bytes_of_string_def list.map list.inject)
  moreover have "\<exists>r. received_text (broadcast_payload sender) = char_of (unat (of_char CHR ''S'' :: byte)) # r"
    by (simp add: received_text_def broadcast_payload_def bytes_of_string_def string_of_bytes_def)
  ultimately have "take 7 (received_text (broadcast_payload sender)) \<noteq> ''sxaint|''" by auto
  then show ?thesis by (simp add: listen_step_def Let_def)
qed

lemma announcements_ignored:
  assumes "\<forall>m\<in>set msgs. \<exists>sender. fst m = broadcast_payload sender"
  shows "listen_run msgs d = (d, [])"
  using assms
proof (induction msgs)
  case (Cons m msgs)
  obtain datagram ip now where "m = (datagram, ip, now)" by (rule prod_cases3)
  with Cons show ?case by (auto simp: announcement_ignored)
qed simp

text \<open>So the announcements of a running device, in whatever order and however often they arrive at a listener,
  report no peer.\<close>

lemma broadcasts_ignored:
  assumes "\<forall>m\<in>set msgs. \<exists>addr. (addr, dc_port sender, fst m) \<in> set (broadcast_loop running sender)"
  shows "listen_run msgs d = (d, [])"
proof -
  have "(addr, port, bytes) \<in> set (broadcast_loop running sender) \<Longrightarrow> bytes = broadcast_payload sender" for addr port bytes
    by (induction running) (auto split: if_splits)
  then show ?thesis using assms by (intro announcements_ignored) blast
qed

end
