(* ===== verification/Stun.thy ===== *)
theory Stun
  imports Strings
begin

text \<open>
  \<^verbatim>\<open>src/net/stun.cpp\<close>: the request sent to the STUN server and the search for an address attribute in
  its answer.  The answer is read into a vector of 1024 zero bytes; indexing past its end is
  \<open>OutOfBounds\<close>.  Socket set-up and name resolution are the environment: \<open>None\<close> stands for a failure
  before the answer is read.  For a datagram longer than the buffer \<open>recvfrom\<close> returns -1 on Windows.
\<close>

subsection \<open>The code\<close>

record publicEndpoint =
  pe_ip :: string
  pe_port :: u16
  pe_success :: bool

definition no_endpoint :: publicEndpoint where
  "no_endpoint = \<lparr>pe_ip = [], pe_port = 0, pe_success = False\<rparr>"

definition stunReq :: "byte list" where
  "stunReq = (replicate 20 0)[0 := 0, 1 := 1, 4 := 0x21, 5 := 0x12, 6 := 0xA4, 7 := 0x42]"

definition resp_at :: "byte list \<Rightarrow> nat \<Rightarrow> byte result" where
  "resp_at resp i = (if i < length resp then Inr (resp ! i) else Inl OutOfBounds)"

definition read_be16 :: "byte list \<Rightarrow> nat \<Rightarrow> u16 result" where
  "read_be16 resp i =
     bind_result (resp_at resp i) (\<lambda>a. bind_result (resp_at resp (i + 1)) (\<lambda>b.
       Inr (push_bit 8 (ucast a) OR ucast b)))"

definition read_be32 :: "byte list \<Rightarrow> nat \<Rightarrow> u32 result" where
  "read_be32 resp i =
     bind_result (resp_at resp i) (\<lambda>a. bind_result (resp_at resp (i + 1)) (\<lambda>b.
     bind_result (resp_at resp (i + 2)) (\<lambda>c. bind_result (resp_at resp (i + 3)) (\<lambda>d.
       Inr (push_bit 24 (ucast a) OR push_bit 16 (ucast b) OR push_bit 8 (ucast c) OR ucast d)))))"

definition dotted :: "u32 \<Rightarrow> string" where
  "dotted ip =
     to_string (unat (drop_bit 24 ip AND 0xFF)) @ ''.'' @ to_string (unat (drop_bit 16 ip AND 0xFF)) @ ''.''
     @ to_string (unat (drop_bit 8 ip AND 0xFF)) @ ''.'' @ to_string (unat (ip AND 0xFF))"

definition read_address :: "byte list \<Rightarrow> nat \<Rightarrow> u16 \<Rightarrow> publicEndpoint result" where
  "read_address resp i attr_type =
     bind_result (read_be16 resp (i + 6)) (\<lambda>port0. bind_result (read_be32 resp (i + 8)) (\<lambda>ip0.
       let (port, ip) = (if attr_type = 0x0020 then (port0 XOR 0x2112, ip0 XOR 0x2112A442) else (port0, ip0))
       in Inr \<lparr>pe_ip = dotted ip, pe_port = port, pe_success = True\<rparr>))"

text \<open>The loop over the attributes.  The length \<open>attr_len\<close> is at most 65535, so \<open>i\<close> does not overflow.\<close>

function parse_attributes :: "byte list \<Rightarrow> nat \<Rightarrow> nat \<Rightarrow> publicEndpoint result" where
  "parse_attributes resp bytes i =
     (if i < bytes
      then (case read_be16 resp i of
          Inl e \<Rightarrow> Inl e
        | Inr attr_type \<Rightarrow>
            (case read_be16 resp (i + 2) of
               Inl e \<Rightarrow> Inl e
             | Inr attr_len \<Rightarrow>
                 if attr_type = 0x0001 \<or> attr_type = 0x0020 then read_address resp i attr_type
                 else parse_attributes resp bytes (i + (4 + unat attr_len))))
      else Inr no_endpoint)"
  by pat_completeness auto
termination
  by (relation "measure (\<lambda>(resp, bytes, i). bytes - i)") auto

declare parse_attributes.simps [simp del]

definition resp_buffer :: "byte list \<Rightarrow> byte list" where
  "resp_buffer answer = take 1024 answer @ replicate (1024 - length answer) 0"

definition getPublicEndpoint :: "byte list option \<Rightarrow> publicEndpoint result" where
  "getPublicEndpoint answer =
     (case answer of
        None \<Rightarrow> Inr no_endpoint
      | Some d \<Rightarrow>
          let bytes = (if length d \<le> 1024 then int (length d) else - 1)
          in if bytes > 20 then parse_attributes (resp_buffer d) (nat bytes) 20 else Inr no_endpoint)"

subsection \<open>Lemmas\<close>

lemma length_resp_buffer [simp]: "length (resp_buffer d) = 1024"
  by (simp add: resp_buffer_def)

lemma read_be16_ok: "i + 1 < length resp \<Longrightarrow> \<exists>w. read_be16 resp i = Inr w"
  by (simp add: read_be16_def resp_at_def)

lemma read_address_ok: "i + 11 < length resp \<Longrightarrow> \<exists>e. read_address resp i t = Inr e"
  by (auto simp: read_address_def read_be16_def read_be32_def resp_at_def Let_def split: prod.splits)

lemma parse_in_bounds:
  assumes "bytes + 11 \<le> length resp"
  shows "\<exists>e. parse_attributes resp bytes i = Inr e"
  using assms
proof (induction resp bytes i rule: parse_attributes.induct)
  case (1 resp bytes i)
  show ?case
  proof (cases "i < bytes")
    case True
    then obtain ty len where r: "read_be16 resp i = Inr ty" "read_be16 resp (i + 2) = Inr len"
      using "1.prems" read_be16_ok [of i resp] read_be16_ok [of "i + 2" resp] by auto
    have "\<exists>e. read_address resp i ty = Inr e" using True "1.prems" by (intro read_address_ok) simp
    with True r "1.IH" [OF True r] "1.prems" show ?thesis
      by (subst parse_attributes.simps) auto
  next
    case False
    then show ?thesis by (subst parse_attributes.simps) simp
  qed
qed

text \<open>Network byte order.\<close>

definition be16 :: "u16 \<Rightarrow> byte list" where
  "be16 w = [ucast (drop_bit 8 w), ucast w]"

definition be32 :: "u32 \<Rightarrow> byte list" where
  "be32 w = [ucast (drop_bit 24 w), ucast (drop_bit 16 w), ucast (drop_bit 8 w), ucast w]"

lemma be16_value: "push_bit 8 (ucast (ucast (drop_bit 8 w) :: byte)) OR ucast (ucast w :: byte) = (w :: u16)"
  by (rule bit_word_eqI) (auto simp: bit_simps)

lemma be32_value:
  "push_bit 24 (ucast (ucast (drop_bit 24 w) :: byte)) OR push_bit 16 (ucast (ucast (drop_bit 16 w) :: byte))
     OR push_bit 8 (ucast (ucast (drop_bit 8 w) :: byte)) OR ucast (ucast w :: byte) = (w :: u32)"
  (is "?l = w")
proof (rule bit_word_eqI)
  fix n assume n: "n < LENGTH(32)"
  consider "n < 8" | "8 \<le> n" "n < 16" | "16 \<le> n" "n < 24" | "24 \<le> n" by linarith
  then show "bit ?l n = bit w n" using n by cases (auto simp: bit_simps)
qed

lemma nth_pre: "(pre @ xs) ! (length pre + k) = xs ! k"
  by (simp add: nth_append)

lemma read_be16_at: "read_be16 (pre @ be16 w @ post) (length pre) = Inr w"
  using be16_value [of w] nth_pre [of pre "be16 w @ post" 1] nth_pre [of pre "be16 w @ post" 0]
  by (simp add: read_be16_def resp_at_def be16_def)

lemma read_be32_at: "read_be32 (pre @ be32 w @ post) (length pre) = Inr w"
  using be32_value [of w] nth_pre [of pre "be32 w @ post" 0] nth_pre [of pre "be32 w @ post" 1]
    nth_pre [of pre "be32 w @ post" 2] nth_pre [of pre "be32 w @ post" 3]
  by (simp add: read_be32_def resp_at_def be32_def)

text \<open>Attributes as a server sends them: type, length, value; the XOR-mapped address.\<close>

definition attribute :: "u16 \<Rightarrow> byte list \<Rightarrow> byte list" where
  "attribute ty v = be16 ty @ be16 (word_of_nat (length v)) @ v"

definition xor_mapped :: "u32 \<Rightarrow> u16 \<Rightarrow> byte list" where
  "xor_mapped ip port = attribute 0x0020 ([0, 1] @ be16 (port XOR 0x2112) @ be32 (ip XOR 0x2112A442))"

lemma length_be [simp]: "length (be16 w) = 2" "length (be32 v) = 4"
  by (simp_all add: be16_def be32_def)

lemma parse_skip:
  assumes "length pre < bytes" and "length v < 2 ^ 16" and "ty \<noteq> 0x0001" and "ty \<noteq> 0x0020"
  shows "parse_attributes (pre @ attribute ty v @ post) bytes (length pre) =
    parse_attributes ((pre @ attribute ty v) @ post) bytes (length (pre @ attribute ty v))"
proof -
  have a: "read_be16 (pre @ attribute ty v @ post) (length pre) = Inr ty"
    unfolding attribute_def using read_be16_at [of pre ty] by simp
  have b: "read_be16 (pre @ attribute ty v @ post) (length pre + 2) = Inr (word_of_nat (length v))"
    unfolding attribute_def using read_be16_at [of "pre @ be16 ty" "word_of_nat (length v)" "v @ post"] by simp
  have u: "unat (word_of_nat (length v) :: u16) = length v" using assms(2) by (simp add: unat_word_of_nat_small)
  have l: "length (pre @ attribute ty v) = length pre + (4 + length v)" by (simp add: attribute_def)
  show ?thesis
    unfolding l append_assoc using assms(1,3,4)
    by (subst parse_attributes.simps) (simp add: a b u del: add_2_eq_Suc' add_numeral_left)
qed

lemma parse_found:
  assumes "length pre < bytes"
  shows "parse_attributes (pre @ xor_mapped ip port @ post) bytes (length pre) =
    Inr \<lparr>pe_ip = dotted ip, pe_port = port, pe_success = True\<rparr>"
proof -
  let ?r = "pre @ xor_mapped ip port @ post"
  let ?p = "be16 (port XOR 0x2112)" and ?i = "be32 (ip XOR 0x2112A442)"
  have a: "read_be16 ?r (length pre) = Inr 0x0020"
    unfolding xor_mapped_def attribute_def using read_be16_at [of pre "0x0020"] by simp
  have b: "read_be16 ?r (length pre + 2) = Inr 8"
    unfolding xor_mapped_def attribute_def using read_be16_at [of "pre @ be16 0x0020" 8] by simp
  have c: "read_be16 ?r (length pre + 6) = Inr (port XOR 0x2112)"
    unfolding xor_mapped_def attribute_def
    using read_be16_at [of "pre @ be16 0x0020 @ be16 8 @ [0, 1]" "port XOR 0x2112" "?i @ post"] by simp
  have d: "read_be32 ?r (length pre + 8) = Inr (ip XOR 0x2112A442)"
    unfolding xor_mapped_def attribute_def
    using read_be32_at [of "pre @ be16 0x0020 @ be16 8 @ [0, 1] @ ?p" "ip XOR 0x2112A442" post] by simp
  show ?thesis
    using assms
    by (subst parse_attributes.simps) (simp add: a b read_address_def c d xor.assoc del: add_2_eq_Suc')
qed

lemma parse_answer:
  assumes "\<forall>(ty, v)\<in>set attrs. length v < 2 ^ 16 \<and> ty \<noteq> 0x0001 \<and> ty \<noteq> 0x0020"
    and "length (pre @ concat (map (\<lambda>(ty, v). attribute ty v) attrs)) < bytes"
  shows "parse_attributes (pre @ concat (map (\<lambda>(ty, v). attribute ty v) attrs) @ xor_mapped ip port @ post)
      bytes (length pre) = Inr \<lparr>pe_ip = dotted ip, pe_port = port, pe_success = True\<rparr>"
  using assms
proof (induction attrs arbitrary: pre)
  case Nil
  then show ?case using parse_found by simp
next
  case (Cons a attrs)
  obtain ty v where a: "a = (ty, v)" by (rule prod.exhaust)
  let ?post = "concat (map (\<lambda>(ty, v). attribute ty v) attrs) @ xor_mapped ip port @ post"
  have "parse_attributes (pre @ attribute ty v @ ?post) bytes (length pre) =
      parse_attributes ((pre @ attribute ty v) @ ?post) bytes (length (pre @ attribute ty v))"
    using Cons.prems by (intro parse_skip) (auto simp: a)
  with Cons.IH [of "pre @ attribute ty v"] Cons.prems show ?case by (simp add: a)
qed

subsection \<open>Properties\<close>

text \<open>C36: an answer that fits the 1024-byte buffer and whose attributes before the XOR-mapped address need no padding
  is understood: the reported address and port are the ones the server encoded.  The attributes before it are any but
  the two kinds the client takes for the answer: another XOR-mapped address (0x0020), and the plain \<open>MAPPED-ADDRESS\<close>
  (0x0001), which is what it then reports.\<close>

theorem stun_reports_mapped_address:
  assumes "length hdr = 20" and "\<forall>(ty, v)\<in>set attrs. length v < 2 ^ 16 \<and> ty \<noteq> 0x0001 \<and> ty \<noteq> 0x0020"
    and "answer = hdr @ concat (map (\<lambda>(ty, v). attribute ty v) attrs) @ xor_mapped ip port @ rest"
    and "length answer \<le> 1024"
  shows "getPublicEndpoint (Some answer) = Inr \<lparr>pe_ip = dotted ip, pe_port = port, pe_success = True\<rparr>"
proof -
  have "length (xor_mapped ip port) = 12" by (simp add: xor_mapped_def attribute_def)
  then have l: "length (hdr @ concat (map (\<lambda>(ty, v). attribute ty v) attrs)) < length answer"
    and gt: "20 < length answer" using assms(1,3) by simp_all
  have buf: "resp_buffer answer = hdr @ concat (map (\<lambda>(ty, v). attribute ty v) attrs) @ xor_mapped ip port
      @ rest @ replicate (1024 - length answer) 0"
    using assms(3,4) by (simp add: resp_buffer_def)
  have "parse_attributes (resp_buffer answer) (length answer) 20
      = Inr \<lparr>pe_ip = dotted ip, pe_port = port, pe_success = True\<rparr>"
    unfolding buf using parse_answer [OF assms(2) l] assms(1) by simp
  with gt assms(4) show ?thesis by (simp add: getPublicEndpoint_def)
qed

definition sample_answer :: "byte list" where
  "sample_answer = replicate 20 0 @ attribute 0x8022 [1, 2, 3, 4] @ xor_mapped 0x7F000001 9000"

lemma stun_reports_mapped_address_witness:
  "getPublicEndpoint (Some sample_answer) = Inr \<lparr>pe_ip = dotted 0x7F000001, pe_port = 9000, pe_success = True\<rparr>
    \<and> dotted 0x7F000001 = ''127.0.0.1''"
proof
  show "getPublicEndpoint (Some sample_answer) = Inr \<lparr>pe_ip = dotted 0x7F000001, pe_port = 9000, pe_success = True\<rparr>"
    by (rule stun_reports_mapped_address [of "replicate 20 0" "[(0x8022, [1, 2, 3, 4])]" _ _ _ "[]"])
      (simp_all add: sample_answer_def attribute_def xor_mapped_def)
  show "dotted 0x7F000001 = ''127.0.0.1''"
    by code_simp
qed

text \<open>Reading stays inside the 1024-byte buffer for every answer of at most 1013 bytes, well-formed or
  not, and the search ends with a result; beyond that size an address attribute at the end of the
  answer is read past the buffer.\<close>

theorem stun_reads_in_bounds:
  assumes "length answer \<le> 1013"
  shows "\<exists>e. getPublicEndpoint (Some answer) = Inr e"
proof -
  have "\<exists>e. parse_attributes (resp_buffer answer) (length answer) 20 = Inr e"
    using assms by (intro parse_in_bounds) simp
  with assms show ?thesis by (simp add: getPublicEndpoint_def Let_def)
qed

definition long_answer :: "byte list" where
  "long_answer = replicate 20 0 @ attribute 2 (replicate 992 0) @ be16 1 @ be16 8"

lemma stun_reads_in_bounds_witness:
  "(\<exists>e. getPublicEndpoint (Some sample_answer) = Inr e) \<and> getPublicEndpoint (Some long_answer) = Inl OutOfBounds"
proof
  show "\<exists>e. getPublicEndpoint (Some sample_answer) = Inr e"
    by (rule stun_reads_in_bounds) (simp add: sample_answer_def attribute_def xor_mapped_def)
  let ?pre = "replicate 20 0 @ attribute 2 (replicate 992 0) :: byte list"
  have l: "length ?pre = 1016" by (simp add: attribute_def)
  have buf: "resp_buffer long_answer = replicate 20 0 @ attribute 2 (replicate 992 0) @ be16 1 @ be16 8 @ replicate 4 0"
    by (simp add: resp_buffer_def long_answer_def attribute_def)
  have "parse_attributes (resp_buffer long_answer) 1020 20 = parse_attributes (resp_buffer long_answer) 1020 1016"
    unfolding buf using parse_skip [of "replicate 20 0" 1020 "replicate 992 0" 2] l by simp
  moreover have "read_be16 (resp_buffer long_answer) 1016 = Inr 1"
    unfolding buf using read_be16_at [of ?pre 1] l by simp
  moreover have "read_be16 (resp_buffer long_answer) 1018 = Inr 8"
    unfolding buf using read_be16_at [of "?pre @ be16 1" 8] l by simp
  moreover have "read_address (resp_buffer long_answer) 1016 1 = Inl OutOfBounds"
    by (simp add: read_address_def read_be16_def read_be32_def resp_at_def)
  ultimately have "parse_attributes (resp_buffer long_answer) 1020 20 = Inl OutOfBounds"
    by (simp add: parse_attributes.simps [of _ 1020 1016])
  then show "getPublicEndpoint (Some long_answer) = Inl OutOfBounds"
    by (simp add: getPublicEndpoint_def long_answer_def attribute_def)
qed

text \<open>The padding of attributes is not skipped: after an attribute of 5 bytes, padded to 8 as the
  protocol requires, the address that follows is missed.\<close>

theorem stun_ignores_padding:
  "getPublicEndpoint (Some (replicate 20 0 @ attribute 0x8022 [1, 2, 3, 4, 5] @ [0, 0, 0] @ xor_mapped 0x7F000001 9000))
     = Inr no_endpoint"
  by code_simp

end
