(* ===== verification/Session.thy ===== *)
theory Session
  imports Chunker Manifest Compressor Crypto Protocol File_Mapper Metrics
begin

text \<open>
  \<^verbatim>\<open>src/net/session.cpp\<close>: one file transfer, as sender or as receiver.  The object's members are the record
  \<open>session\<close>; messages handed to \<open>transport_.sendChunk\<close> are returned as pairs of the payload and the
  stream.  An operation that can throw after it has changed the object returns the object and the
  failure; \<open>handleRecv\<close> returns the tasks it submits to the thread pool, each of which catches C++
  exceptions, so that only undefined behaviour ends a task with a failure.  The mapped file is the list
  of its bytes.
\<close>

subsection \<open>Environment and state\<close>

text \<open>The libraries, and what a failing decompression leaves in its output span.\<close>

record 'ctx session_env =
  sv_libs :: compression_libs
  sv_evp :: "'ctx evp"
  sv_sha :: "byte list \<Rightarrow> byte list"
  sv_spoil :: "byte list \<Rightarrow> byte list"

record session =
  se_aes_key :: "byte list"
  se_file_mapper :: FileMapper
  se_output_dir :: string
  se_current_filename :: string
  se_write_view :: "byte list"
  se_handshake_rejected :: bool
  se_expected_pin :: u32
  se_chunks_recv :: u32
  se_expectedChunks :: u32
  se_trans_complete :: bool
  se_chunks_sent :: u32
  se_handshake_acked :: bool
  se_resume_bitfield :: "bool list"
  se_current_manifest :: transferManifest
  se_metrics :: "transferMetrics option"
  se_on_progress :: bool
  se_progress_calls :: "(int \<times> real \<times> u32) list"

definition new_session :: session where
  "new_session = \<lparr>se_aes_key = [], se_file_mapper = new_mapper, se_output_dir = [], se_current_filename = [],
     se_write_view = [], se_handshake_rejected = False, se_expected_pin = 0, se_chunks_recv = 0,
     se_expectedChunks = 0, se_trans_complete = False, se_chunks_sent = 0, se_handshake_acked = False,
     se_resume_bitfield = [], se_current_manifest = empty_manifest, se_metrics = None,
     se_on_progress = False, se_progress_calls = []\<rparr>"

type_synonym outgoing = "(byte list \<times> u32) list"
type_synonym outcome = "outgoing \<times> session \<times> failure option"

text \<open>\<open>metrics_\<close> and \<open>on_progress_\<close> together: one call of the progress callback.\<close>

definition report_progress :: "real \<Rightarrow> session \<Rightarrow> session result" where
  "report_progress now s =
     (case se_metrics s of
        Some m \<Rightarrow>
          if se_on_progress s
          then bind_result (get_speed_mbps now m) (\<lambda>(speed, m1).
               bind_result (get_ets_secs now m1) (\<lambda>(eta, m2).
                 Inr (s\<lparr>se_metrics := Some m2,
                   se_progress_calls := se_progress_calls s @ [(get_progress_per m, speed, eta)]\<rparr>)))
          else Inr s
      | None \<Rightarrow> Inr s)"

definition count_bytes :: "u32 \<Rightarrow> session \<Rightarrow> session" where
  "count_bytes n s = s\<lparr>se_metrics := map_option (add_bytes (ucast n)) (se_metrics s)\<rparr>"

subsection \<open>The sender\<close>

definition make_handshake :: "string \<Rightarrow> u64 \<Rightarrow> u32 \<Rightarrow> handshake" where
  "make_handshake file_path file_size pin =
     (let chunk_size = ucast kDefaultChunkSize :: u32
      in \<lparr>hs_type = msg_code MT_handshake, hs_pin = pin, hs_file_size = file_size, hs_chunk_size = chunk_size,
          hs_total_chunks = ucast ((file_size + ucast chunk_size - 1) div ucast chunk_size),
          hs_file_name = cstr_put 256 (bytes_of_string (path_filename file_path))\<rparr>)"

text \<open>\<open>sendFile\<close> up to the handshake: \<open>on_progress\<close> tells whether a callback was given, \<open>os\<close> what mapping
  the file returns.\<close>

definition sendFile_begin :: "'ctx session_env \<Rightarrow> os_results \<Rightarrow> real \<Rightarrow> string \<Rightarrow> byte list \<Rightarrow> u32 \<Rightarrow> bool \<Rightarrow> session
    \<Rightarrow> outcome" where
  "sendFile_begin env os now file_path file pin on_progress s =
     (let file_size = word_of_nat (length file);
          (log, mapper, view) = map_read os file_size (se_file_mapper s);
          s1 = s\<lparr>se_on_progress := on_progress, se_metrics := Some (new_metrics file_size now), se_file_mapper := mapper\<rparr>
      in case view of
           Inl e \<Rightarrow> ([], s1, Some e)
         | Inr _ \<Rightarrow>
             ([(handshake_bytes (make_handshake file_path file_size pin), 0)],
              s1\<lparr>se_aes_key := derive_key (sv_sha env) pin\<rparr>, None))"

text \<open>The loop over the chunks: the ones the receiver already has are counted, the others submitted.\<close>

fun submit_chunks :: "bool list \<Rightarrow> Chunk list \<Rightarrow> session \<Rightarrow> Chunk list \<times> session" where
  "submit_chunks resume [] s = ([], s)"
| "submit_chunks resume (chunk # chunks) s =
     (if unat (ck_id chunk) < length resume \<and> resume ! unat (ck_id chunk)
      then submit_chunks resume chunks (s\<lparr>se_chunks_sent := se_chunks_sent s + 1\<rparr>)
      else let (tasks, s') = submit_chunks resume chunks s in (chunk # tasks, s'))"

text \<open>\<open>sendFile\<close> once \<open>handshake_acked_\<close> is set.  The result is the strategy, the submitted tasks and the
  number the final loop waits for; \<open>None\<close> is the return after a rejection.\<close>

definition sendFile_chunks :: "string \<Rightarrow> byte list \<Rightarrow> session
    \<Rightarrow> ((Strategy \<times> Chunk list \<times> u32) option \<times> session) result" where
  "sendFile_chunks file_path file s =
     (if se_handshake_rejected s then Inr (None, s)
      else bind_result (slice file (ucast (ucast kDefaultChunkSize :: u32))) (\<lambda>chunks.
        let strategy = detect file_path (take (min 4096 (length file)) file);
            (tasks, s') = submit_chunks (se_resume_bitfield s) chunks s
        in Inr (Some (strategy, tasks, word_of_nat (length chunks)), s')))"

definition resize :: "nat \<Rightarrow> byte list \<Rightarrow> byte list" where
  "resize n bs = take n bs @ replicate (n - length bs) 0"

text \<open>The message of one chunk.\<close>

definition chunk_message :: "'ctx session_env \<Rightarrow> byte list \<Rightarrow> Strategy \<Rightarrow> Chunk \<Rightarrow> byte list result" where
  "chunk_message env key strategy chunk =
     (let max_bound = get_compress_bound (sv_libs env) (unat (ck_payloadSize chunk)) strategy
      in bind_result (compress (sv_libs env) (take (unat (ck_payloadSize chunk)) (ck_data chunk)) (replicate max_bound 0) strategy)
        (\<lambda>(n, out_payload).
         let compressed_bytes = word_of_nat n :: u32
         in if length out_payload < unat compressed_bytes then Inl OutOfBounds
            else bind_result (encrypt (sv_evp env) (take (unat compressed_bytes) out_payload) key (ck_id chunk))
              (\<lambda>encrypted_payload.
               let header = \<lparr>wh_type = msg_code MT_chunkData, wh_chunk_id = ck_id chunk,
                     wh_compressed_size = word_of_nat (length encrypted_payload),
                     wh_original_size = ck_payloadSize chunk, wh_crc32 = ck_crc32 chunk,
                     wh_compress_stra = strategy_code strategy\<rparr>
               in Inr (resize (sizeof_chunkWireHeader + unat (wh_compressed_size header))
                        (chunkWireHeader_bytes header @ encrypted_payload)))))"

text \<open>The task submitted for one chunk; a C++ exception is logged and nothing is sent or counted.\<close>

definition send_task :: "'ctx session_env \<Rightarrow> Strategy \<Rightarrow> Chunk \<Rightarrow> session \<Rightarrow> (outgoing \<times> session) result" where
  "send_task env strategy chunk s =
     (case chunk_message env (se_aes_key s) strategy chunk of
        Inl (Throw what) \<Rightarrow> Inr ([], s)
      | Inl e \<Rightarrow> Inl e
      | Inr wireBuffer \<Rightarrow>
          Inr ([(wireBuffer, ck_id chunk mod 4)],
               count_bytes (ck_payloadSize chunk) (s\<lparr>se_chunks_sent := se_chunks_sent s + 1\<rparr>)))"

fun run_send_tasks :: "'ctx session_env \<Rightarrow> Strategy \<Rightarrow> Chunk list \<Rightarrow> session \<Rightarrow> (outgoing \<times> session) result" where
  "run_send_tasks env strategy [] s = Inr ([], s)"
| "run_send_tasks env strategy (chunk # chunks) s =
     bind_result (send_task env strategy chunk s) (\<lambda>(out, s1).
     bind_result (run_send_tasks env strategy chunks s1) (\<lambda>(out', s2). Inr (out @ out', s2)))"

text \<open>The condition of the final loop of \<open>sendFile\<close>.\<close>

definition still_sending :: "u32 \<Rightarrow> session \<Rightarrow> bool" where
  "still_sending total_chunks s \<longleftrightarrow> se_chunks_sent s < total_chunks"

definition sendFile_end :: "session \<Rightarrow> session" where
  "sendFile_end s =
     (if se_metrics s \<noteq> None \<and> se_on_progress s
      then s\<lparr>se_progress_calls := se_progress_calls s @ [(100, 0, 0)]\<rparr> else s)"

definition processHandshakeACk :: "byte list \<Rightarrow> session \<Rightarrow> session result" where
  "processHandshakeACk data s =
     (if se_handshake_acked s then Inr s
      else if length data < sizeof_handshakeAck then Inr s
      else let ack = read_handshakeAck data; packed_bitfield = drop sizeof_handshakeAck data
           in bind_result (unpack_bits packed_bitfield (ack_total_chunks ack)) (\<lambda>bits.
                Inr (s\<lparr>se_resume_bitfield := bits, se_handshake_acked := True\<rparr>)))"

subsection \<open>The receiver\<close>

definition recvFile_begin :: "string \<Rightarrow> u32 \<Rightarrow> session \<Rightarrow> session" where
  "recvFile_begin output_dir expected_pin s = s\<lparr>se_output_dir := output_dir, se_expected_pin := expected_pin\<rparr>"

text \<open>The loop that finds a free name, on names that \<open>processHandshake\<close> can convert (\<open>ho_converts\<close> below).  \<open>counter\<close> is an \<open>int\<close>; incrementing it past its maximum is
  undefined.\<close>

definition numbered_path :: "string \<Rightarrow> string \<Rightarrow> string \<Rightarrow> nat \<Rightarrow> string" where
  "numbered_path output_dir stem ext counter =
     path_append output_dir (stem @ '' ('' @ to_string counter @ '')'' @ ext)"

function free_path :: "(string \<Rightarrow> bool) \<Rightarrow> string \<Rightarrow> string \<Rightarrow> string \<Rightarrow> string \<Rightarrow> nat \<Rightarrow> string result" where
  "free_path fs_exists output_dir stem ext target_path counter =
     (if fs_exists target_path
      then if 2 ^ 31 - 1 \<le> counter then Inl BrokenPrecondition
           else free_path fs_exists output_dir stem ext (numbered_path output_dir stem ext counter) (counter + 1)
      else Inr target_path)"
  by pat_completeness auto
termination
  by (relation "measure (\<lambda>(fs_exists, output_dir, stem, ext, target_path, counter). 2 ^ 31 - counter)") auto

declare free_path.simps [simp del]

definition choose_target :: "(string \<Rightarrow> bool) \<Rightarrow> string \<Rightarrow> string \<Rightarrow> string result" where
  "choose_target fs_exists output_dir file_name =
     (let target_path = path_append output_dir file_name
      in free_path fs_exists output_dir (path_stem target_path) (path_extension target_path) target_path 1)"

text \<open>The acknowledgement with the bit field of the manifest.\<close>

definition ack_message :: "u32 \<Rightarrow> transferManifest \<Rightarrow> byte list result" where
  "ack_message total_chunks manifest =
     bind_result (pack_bitfield manifest) (\<lambda>packed_bits.
       Inr (handshakeAck_bytes \<lparr>ack_type = msg_code MT_handshakeAck, ack_total_chunks = total_chunks\<rparr> @ packed_bits))"

definition send_ack :: "u32 \<Rightarrow> session \<Rightarrow> outcome" where
  "send_ack total_chunks s =
     (case ack_message total_chunks (se_current_manifest s) of
        Inl e \<Rightarrow> ([], s, Some e)
      | Inr ack_buffer \<Rightarrow> ([(ack_buffer, 0)], s, None))"

text \<open>What the operating system returns to \<open>processHandshake\<close>: which paths exist, the handle for creating a path and
  what mapping it returns, the clock, and which names Windows can convert.  The strings of the model are the
  UTF-8 forms of names and paths.  The code makes a path of the name as UTF-8, which Windows keeps as UTF-16, and turns
  the stem, the extension and the file name into strings of the ANSI code page, which it joins to the directory
  again; each conversion gives the same name or throws.  \<open>ho_converts\<close> tells whether all of them succeed, as they do for
  every name in ASCII.\<close>

record handshake_os =
  ho_exists :: "string \<Rightarrow> bool"
  ho_prealloc :: "string \<Rightarrow> nat option"
  ho_map :: "string \<Rightarrow> os_results"
  ho_now :: real
  ho_converts :: "string \<Rightarrow> bool"

definition start_manifest :: "handshake \<Rightarrow> string \<Rightarrow> session \<Rightarrow> session" where
  "start_manifest hs filename s =
     s\<lparr>se_current_filename := filename,
       se_current_manifest := \<lparr>mf_fileHash = bytes_of_string filename, mf_fileSize = hs_file_size hs,
         mf_chunk_size = hs_chunk_size hs, mf_total_chunks = hs_total_chunks hs,
         mf_completedChunks = replicate (unat (hs_total_chunks hs)) False\<rparr>,
       se_chunks_recv := 0\<rparr>"

text \<open>Creating and mapping the target.  The new sparse file reads as zeros.\<close>

definition open_target :: "handshake_os \<Rightarrow> string \<Rightarrow> u64 \<Rightarrow> session \<Rightarrow> session \<times> failure option" where
  "open_target os target_path file_size s =
     (case snd (preallocate_file (ho_prealloc os target_path) file_size) of
        Inl e \<Rightarrow> (s, Some e)
      | Inr new_size \<Rightarrow>
          let (log, mapper, view) = map_write (ho_map os target_path) file_size (se_file_mapper s);
              s1 = s\<lparr>se_file_mapper := mapper\<rparr>
          in case view of
               Inl e \<Rightarrow> (s1, Some e)
             | Inr (v, len) \<Rightarrow> (s1\<lparr>se_write_view := replicate (unat len) 0\<rparr>, None))"

definition accept_handshake :: "'ctx session_env \<Rightarrow> handshake_os \<Rightarrow> handshake \<Rightarrow> session \<Rightarrow> outcome" where
  "accept_handshake env os hs s =
     (let s1 = s\<lparr>se_aes_key := derive_key (sv_sha env) (se_expected_pin s)\<rparr>
      in case cstr_get (hs_file_name hs) of
           Inl e \<Rightarrow> ([], s1, Some e)
         | Inr name \<Rightarrow>
             let s2 = s1\<lparr>se_current_filename := string_of_bytes name,
                         se_metrics := Some (new_metrics (hs_file_size hs) (ho_now os))\<rparr>
             in if \<not> ho_converts os (string_of_bytes name)
                then ([], s2, Some (Throw ''No mapping for the Unicode character exists in the target multi-byte code page.''))
                else case choose_target (ho_exists os) (se_output_dir s2) (string_of_bytes name) of
                  Inl e \<Rightarrow> ([], s2, Some e)
                | Inr target_path \<Rightarrow>
                    let s3 = start_manifest hs (path_filename target_path) s2
                    in case open_target os target_path (hs_file_size hs) s3 of
                         (s4, Some e) \<Rightarrow> ([], s4, Some e)
                       | (s4, None) \<Rightarrow> send_ack (hs_total_chunks hs) s4)"

definition processHandshake :: "'ctx session_env \<Rightarrow> handshake_os \<Rightarrow> handshake \<Rightarrow> session \<Rightarrow> outcome" where
  "processHandshake env os hs s =
     (if se_expectedChunks s > 0 then send_ack (hs_total_chunks hs) s
      else if hs_pin hs \<noteq> se_expected_pin s then ([([msg_code MT_handshakeReject], 0)], s, None)
      else accept_handshake env os hs (s\<lparr>se_expectedChunks := hs_total_chunks hs\<rparr>))"

subsubsection \<open>Chunks\<close>

definition overwrite_at :: "nat \<Rightarrow> byte list \<Rightarrow> byte list \<Rightarrow> byte list" where
  "overwrite_at offset bs view = take offset view @ bs @ drop (offset + length bs) view"

text \<open>\<open>processChunk\<close> up to the CRC check.  The flag says whether it goes on.\<close>

definition chunk_write :: "'ctx session_env \<Rightarrow> chunkWireHeader \<Rightarrow> byte list \<Rightarrow> session
    \<Rightarrow> bool \<times> session \<times> failure option" where
  "chunk_write env header payload s =
     (if se_write_view s = [] then (False, s, None)
      else let offset = ucast (wh_chunk_id header) * kDefaultChunkSize
           in if offset + ucast (wh_original_size header) > (word_of_nat (length (se_write_view s)) :: u64)
              then (False, s, None)
              else let target_span = take (unat (wh_original_size header)) (drop (unat offset) (se_write_view s))
                   in case decrypt (sv_evp env) payload (se_aes_key s) (wh_chunk_id header) of
                        Inl (Throw what) \<Rightarrow> (False, s, None)
                      | Inl e \<Rightarrow> (False, s, Some e)
                      | Inr decrypted_payload \<Rightarrow>
                          (case decompress (sv_libs env) decrypted_payload target_span
                                 (strategy_of_code (wh_compress_stra header)) of
                             Inl e \<Rightarrow> (False, s\<lparr>se_write_view :=
                                 overwrite_at (unat offset) (sv_spoil env target_span) (se_write_view s)\<rparr>, Some e)
                           | Inr (n, written) \<Rightarrow>
                               (crc32 written = wh_crc32 header,
                                s\<lparr>se_write_view := overwrite_at (unat offset) written (se_write_view s)\<rparr>, None)))"

definition chunk_mark :: "chunkWireHeader \<Rightarrow> session \<Rightarrow> session result" where
  "chunk_mark header s =
     (let completed = mf_completedChunks (se_current_manifest s); i = unat (wh_chunk_id header)
      in if length completed \<le> i then Inl OutOfBounds
         else Inr (s\<lparr>se_current_manifest := (se_current_manifest s)\<lparr>mf_completedChunks := completed[i := True]\<rparr>\<rparr>))"

definition chunk_count :: "session \<Rightarrow> u32 \<times> session" where
  "chunk_count s = (se_chunks_recv s + 1, s\<lparr>se_chunks_recv := se_chunks_recv s + 1\<rparr>)"

definition chunk_finish :: "u32 \<Rightarrow> session \<Rightarrow> session" where
  "chunk_finish received_count s =
     (if received_count = se_expectedChunks s then s\<lparr>se_trans_complete := True\<rparr> else s)"

definition processChunk :: "'ctx session_env \<Rightarrow> real \<Rightarrow> chunkWireHeader \<Rightarrow> byte list \<Rightarrow> session
    \<Rightarrow> session \<times> failure option" where
  "processChunk env now header payload s =
     (case chunk_write env header payload s of
        (_, s1, Some e) \<Rightarrow> (s1, Some e)
      | (False, s1, None) \<Rightarrow> (s1, None)
      | (True, s1, None) \<Rightarrow>
          (case chunk_mark header s1 of
             Inl e \<Rightarrow> (s1, Some e)
           | Inr s2 \<Rightarrow>
               let (received_count, s3) = chunk_count (count_bytes (wh_original_size header) s2)
               in case report_progress now s3 of
                    Inl e \<Rightarrow> (s3, Some e)
                  | Inr s4 \<Rightarrow> (chunk_finish received_count s4, None)))"

subsubsection \<open>Dispatch\<close>

datatype session_task = Process_Handshake handshake | Process_Chunk chunkWireHeader "byte list"

definition recv_chunk_data :: "byte list \<Rightarrow> session_task list" where
  "recv_chunk_data data =
     (if sizeof_chunkWireHeader \<le> length data
      then let header = read_chunkWireHeader data
           in if length data < sizeof_chunkWireHeader + unat (wh_compressed_size header) then []
              else [Process_Chunk header (take (unat (wh_compressed_size header)) (drop sizeof_chunkWireHeader data))]
      else [])"

definition handleRecv :: "byte list \<Rightarrow> session \<Rightarrow> (session_task list \<times> session) result" where
  "handleRecv data s =
     (if data = [] then Inr ([], s)
      else if hd data = msg_code MT_handshake
        then Inr (if sizeof_handshake \<le> length data then [Process_Handshake (read_handshake data)] else [], s)
      else if hd data = msg_code MT_handshakeAck
        then bind_result (processHandshakeACk data s) (\<lambda>s'. Inr ([], s'))
      else if hd data = msg_code MT_handshakeReject
        then Inr ([], s\<lparr>se_handshake_rejected := True, se_handshake_acked := True\<rparr>)
      else if hd data = msg_code MT_chunkData then Inr (recv_chunk_data data, s)
      else Inr ([], s))"

text \<open>A task of the pool: C++ exceptions are caught and logged.\<close>

definition catch_task :: "outcome \<Rightarrow> (outgoing \<times> session) result" where
  "catch_task r = (case r of (out, s, f) \<Rightarrow>
     (case f of None \<Rightarrow> Inr (out, s) | Some (Throw what) \<Rightarrow> Inr (out, s) | Some e \<Rightarrow> Inl e))"

fun run_task :: "'ctx session_env \<Rightarrow> handshake_os \<Rightarrow> session_task \<Rightarrow> session \<Rightarrow> (outgoing \<times> session) result" where
  "run_task env os (Process_Handshake hs) s = catch_task (processHandshake env os hs s)"
| "run_task env os (Process_Chunk header payload) s =
     catch_task ([], processChunk env (ho_now os) header payload s)"

fun run_tasks :: "'ctx session_env \<Rightarrow> handshake_os \<Rightarrow> session_task list \<Rightarrow> session \<Rightarrow> (outgoing \<times> session) result" where
  "run_tasks env os [] s = Inr ([], s)"
| "run_tasks env os (t # ts) s =
     bind_result (run_task env os t s) (\<lambda>(out, s1).
     bind_result (run_tasks env os ts s1) (\<lambda>(out', s2). Inr (out @ out', s2)))"

text \<open>A message arriving when the pool is idle.\<close>

definition receive :: "'ctx session_env \<Rightarrow> handshake_os \<Rightarrow> byte list \<Rightarrow> session \<Rightarrow> (outgoing \<times> session) result" where
  "receive env os data s = bind_result (handleRecv data s) (\<lambda>(ts, s'). run_tasks env os ts s')"

subsection \<open>A concrete configuration\<close>

text \<open>Libraries that meet the laws, and two files of one and two chunks, for the examples.\<close>

definition sample_os :: handshake_os where
  "sample_os = \<lparr>ho_exists = (\<lambda>_. False), ho_prealloc = (\<lambda>p. Some (length p)),
     ho_map = (\<lambda>p. \<lparr>os_file = Some (length p), os_mapping = Some 3, os_view = Some 4\<rparr>), ho_now = 0,
     ho_converts = (\<lambda>name. \<forall>c\<in>set name. of_char c < (128 :: nat))\<rparr>"

definition sample_env :: "(byte list \<times> byte list \<times> byte list) session_env" where
  "sample_env = \<lparr>sv_libs = stored_libs, sv_evp = mask_evp, sv_sha = (\<lambda>m. replicate 32 (word_of_nat (length m))), sv_spoil = (\<lambda>t. t)\<rparr>"

definition small_file :: "byte list" where "small_file = [10, 20, 30]"

lemma small_file_chunks:
  "sliceable small_file kDefaultChunkSize" "num_chunks (length small_file) (unat kDefaultChunkSize) = 1"
  by (simp_all add: sliceable_def small_file_def num_chunks_def kDefaultChunkSize_def)

definition large_file :: "byte list" where "large_file = replicate 2097153 7"

lemma large_file_chunks:
  "sliceable large_file kDefaultChunkSize" "num_chunks (length large_file) (unat kDefaultChunkSize) = 2"
  by (simp_all add: sliceable_def large_file_def num_chunks_def kDefaultChunkSize_def)

definition sample_receiver :: "byte list \<Rightarrow> nat \<Rightarrow> session" where
  "sample_receiver file n = new_session\<lparr>se_write_view := replicate (length file) 0, se_aes_key := replicate 32 0,
     se_expectedChunks := word_of_nat n,
     se_current_manifest := empty_manifest\<lparr>mf_completedChunks := replicate n False\<rparr>\<rparr>"

lemma sample_receiver_fields [simp]:
  "se_write_view (sample_receiver file n) = replicate (length file) 0" "se_aes_key (sample_receiver file n) = replicate 32 0"
  "se_expectedChunks (sample_receiver file n) = word_of_nat n" "se_chunks_recv (sample_receiver file n) = 0"
  "mf_completedChunks (se_current_manifest (sample_receiver file n)) = replicate n False"
  "\<not> se_on_progress (sample_receiver file n)" "\<not> se_trans_complete (sample_receiver file n)"
  by (simp_all add: sample_receiver_def new_session_def)

end
