(* ===== verification/Session_Transfer.thy ===== *)
theory Session_Transfer
  imports Session
begin

text \<open>
  The chunks of a transfer from the sender's task to the receiver's file.  \<open>chunk_message\<close> undone by
  \<open>handleRecv\<close> and \<open>chunk_write\<close> gives the bytes of the chunk at their offset; the tasks of the
  receiver's thread pool are interleaved at the atomic accesses of \<open>processChunk\<close>.
\<close>

subsection \<open>The tasks of the receiver's pool as interleaved programs\<close>

text \<open>One program point per access to shared state: the write to the mapped file with the CRC check, the
  flag under \<open>manifest_mutex_\<close>, the metrics, the \<open>fetch_add\<close>, the progress callback, and the comparison
  with \<open>expectedChunks_\<close>.\<close>

datatype chunk_pc =
    PC_Write chunkWireHeader "byte list"
  | PC_Mark chunkWireHeader
  | PC_Bytes chunkWireHeader
  | PC_Count
  | PC_Report u32
  | PC_Finish u32
  | PC_Done

fun pc_step :: "'ctx session_env \<Rightarrow> real \<Rightarrow> chunk_pc \<Rightarrow> session \<Rightarrow> chunk_pc \<times> session \<times> failure option" where
  "pc_step env now (PC_Write header payload) s =
     (case chunk_write env header payload s of
        (_, s1, Some e) \<Rightarrow> (PC_Done, s1, Some e)
      | (False, s1, None) \<Rightarrow> (PC_Done, s1, None)
      | (True, s1, None) \<Rightarrow> (PC_Mark header, s1, None))"
| "pc_step env now (PC_Mark header) s =
     (case chunk_mark header s of
        Inl e \<Rightarrow> (PC_Done, s, Some e)
      | Inr s1 \<Rightarrow> (PC_Bytes header, s1, None))"
| "pc_step env now (PC_Bytes header) s = (PC_Count, count_bytes (wh_original_size header) s, None)"
| "pc_step env now PC_Count s = (PC_Report (fst (chunk_count s)), snd (chunk_count s), None)"
| "pc_step env now (PC_Report received_count) s =
     (case report_progress now s of
        Inl e \<Rightarrow> (PC_Done, s, Some e)
      | Inr s1 \<Rightarrow> (PC_Finish received_count, s1, None))"
| "pc_step env now (PC_Finish received_count) s = (PC_Done, chunk_finish received_count s, None)"
| "pc_step env now PC_Done s = (PC_Done, s, None)"

fun run_pc :: "'ctx session_env \<Rightarrow> real \<Rightarrow> nat \<Rightarrow> chunk_pc \<Rightarrow> session \<Rightarrow> session \<times> failure option" where
  "run_pc env now 0 pc s = (s, None)"
| "run_pc env now (Suc n) pc s =
     (case pc_step env now pc s of
        (_, s1, Some e) \<Rightarrow> (s1, Some e)
      | (pc1, s1, None) \<Rightarrow> run_pc env now n pc1 s1)"

lemma run_pc_done: "run_pc env now n PC_Done s = (s, None)"
  by (induction n) simp_all

text \<open>Run alone, the six steps of a task are \<open>processChunk\<close>, failures included.\<close>

theorem processChunk_steps:
  "run_pc env now 6 (PC_Write header payload) s = processChunk env now header payload s"
proof -
  have six: "(6 :: nat) = Suc (Suc (Suc (Suc (Suc (Suc 0)))))" by simp
  obtain go s1 f where w: "chunk_write env header payload s = (go, s1, f)" by (rule prod_cases3)
  show ?thesis
  proof (cases "f = None \<and> go")
    case True
    then have w: "chunk_write env header payload s = (True, s1, None)" using w by simp
    show ?thesis
    proof (cases "chunk_mark header s1")
      case (Inr s2)
      then show ?thesis
        unfolding six by (cases "report_progress now (snd (chunk_count (count_bytes (wh_original_size header) s2)))")
          (simp_all add: processChunk_def w chunk_count_def)
    qed (unfold six, simp add: processChunk_def w)
  next
    case False
    then show ?thesis unfolding six by (cases f; cases go) (simp_all add: processChunk_def w)
  qed
qed

text \<open>The pool: the submitted tasks with their program points, and the session they share.  \<open>rp_file\<close> and
  \<open>rp_tasks\<close> record the file being sent and the tasks as submitted.\<close>

record 'ctx recv_pool =
  rp_env :: "'ctx session_env"
  rp_file :: "byte list"
  rp_tasks :: "(chunkWireHeader \<times> byte list) list"
  rp_pcs :: "chunk_pc list"
  rp_session :: session

inductive chunk_step :: "'ctx recv_pool \<Rightarrow> 'ctx recv_pool \<Rightarrow> bool" where
  step: "j < length (rp_pcs p) \<Longrightarrow> rp_pcs p ! j \<noteq> PC_Done
     \<Longrightarrow> pc_step (rp_env p) now (rp_pcs p ! j) (rp_session p) = (pc, s, None)
     \<Longrightarrow> chunk_step p (p\<lparr>rp_pcs := (rp_pcs p)[j := pc], rp_session := s\<rparr>)"

subsection \<open>One chunk\<close>

text \<open>A task that carries chunk \<open>i\<close> of a file: the header describes it and the payload opens and unpacks
  to its bytes.\<close>

definition chunk_size :: nat where "chunk_size = unat kDefaultChunkSize"

definition carries_chunk :: "'ctx session_env \<Rightarrow> byte list \<Rightarrow> byte list \<Rightarrow> nat \<Rightarrow> chunkWireHeader \<Rightarrow> byte list \<Rightarrow> bool" where
  "carries_chunk env key file i header payload \<longleftrightarrow>
     wh_chunk_id header = word_of_nat i \<and> wh_original_size header = word_of_nat (length (chunk_bytes file chunk_size i))
   \<and> wh_crc32 header = crc32 (chunk_bytes file chunk_size i)
   \<and> (\<exists>packed. decrypt (sv_evp env) payload key (wh_chunk_id header) = Inr packed
       \<and> (\<forall>target. length target = length (chunk_bytes file chunk_size i)
            \<longrightarrow> decompress (sv_libs env) packed target (strategy_of_code (wh_compress_stra header))
                = Inr (length target, chunk_bytes file chunk_size i)))"

lemma chunk_size_value: "chunk_size = 2097152"
  by (simp add: chunk_size_def kDefaultChunkSize_def)

lemma length_overwrite_at: "offset + length bs \<le> length view \<Longrightarrow> length (overwrite_at offset bs view) = length view"
  by (simp add: overwrite_at_def)

lemma chunk_write_carries:
  assumes c: "carries_chunk env (se_aes_key s) file i header payload" and l: "length (se_write_view s) = length file"
    and i: "i < num_chunks (length file) chunk_size" and f: "sliceable file kDefaultChunkSize"
  shows "chunk_write env header payload s =
    (True, s\<lparr>se_write_view := overwrite_at (i * chunk_size) (chunk_bytes file chunk_size i) (se_write_view s)\<rparr>, None)"
proof -
  have n: "i < 2 ^ 32" "length file < 2 ^ 64" and ne: "file \<noteq> []"
    using f i by (auto simp: sliceable_def chunk_size_value kDefaultChunkSize_def)
  have off: "i * chunk_size < length file" using num_chunks_bound [OF _ i] by (simp add: chunk_size_value)
  have lc: "length (chunk_bytes file chunk_size i) \<le> chunk_size" by (simp add: length_chunk_bytes)
  let ?off = "ucast (wh_chunk_id header) * kDefaultChunkSize :: u64"
  have id: "unat (ucast (wh_chunk_id header) :: u64) = i"
    using c n by (simp add: carries_chunk_def unat_ucast_small unat_word_of_nat_small)
  have o: "unat ?off = i * chunk_size"
    using n id by (subst unat_mult_lem [THEN iffD1]) (simp_all add: chunk_size_def kDefaultChunkSize_def)
  have sz32: "unat (wh_original_size header) = length (chunk_bytes file chunk_size i)"
    using c lc by (simp add: carries_chunk_def unat_word_of_nat_small chunk_size_value)
  then have sz: "unat (ucast (wh_original_size header) :: u64) = length (chunk_bytes file chunk_size i)"
    using lc by (simp add: unat_ucast_small chunk_size_value)
  have sum: "unat (?off + ucast (wh_original_size header)) = i * chunk_size + length (chunk_bytes file chunk_size i)"
    using o sz lc n by (subst unat_add_lem [THEN iffD1]) (simp_all add: chunk_size_value)
  have fits: "i * chunk_size + length (chunk_bytes file chunk_size i) \<le> length file"
    using off by (simp add: length_chunk_bytes)
  then have guard: "\<not> ?off + ucast (wh_original_size header) > (word_of_nat (length (se_write_view s)) :: u64)"
    using l n by (simp add: word_less_nat_alt sum unat_word_of_nat_small)
  have ne: "se_write_view s \<noteq> []" using l ne by auto
  define target where "target = take (unat (wh_original_size header)) (drop (i * chunk_size) (se_write_view s))"
  have lt: "length target = length (chunk_bytes file chunk_size i)" using fits l by (simp add: target_def sz32)
  obtain packed where "decrypt (sv_evp env) payload (se_aes_key s) (wh_chunk_id header) = Inr packed"
    "decompress (sv_libs env) packed target (strategy_of_code (wh_compress_stra header))
       = Inr (length target, chunk_bytes file chunk_size i)"
    "wh_crc32 header = crc32 (chunk_bytes file chunk_size i)"
    using c lt unfolding carries_chunk_def by blast
  then show ?thesis using ne guard by (simp add: chunk_write_def Let_def o flip: target_def)
qed

subsection \<open>Regions of the mapped file\<close>

lemma overwrite_at_nth:
  assumes "offset + length bs \<le> length view" and "m < length view"
  shows "overwrite_at offset bs view ! m = (if offset \<le> m \<and> m < offset + length bs then bs ! (m - offset) else view ! m)"
  using assms by (auto simp: overwrite_at_def nth_append min_def)

lemma chunk_bytes_nth_offset:
  "k < length (chunk_bytes view cs j) \<Longrightarrow> chunk_bytes view cs j ! k = view ! (j * cs + k)"
  by (auto simp: chunk_bytes_def)

lemma chunk_fits:
  assumes "i < num_chunks (length file) cs" and "0 < cs"
  shows "i * cs + length (chunk_bytes file cs i) \<le> length file"
  using num_chunks_bound [OF assms(2,1)] by (simp add: length_chunk_bytes)

lemma other_chunk_disjoint:
  assumes "i \<noteq> j" and "k < cs"
  shows "\<not> (i * cs \<le> j * cs + k \<and> j * cs + k < i * cs + (cs :: nat))"
proof
  assume a: "i * cs \<le> j * cs + k \<and> j * cs + k < i * cs + cs"
  have "(j * cs + k) div cs = j" using assms(2) by simp
  moreover have "(j * cs + k) div cs = i"
    using a assms(2) by (intro div_nat_eqI) (simp_all add: algebra_simps)
  ultimately show False using assms(1) by simp
qed

lemma region_overwrite:
  assumes l: "length view = length file" and i: "i < num_chunks (length file) cs" and cs: "0 < cs"
  shows "chunk_bytes (overwrite_at (i * cs) (chunk_bytes file cs i) view) cs j =
    (if j = i then chunk_bytes file cs i else chunk_bytes view cs j)"
proof -
  let ?b = "chunk_bytes file cs i" let ?v = "overwrite_at (i * cs) ?b view"
  have fit: "i * cs + length ?b \<le> length view" using chunk_fits [OF i cs] l by simp
  have lv: "length ?v = length view" using fit by (rule length_overwrite_at)
  have len: "length (chunk_bytes ?v cs j) = length (chunk_bytes view cs j)" by (simp add: length_chunk_bytes lv)
  have lb: "length ?b \<le> cs" by (simp add: length_chunk_bytes)
  show ?thesis
  proof (cases "j = i")
    case True
    have "chunk_bytes ?v cs i ! k = ?b ! k" if "k < length ?b" for k
      using that fit by (subst chunk_bytes_nth_offset) (auto simp: length_chunk_bytes lv l overwrite_at_nth)
    then show ?thesis using len True l by (simp add: list_eq_iff_nth_eq length_chunk_bytes)
  next
    case False
    have "chunk_bytes ?v cs j ! k = chunk_bytes view cs j ! k" if k: "k < length (chunk_bytes view cs j)" for k
    proof -
      have "k < cs" "j * cs + k < length view" using k by (auto simp: length_chunk_bytes)
      moreover have "\<not> (i * cs \<le> j * cs + k \<and> j * cs + k < i * cs + length ?b)"
        using other_chunk_disjoint [of i j k cs] False lb \<open>k < cs\<close> by linarith
      ultimately show ?thesis
        using k len fit by (auto simp: chunk_bytes_nth_offset overwrite_at_nth)
    qed
    then show ?thesis using len False by (simp add: list_eq_iff_nth_eq)
  qed
qed

lemma regions_determine_file:
  assumes "length view = length file" and "0 < cs"
    and "\<forall>i<num_chunks (length file) cs. chunk_bytes view cs i = chunk_bytes file cs i"
  shows "view = file"
proof -
  have "map (chunk_bytes view cs) [0..<num_chunks (length file) cs] = map (chunk_bytes file cs) [0..<num_chunks (length file) cs]"
    using assms(3) by simp
  then show ?thesis
    using chunk_bytes_whole [OF assms(2), of view] chunk_bytes_whole [OF assms(2), of "file"] assms(1) by metis
qed

subsection \<open>The invariant of the receiver's pool\<close>

fun stage :: "chunk_pc \<Rightarrow> nat" where
  "stage (PC_Write h p) = 0"
| "stage (PC_Mark h) = 1"
| "stage (PC_Bytes h) = 2"
| "stage PC_Count = 3"
| "stage (PC_Report r) = 4"
| "stage (PC_Finish r) = 5"
| "stage PC_Done = 6"

fun pc_of :: "chunkWireHeader \<times> byte list \<Rightarrow> chunk_pc \<Rightarrow> bool" where
  "pc_of t (PC_Write h p) \<longleftrightarrow> (h, p) = t"
| "pc_of t (PC_Mark h) \<longleftrightarrow> h = fst t"
| "pc_of t (PC_Bytes h) \<longleftrightarrow> h = fst t"
| "pc_of t _ \<longleftrightarrow> True"

fun pending_count :: "chunk_pc \<Rightarrow> u32 option" where
  "pending_count (PC_Report r) = Some r"
| "pending_count (PC_Finish r) = Some r"
| "pending_count _ = None"

definition task_id :: "chunkWireHeader \<times> byte list \<Rightarrow> nat" where
  "task_id t = unat (wh_chunk_id (fst t))"

text \<open>What is fixed during the transfer: the tasks carry the chunks of the file, each once, in any order.\<close>

definition pool_config :: "'ctx recv_pool \<Rightarrow> bool" where
  "pool_config p \<longleftrightarrow> sliceable (rp_file p) kDefaultChunkSize
   \<and> length (rp_pcs p) = length (rp_tasks p)
   \<and> distinct (map task_id (rp_tasks p))
   \<and> set (map task_id (rp_tasks p)) = {0..<num_chunks (length (rp_file p)) chunk_size}
   \<and> (\<forall>t\<in>set (rp_tasks p). carries_chunk (rp_env p) (se_aes_key (rp_session p)) (rp_file p) (task_id t) (fst t) (snd t))
   \<and> unat (se_expectedChunks (rp_session p)) = length (rp_tasks p)
   \<and> \<not> se_on_progress (rp_session p)
   \<and> length (se_write_view (rp_session p)) = length (rp_file p)
   \<and> length (mf_completedChunks (se_current_manifest (rp_session p))) = length (rp_tasks p)"

definition chunk_start :: "'ctx recv_pool \<Rightarrow> bool" where
  "chunk_start p \<longleftrightarrow> pool_config p \<and> rp_pcs p = map (\<lambda>(h, d). PC_Write h d) (rp_tasks p)
   \<and> se_chunks_recv (rp_session p) = 0 \<and> \<not> se_trans_complete (rp_session p)"

definition counted :: "chunk_pc list \<Rightarrow> nat" where
  "counted pcs = length (filter (\<lambda>pc. 4 \<le> stage pc) pcs)"

definition task_inv :: "'ctx recv_pool \<Rightarrow> nat \<Rightarrow> bool" where
  "task_inv p j \<longleftrightarrow> pc_of (rp_tasks p ! j) (rp_pcs p ! j)
   \<and> (1 \<le> stage (rp_pcs p ! j) \<longrightarrow> chunk_bytes (se_write_view (rp_session p)) chunk_size (task_id (rp_tasks p ! j))
         = chunk_bytes (rp_file p) chunk_size (task_id (rp_tasks p ! j)))
   \<and> (2 \<le> stage (rp_pcs p ! j) \<longrightarrow> mf_completedChunks (se_current_manifest (rp_session p)) ! task_id (rp_tasks p ! j))"

definition count_inv :: "chunk_pc list \<Rightarrow> u32 \<Rightarrow> u32 \<Rightarrow> bool \<Rightarrow> bool" where
  "count_inv pcs expected recvd finished \<longleftrightarrow> unat recvd = counted pcs
   \<and> (\<forall>k<length pcs. \<forall>r. pending_count (pcs ! k) = Some r \<longrightarrow> r \<le> recvd)
   \<and> (finished \<longrightarrow> recvd = expected)
   \<and> (recvd = expected \<longrightarrow> finished \<or> (\<exists>k<length pcs. pending_count (pcs ! k) = Some expected))"

definition chunk_inv :: "'ctx recv_pool \<Rightarrow> bool" where
  "chunk_inv p \<longleftrightarrow> pool_config p \<and> (\<forall>j<length (rp_tasks p). task_inv p j)
   \<and> count_inv (rp_pcs p) (se_expectedChunks (rp_session p)) (se_chunks_recv (rp_session p)) (se_trans_complete (rp_session p))"

lemma counted_update:
  assumes "j < length pcs"
  shows "counted (pcs[j := pc]) + (if 4 \<le> stage (pcs ! j) then 1 else 0) = counted pcs + (if 4 \<le> stage pc then 1 else 0)"
proof -
  have split: "counted (xs @ x # ys) = counted xs + counted ys + (if 4 \<le> stage x then 1 else 0)" for xs x ys
    by (simp add: counted_def)
  have old: "counted pcs = counted (take j pcs @ pcs ! j # drop (Suc j) pcs)"
    using assms by (simp add: id_take_nth_drop [symmetric])
  have new: "counted (pcs[j := pc]) = counted (take j pcs @ pc # drop (Suc j) pcs)"
    using assms by (simp add: upd_conv_take_nth_drop)
  show ?thesis unfolding new old split by simp
qed

lemma counted_le: "counted pcs \<le> length pcs"
  by (simp add: counted_def)

lemma pool_tasks:
  assumes "pool_config p" and "j < length (rp_tasks p)"
  shows "task_id (rp_tasks p ! j) < num_chunks (length (rp_file p)) chunk_size"
    and "num_chunks (length (rp_file p)) chunk_size = length (rp_tasks p)"
    and "carries_chunk (rp_env p) (se_aes_key (rp_session p)) (rp_file p) (task_id (rp_tasks p ! j)) (fst (rp_tasks p ! j)) (snd (rp_tasks p ! j))"
proof -
  have s: "set (map task_id (rp_tasks p)) = {0..<num_chunks (length (rp_file p)) chunk_size}"
    and d: "distinct (map task_id (rp_tasks p))"
    using assms(1) by (auto simp: pool_config_def)
  show "task_id (rp_tasks p ! j) < num_chunks (length (rp_file p)) chunk_size"
    using assms(2) s by (metis atLeastLessThan_iff length_map nth_map nth_mem)
  show "num_chunks (length (rp_file p)) chunk_size = length (rp_tasks p)"
    using distinct_card [OF d] s by simp
  show "carries_chunk (rp_env p) (se_aes_key (rp_session p)) (rp_file p) (task_id (rp_tasks p ! j)) (fst (rp_tasks p ! j)) (snd (rp_tasks p ! j))"
    using assms by (simp add: pool_config_def)
qed

text \<open>The effect of one step of task \<open>j\<close>, by its program point.\<close>

definition completed_of :: "session \<Rightarrow> bool list" where
  "completed_of s = mf_completedChunks (se_current_manifest s)"

definition step_effect :: "nat \<Rightarrow> byte list \<Rightarrow> chunk_pc \<Rightarrow> session \<Rightarrow> chunk_pc \<Rightarrow> session \<Rightarrow> bool" where
  "step_effect i bs pc s pc' s' \<longleftrightarrow>
     stage pc' = Suc (stage pc)
   \<and> se_write_view s' = (if stage pc = 0 then overwrite_at (i * chunk_size) bs (se_write_view s) else se_write_view s)
   \<and> completed_of s' = (if stage pc = 1 then (completed_of s)[i := True] else completed_of s)
   \<and> se_chunks_recv s' = (if stage pc = 3 then se_chunks_recv s + 1 else se_chunks_recv s)
   \<and> pending_count pc' = (if stage pc = 3 then Some (se_chunks_recv s + 1) else if stage pc = 4 then pending_count pc else None)
   \<and> (se_trans_complete s' \<longleftrightarrow> se_trans_complete s \<or> pc = PC_Finish (se_expectedChunks s))
   \<and> se_aes_key s' = se_aes_key s \<and> se_expectedChunks s' = se_expectedChunks s \<and> se_on_progress s' = se_on_progress s"

lemma pc_step_effect:
  assumes inv: "chunk_inv p" and j: "j < length (rp_tasks p)" and pc: "rp_pcs p ! j \<noteq> PC_Done"
  shows "\<exists>pc s. pc_step (rp_env p) now (rp_pcs p ! j) (rp_session p) = (pc, s, None) \<and> pc_of (rp_tasks p ! j) pc
    \<and> step_effect (task_id (rp_tasks p ! j)) (chunk_bytes (rp_file p) chunk_size (task_id (rp_tasks p ! j)))
        (rp_pcs p ! j) (rp_session p) pc s"
proof -
  have cfg: "pool_config p" and ti: "task_inv p j" using inv j by (auto simp: chunk_inv_def)
  note t = pool_tasks [OF cfg j]
  have of: "pc_of (rp_tasks p ! j) (rp_pcs p ! j)" using ti by (simp add: task_inv_def)
  show ?thesis
  proof (cases "rp_pcs p ! j")
    case (PC_Write h d)
    then have "h = fst (rp_tasks p ! j)" "d = snd (rp_tasks p ! j)" using of by (auto simp: prod_eq_iff)
    then show ?thesis
      using PC_Write chunk_write_carries [OF t(3) _ t(1)] cfg
      by (simp add: pool_config_def step_effect_def completed_of_def)
  next
    case (PC_Mark h)
    then have "unat (wh_chunk_id h) = task_id (rp_tasks p ! j)" using of by (simp add: task_id_def)
    then show ?thesis
      using PC_Mark of t(1,2) cfg by (simp add: pool_config_def chunk_mark_def step_effect_def completed_of_def Let_def)
  next
    case (PC_Report r)
    have "report_progress now (rp_session p) = Inr (rp_session p)"
      using cfg by (simp add: pool_config_def report_progress_def split: option.splits)
    then show ?thesis using PC_Report by (simp add: step_effect_def completed_of_def)
  qed (use pc of in \<open>simp_all add: step_effect_def completed_of_def count_bytes_def chunk_count_def chunk_finish_def\<close>)
qed

lemma count_inv_step:
  assumes ci: "count_inv pcs expected recvd finished" and j: "j < length pcs"
    and le: "length pcs = unat expected" and st: "stage pc' = Suc (stage (pcs ! j))"
    and pend: "pending_count pc' = (if stage (pcs ! j) = 3 then Some (recvd + 1)
      else if stage (pcs ! j) = 4 then pending_count (pcs ! j) else None)"
  shows "count_inv (pcs[j := pc']) expected (if stage (pcs ! j) = 3 then recvd + 1 else recvd)
    (finished \<or> pcs ! j = PC_Finish expected)"
proof -
  have n: "unat recvd = counted pcs" and b: "\<And>k r. k < length pcs \<Longrightarrow> pending_count (pcs ! k) = Some r \<Longrightarrow> r \<le> recvd"
    and f: "finished \<Longrightarrow> recvd = expected"
    and e: "recvd = expected \<Longrightarrow> finished \<or> (\<exists>k<length pcs. pending_count (pcs ! k) = Some expected)"
    using ci by (auto simp: count_inv_def)
  note c = counted_update [OF j, of pc'] counted_le [of pcs] counted_le [of "pcs[j := pc']"]
  have goal: "count_inv (pcs[j := pc']) expected recvd' finished'"
    if "unat recvd' = counted (pcs[j := pc'])"
      "\<And>k r. k < length pcs \<Longrightarrow> k \<noteq> j \<Longrightarrow> pending_count (pcs ! k) = Some r \<Longrightarrow> r \<le> recvd'"
      "\<And>r. pending_count pc' = Some r \<Longrightarrow> r \<le> recvd'" "finished' \<Longrightarrow> recvd' = expected"
      "recvd' = expected \<Longrightarrow> finished' \<or> pending_count pc' = Some expected
         \<or> (\<exists>k<length pcs. k \<noteq> j \<and> pending_count (pcs ! k) = Some expected)" for recvd' finished'
    unfolding count_inv_def length_list_update
  proof (intro conjI allI impI)
    show "r \<le> recvd'" if "k < length pcs" "pending_count (pcs[j := pc'] ! k) = Some r" for k r
      using that \<open>\<And>k r. k < length pcs \<Longrightarrow> k \<noteq> j \<Longrightarrow> pending_count (pcs ! k) = Some r \<Longrightarrow> r \<le> recvd'\<close>
        \<open>\<And>r. pending_count pc' = Some r \<Longrightarrow> r \<le> recvd'\<close> j by (cases "k = j") auto
    show "finished' \<or> (\<exists>k<length pcs. pending_count (pcs[j := pc'] ! k) = Some expected)" if "recvd' = expected"
      using \<open>recvd' = expected \<Longrightarrow> _\<close> [OF that] j by (metis nth_list_update)
  qed (use that in auto)
  show ?thesis
  proof (cases "stage (pcs ! j) = 3")
    case True
    then have pc: "pcs ! j = PC_Count" by (cases "pcs ! j") simp_all
    have u: "unat (recvd + 1) = unat recvd + 1"
      using c True st n le unat_less_width [of expected] by (subst unat_add_lem [THEN iffD1]) simp_all
    then have lt: "recvd \<le> recvd + 1" "recvd \<noteq> expected"
      using c True st n le by (auto simp: word_le_nat_alt)
    show ?thesis unfolding if_P [OF True]
    proof (rule goal)
      show "unat (recvd + 1) = counted (pcs[j := pc'])" using u c(1) True st n by simp
      show "r \<le> recvd + 1" if "k < length pcs" "pending_count (pcs ! k) = Some r" for k r
        using b [OF that] lt(1) by (rule order_trans)
    qed (use True pend lt f pc in auto)
  next
    case False
    have cn: "counted (pcs[j := pc']) = counted pcs" using c(1) False st by (simp split: if_splits)
    have fin: "recvd = expected" if "pcs ! j = PC_Finish expected"
      using b [OF j, of expected] that c(2) n le by (simp add: word_le_nat_alt word_unat_eq_iff)
    have "pending_count (pcs ! j) = Some expected \<Longrightarrow> pcs ! j = PC_Finish expected \<or> stage (pcs ! j) = 4"
      by (cases "pcs ! j") simp_all
    then show ?thesis unfolding if_not_P [OF False]
      using n cn b f e fin pend False j by (intro goal) (auto split: if_splits)
  qed
qed

lemma chunk_step_inv:
  assumes inv: "chunk_inv p" and step: "chunk_step p q"
  shows "chunk_inv q"
proof -
  have cfg: "pool_config p" using inv by (simp add: chunk_inv_def)
  obtain j now pc s where j: "j < length (rp_pcs p)" and pc: "rp_pcs p ! j \<noteq> PC_Done"
    and st: "pc_step (rp_env p) now (rp_pcs p ! j) (rp_session p) = (pc, s, None)"
    and q: "q = p\<lparr>rp_pcs := (rp_pcs p)[j := pc], rp_session := s\<rparr>"
    using step by cases
  have lp: "length (rp_pcs p) = length (rp_tasks p)" using cfg by (simp add: pool_config_def)
  with j have j': "j < length (rp_tasks p)" by simp
  let ?i = "task_id (rp_tasks p ! j)"
  let ?b = "chunk_bytes (rp_file p) chunk_size ?i"
  note t = pool_tasks [OF cfg j']
  from pc_step_effect [OF inv j' pc, of now] st
  have of: "pc_of (rp_tasks p ! j) pc" and eff: "step_effect ?i ?b (rp_pcs p ! j) (rp_session p) pc s" by auto
  have lv: "length (se_write_view (rp_session p)) = length (rp_file p)" and lc: "length (completed_of (rp_session p)) = length (rp_tasks p)"
    using cfg by (simp_all add: pool_config_def completed_of_def)
  have cs: "0 < chunk_size" by (simp add: chunk_size_value)
  have cfg': "pool_config q"
    using cfg eff chunk_fits [OF t(1) cs] lv lc
    by (auto simp: pool_config_def q step_effect_def length_overwrite_at completed_of_def)
  have view: "chunk_bytes (se_write_view s) chunk_size k = (if stage (rp_pcs p ! j) = 0 \<and> k = ?i then ?b
      else chunk_bytes (se_write_view (rp_session p)) chunk_size k)" for k
    using eff region_overwrite [OF lv t(1) cs, of k]
    by (cases "stage (rp_pcs p ! j) = 0") (simp_all add: step_effect_def)
  have comp: "completed_of s ! k \<longleftrightarrow> completed_of (rp_session p) ! k \<or> (stage (rp_pcs p ! j) = 1 \<and> k = ?i)" for k
    using eff t(1,2) lc by (cases "k = ?i") (auto simp: step_effect_def)
  have "task_inv q k" if k: "k < length (rp_tasks p)" for k
  proof (cases "k = j")
    case True
    then show ?thesis
      using inv j' j of eff view comp by (auto simp: chunk_inv_def task_inv_def q step_effect_def simp flip: completed_of_def)
  next
    case False
    then show ?thesis
      using inv k view comp by (auto simp: chunk_inv_def task_inv_def q simp flip: completed_of_def)
  qed
  moreover have "count_inv (rp_pcs q) (se_expectedChunks (rp_session q)) (se_chunks_recv (rp_session q)) (se_trans_complete (rp_session q))"
  proof -
    have ci: "count_inv (rp_pcs p) (se_expectedChunks (rp_session p)) (se_chunks_recv (rp_session p)) (se_trans_complete (rp_session p))"
      using inv by (simp add: chunk_inv_def)
    have le: "length (rp_pcs p) = unat (se_expectedChunks (rp_session p))" using cfg by (simp add: pool_config_def)
    from count_inv_step [OF ci j le, of pc] eff show ?thesis by (simp add: q step_effect_def)
  qed
  ultimately show ?thesis using cfg' by (simp add: chunk_inv_def q)
qed

lemma chunk_start_inv: "chunk_start p \<Longrightarrow> chunk_inv p"
proof -
  assume st: "chunk_start p"
  have cfg: "pool_config p" and pcs: "rp_pcs p = map (\<lambda>(h, d). PC_Write h d) (rp_tasks p)" using st by (auto simp: chunk_start_def)
  have ne: "rp_tasks p \<noteq> []"
  proof -
    have "0 < num_chunks (length (rp_file p)) chunk_size"
      using cfg by (intro num_chunks_pos) (auto simp: pool_config_def sliceable_def chunk_size_value)
    then show ?thesis using cfg by (auto simp: pool_config_def)
  qed
  have "counted (rp_pcs p) = 0" by (auto simp: counted_def pcs filter_empty_conv)
  moreover have "se_expectedChunks (rp_session p) \<noteq> 0" using cfg ne by (auto simp: pool_config_def)
  moreover have "task_inv p j" if "j < length (rp_tasks p)" for j
    using that by (simp add: task_inv_def pcs split: prod.splits)
  moreover have "pending_count (rp_pcs p ! k) = None" if "k < length (rp_pcs p)" for k
    using that by (simp add: pcs split: prod.splits)
  ultimately show ?thesis using st by (auto simp: chunk_start_def chunk_inv_def count_inv_def)
qed

interpretation chunk_pool: invariant_system chunk_start chunk_step chunk_inv
  by unfold_locales (auto intro: chunk_start_inv chunk_step_inv)

text \<open>Every run of the pool ends: a task takes at most six steps.\<close>

definition steps_left :: "'ctx recv_pool \<Rightarrow> nat" where
  "steps_left p = sum_list (map (\<lambda>pc. 6 - stage pc) (rp_pcs p))"

lemma pc_step_stage: "pc_step env now pc s = (pc', s', None) \<Longrightarrow> pc \<noteq> PC_Done \<Longrightarrow> stage pc < stage pc' \<and> stage pc' \<le> 6"
  by (cases pc) (auto split: prod.splits option.splits bool.splits sum.splits)

lemma sum_list_update_less:
  "j < length xs \<Longrightarrow> (f y :: nat) < f (xs ! j) \<Longrightarrow> sum_list (map f (xs[j := y])) < sum_list (map f xs)"
proof (induction xs arbitrary: j)
  case (Cons x xs)
  then show ?case by (cases j) auto
qed simp

lemma chunk_step_decreases: "chunk_step p q \<Longrightarrow> steps_left q < steps_left p"
proof (induction rule: chunk_step.induct)
  case (step j p now pc s)
  from pc_step_stage [OF step(3,2)] step(1) show ?case
    by (simp add: steps_left_def) (rule sum_list_update_less, auto)
qed

subsection \<open>From the sender's task to the receiver's\<close>

lemma unat_kDefaultChunkSize: "unat kDefaultChunkSize = chunk_size"
  by (simp add: chunk_size_def)

lemma bound_small:
  assumes "compressible L strategy n" and "n \<le> chunk_size"
  shows "get_compress_bound L n strategy < 2 ^ 31"
  using assms compress_bound_LZ4(2) [of L n]
  by (auto simp: compressible_def get_compress_bound_def chunk_size_value lz4_max_input_def)

lemma chunk_message_carries:
  assumes i: "i < num_chunks (length file) chunk_size"
    and c: "compressible (sv_libs env) strategy (length (chunk_bytes file chunk_size i))"
    and g: "gcm_lawful (sv_evp env)" and k: "length key = 32"
  shows "\<exists>h d. chunk_message env key strategy (ideal_chunk file chunk_size i) = Inr (chunkWireHeader_bytes h @ d)
    \<and> wh_type h = msg_code MT_chunkData \<and> unat (wh_compressed_size h) = length d \<and> length d < 2 ^ 31 + 16
    \<and> length d \<le> get_compress_bound (sv_libs env) (length (chunk_bytes file chunk_size i)) strategy + 16
    \<and> (i < 2 ^ 32 \<longrightarrow> carries_chunk env key file i h d)"
proof -
  let ?b = "chunk_bytes file chunk_size i" let ?L = "sv_libs env"
  have lb: "length ?b \<le> chunk_size" by (simp add: length_chunk_bytes)
  then have pay: "unat (ck_payloadSize (ideal_chunk file chunk_size i)) = length ?b"
    by (simp add: ideal_chunk_def Let_def unat_word_of_nat_small chunk_size_value)
  let ?out = "replicate (get_compress_bound ?L (length ?b) strategy) (0 :: byte)"
  have "length ?b < 2 ^ 31" using lb by (simp add: chunk_size_value)
  from compress_decompress [OF c this, of ?out]
  obtain n out where co: "compress ?L ?b ?out strategy = Inr (n, out)" and n: "n \<le> length ?out" "length out = length ?out"
    and de: "\<And>target. length target = length ?b \<Longrightarrow> decompress ?L (take n out) target (Some strategy) = Inr (length ?b, ?b)"
    by (metis (no_types, lifting) Pair_inject length_replicate sum.inject(2))
  have bnd: "n < 2 ^ 31" using bound_small [OF c lb] n by simp
  then have nu: "unat (word_of_nat n :: u32) = n" by (simp add: unat_word_of_nat_small)
  obtain d where en: "encrypt (sv_evp env) (take n out) key (word_of_nat i) = Inr d"
    and d: "length d = length (take n out) + 16" "decrypt (sv_evp env) d key (word_of_nat i) = Inr (take n out)"
    using encrypt_decrypt [OF g k, of "take n out"] bnd by fastforce
  have ld: "length d = n + 16" using d(1) n by simp
  then have du: "unat (word_of_nat (length d) :: u32) = length d" using bnd by (intro unat_word_of_nat_small) simp
  define h where "h = \<lparr>wh_type = msg_code MT_chunkData, wh_chunk_id = word_of_nat i, wh_compressed_size = word_of_nat (length d),
     wh_original_size = word_of_nat (length ?b), wh_crc32 = crc32 ?b, wh_compress_stra = strategy_code strategy\<rparr>"
  have "chunk_message env key strategy (ideal_chunk file chunk_size i) = Inr (chunkWireHeader_bytes h @ d)"
    using pay co nu n en du
    by (simp add: chunk_message_def Let_def ideal_chunk_def resize_def h_def header_codec.length_enc)
  moreover have "carries_chunk env key file i h d" using de d(2) by (auto simp: carries_chunk_def h_def)
  ultimately show ?thesis using ld bnd du n by (intro exI [of _ h] exI [of _ d]) (simp add: h_def)
qed

lemma recv_chunk_message:
  assumes "unat (wh_compressed_size h) = length d"
  shows "recv_chunk_data (chunkWireHeader_bytes h @ d) = [Process_Chunk h d]"
proof -
  have "length (chunkWireHeader_bytes h) = sizeof_chunkWireHeader" by (rule header_codec.length_enc) simp
  moreover have "read_chunkWireHeader (chunkWireHeader_bytes h @ d) = h" by (rule header_codec.dec_enc) simp
  ultimately show ?thesis using assms by (simp add: recv_chunk_data_def Let_def)
qed

lemma handleRecv_chunk:
  assumes "unat (wh_compressed_size h) = length d" and "wh_type h = msg_code MT_chunkData"
  shows "handleRecv (chunkWireHeader_bytes h @ d) s = Inr ([Process_Chunk h d], s)"
  using recv_chunk_message [OF assms(1)] assms(2) by (simp add: handleRecv_def chunkWireHeader_bytes_def)

subsection \<open>Completion\<close>

lemma counted_all:
  assumes "counted pcs = length pcs" and "k < length pcs"
  shows "4 \<le> stage (pcs ! k)"
proof (rule ccontr)
  assume "\<not> 4 \<le> stage (pcs ! k)"
  then have "length (filter (\<lambda>pc. 4 \<le> stage pc) pcs) < length pcs"
    using assms(2) by (intro length_filter_less [of "pcs ! k"]) auto
  with assms(1) show False by (simp add: counted_def)
qed

lemma task_of_chunk:
  assumes "pool_config p" and "i < num_chunks (length (rp_file p)) chunk_size"
  obtains k where "k < length (rp_tasks p)" and "task_id (rp_tasks p ! k) = i"
proof -
  have "i \<in> set (map task_id (rp_tasks p))" using assms by (simp add: pool_config_def)
  then show ?thesis using that by (auto simp: in_set_conv_nth)
qed

lemma pool_complete:
  assumes inv: "chunk_inv p" and fin: "se_trans_complete (rp_session p)"
  shows "se_write_view (rp_session p) = rp_file p" and "is_complete (se_current_manifest (rp_session p))"
proof -
  have cfg: "pool_config p" using inv by (simp add: chunk_inv_def)
  have "se_chunks_recv (rp_session p) = se_expectedChunks (rp_session p)"
    using inv fin by (simp add: chunk_inv_def count_inv_def)
  moreover have "unat (se_chunks_recv (rp_session p)) = counted (rp_pcs p)"
    using inv by (simp add: chunk_inv_def count_inv_def)
  ultimately have "counted (rp_pcs p) = length (rp_pcs p)" using cfg by (simp add: pool_config_def)
  then have st: "4 \<le> stage (rp_pcs p ! k)" if "k < length (rp_tasks p)" for k
    using counted_all that cfg by (simp add: pool_config_def)
  have ti: "task_inv p k" if "k < length (rp_tasks p)" for k using inv that by (simp add: chunk_inv_def)
  have each: "chunk_bytes (se_write_view (rp_session p)) chunk_size i = chunk_bytes (rp_file p) chunk_size i
      \<and> completed_of (rp_session p) ! i" if i: "i < num_chunks (length (rp_file p)) chunk_size" for i
  proof -
    obtain k where k: "k < length (rp_tasks p)" "task_id (rp_tasks p ! k) = i" using task_of_chunk [OF cfg i] .
    then show ?thesis using ti [OF k(1)] st [OF k(1)] by (simp add: task_inv_def completed_of_def)
  qed
  show "se_write_view (rp_session p) = rp_file p"
    using cfg each by (intro regions_determine_file [of _ _ chunk_size]) (auto simp: pool_config_def chunk_size_value)
  have "0 < num_chunks (length (rp_file p)) chunk_size"
    using cfg by (intro num_chunks_pos) (auto simp: pool_config_def sliceable_def chunk_size_value)
  then have t: "0 < length (rp_tasks p)" using cfg by (auto simp: pool_config_def)
  have n: "length (completed_of (rp_session p)) = num_chunks (length (rp_file p)) chunk_size"
    using cfg pool_tasks(2) [OF cfg t] by (simp add: pool_config_def completed_of_def)
  then have "\<forall>b\<in>set (completed_of (rp_session p)). b" using each by (auto simp: in_set_conv_nth)
  then show "is_complete (se_current_manifest (rp_session p))"
    using n t pool_tasks(2) [OF cfg t] by (auto simp: is_complete_def list_all_iff completed_of_def)
qed

lemma pool_stuck_complete:
  assumes inv: "chunk_inv p" and stuck: "\<And>q. \<not> chunk_step p q"
  shows "se_trans_complete (rp_session p)"
proof -
  have cfg: "pool_config p" using inv by (simp add: chunk_inv_def)
  then have lp: "length (rp_pcs p) = length (rp_tasks p)" by (simp add: pool_config_def)
  have dn: "rp_pcs p ! k = PC_Done" if k: "k < length (rp_pcs p)" for k
  proof (rule ccontr)
    assume nd: "rp_pcs p ! k \<noteq> PC_Done"
    obtain pc s where "pc_step (rp_env p) 0 (rp_pcs p ! k) (rp_session p) = (pc, s, None)"
      using pc_step_effect [OF inv _ nd, of 0] k lp by auto
    from chunk_step.step [OF k nd this] stuck show False by blast
  qed
  then have "filter (\<lambda>pc. 4 \<le> stage pc) (rp_pcs p) = rp_pcs p" by (intro filter_True) (auto simp: in_set_conv_nth)
  then have "counted (rp_pcs p) = length (rp_pcs p)" by (simp add: counted_def)
  then have "se_chunks_recv (rp_session p) = se_expectedChunks (rp_session p)"
    using inv cfg by (simp add: chunk_inv_def count_inv_def pool_config_def word_unat_eq_iff)
  then show ?thesis using inv dn by (auto simp: chunk_inv_def count_inv_def)
qed

lemma pool_run_const: "chunk_step\<^sup>*\<^sup>* p q \<Longrightarrow> rp_file q = rp_file p \<and> rp_env q = rp_env p \<and> length (rp_pcs q) = length (rp_pcs p)"
  by (induction rule: rtranclp_induct) (auto elim: chunk_step.cases)

lemma pool_run_ends: "\<exists>q. chunk_step\<^sup>*\<^sup>* p q \<and> (\<forall>r. \<not> chunk_step q r)"
proof (induction "steps_left p" arbitrary: p rule: less_induct)
  case less
  show ?case
  proof (cases "\<exists>q. chunk_step p q")
    case True
    then obtain q where q: "chunk_step p q" by blast
    from less.hyps [OF chunk_step_decreases [OF q]] obtain r where "chunk_step\<^sup>*\<^sup>* q r" "\<forall>t. \<not> chunk_step r t" by blast
    with q show ?thesis by (meson converse_rtranclp_into_rtranclp)
  qed auto
qed

lemma sample_carries:
  assumes "i < num_chunks (length file) chunk_size" and "i < 2 ^ 32"
  shows "\<exists>h d. carries_chunk sample_env (replicate 32 0) file i h d"
proof -
  have "compressible (sv_libs sample_env) NONE (length (chunk_bytes file chunk_size i))" by (simp add: compressible_def)
  moreover have "gcm_lawful (sv_evp sample_env)" by (simp add: sample_env_def mask_evp_lawful)
  ultimately show ?thesis using chunk_message_carries [OF assms(1), of sample_env NONE "replicate 32 0"] assms(2) by auto
qed

definition sample_pool :: "chunkWireHeader \<Rightarrow> byte list \<Rightarrow> (byte list \<times> byte list \<times> byte list) recv_pool" where
  "sample_pool h d = \<lparr>rp_env = sample_env, rp_file = small_file, rp_tasks = [(h, d)], rp_pcs = [PC_Write h d],
     rp_session = sample_receiver small_file 1\<rparr>"

lemma sample_chunk_start:
  assumes "carries_chunk sample_env (replicate 32 0) small_file 0 h d"
  shows "chunk_start (sample_pool h d)"
  using assms small_file_chunks
  by (auto simp: chunk_start_def pool_config_def sample_pool_def task_id_def carries_chunk_def chunk_size_def)

subsection \<open>Properties\<close>

text \<open>C3: the receiver's thread pool processes the chunks of a file in any arrival order and with any
  interleaving of its workers.  Whenever the transfer is signalled complete the mapped file is the
  file sent, byte for byte, and the manifest is complete; no worker ever fails or gets stuck before its
  end; and when all workers are at their end, completion has been signalled.\<close>

theorem concurrent_chunks_restore_file:
  assumes "chunk_start p" and "chunk_step\<^sup>*\<^sup>* p q"
  shows "(se_trans_complete (rp_session q) \<longrightarrow>
      se_write_view (rp_session q) = rp_file p \<and> is_complete (se_current_manifest (rp_session q)))
    \<and> (\<forall>j<length (rp_pcs p). rp_pcs q ! j \<noteq> PC_Done \<longrightarrow>
         (\<exists>pc s. pc_step (rp_env p) now (rp_pcs q ! j) (rp_session q) = (pc, s, None)))
    \<and> ((\<forall>r. \<not> chunk_step q r) \<longrightarrow> se_trans_complete (rp_session q))"
proof -
  have inv: "chunk_inv q" using chunk_pool.reachable_inv [OF assms] .
  note const = pool_run_const [OF assms(2)]
  have "\<exists>pc s. pc_step (rp_env p) now (rp_pcs q ! j) (rp_session q) = (pc, s, None)"
    if "j < length (rp_pcs p)" "rp_pcs q ! j \<noteq> PC_Done" for j
    using pc_step_effect [OF inv _ that(2), of now] that(1) inv const by (auto simp: chunk_inv_def pool_config_def)
  then show ?thesis using pool_complete [OF inv] pool_stuck_complete [OF inv] const by auto
qed

lemma concurrent_chunks_restore_file_witness:
  "\<exists>h d q. chunk_step\<^sup>*\<^sup>* (sample_pool h d) q \<and> se_trans_complete (rp_session q) \<and> se_write_view (rp_session q) = small_file"
proof -
  obtain h d where "carries_chunk sample_env (replicate 32 0) small_file 0 h d"
    using sample_carries [of 0 small_file] small_file_chunks by (auto simp: chunk_size_def)
  then have s: "chunk_start (sample_pool h d)" by (rule sample_chunk_start)
  obtain q where q: "chunk_step\<^sup>*\<^sup>* (sample_pool h d) q" "\<forall>r. \<not> chunk_step q r" using pool_run_ends by blast
  from concurrent_chunks_restore_file [OF s q(1)] q show ?thesis by (auto simp: sample_pool_def)
qed

text \<open>A chunk a task carries, processed alone.\<close>

lemma processChunk_carries:
  assumes c: "carries_chunk env (se_aes_key s) file i header payload" and l: "length (se_write_view s) = length file"
    and i: "i < num_chunks (length file) chunk_size" and f: "sliceable file kDefaultChunkSize"
    and p: "\<not> se_on_progress s" and m: "i < length (completed_of s)"
  shows "\<exists>s'. processChunk env now header payload s = (s', None) \<and> se_aes_key s' = se_aes_key s
    \<and> se_write_view s' = overwrite_at (i * chunk_size) (chunk_bytes file chunk_size i) (se_write_view s)
    \<and> completed_of s' = (completed_of s)[i := True] \<and> se_chunks_recv s' = se_chunks_recv s + 1
    \<and> se_expectedChunks s' = se_expectedChunks s \<and> se_on_progress s' = se_on_progress s
    \<and> (se_trans_complete s' \<longleftrightarrow> se_trans_complete s \<or> se_chunks_recv s + 1 = se_expectedChunks s)"
proof -
  have id: "unat (wh_chunk_id header) = i"
    using c i f by (simp add: carries_chunk_def unat_word_of_nat_small sliceable_def chunk_size_def)
  have rp: "\<not> se_on_progress t \<Longrightarrow> report_progress now t = Inr t" for t
    by (simp add: report_progress_def split: option.splits)
  show ?thesis
    using m p by (simp add: processChunk_def chunk_write_carries [OF c l i f] chunk_mark_def id completed_of_def
        chunk_count_def count_bytes_def rp chunk_finish_def Let_def)
qed

lemma overwrite_length:
  assumes "length view = length file" and "i < num_chunks (length file) chunk_size"
  shows "length (overwrite_at (i * chunk_size) (chunk_bytes file chunk_size i) view) = length file"
  using chunk_fits [OF assms(2)] assms(1) by (simp add: length_overwrite_at chunk_size_value)

lemma duplicates_counted:
  assumes "carries_chunk env (se_aes_key s) file i header payload" and "length (se_write_view s) = length file"
    and i: "i < num_chunks (length file) chunk_size" and f: "sliceable file kDefaultChunkSize"
    and "\<not> se_on_progress s" and "i < length (completed_of s)"
    and "unat (se_chunks_recv s) + n = unat (se_expectedChunks s)" and "0 < n"
  shows "\<exists>s'. run_tasks env os (replicate n (Process_Chunk header payload)) s = Inr ([], s') \<and> se_trans_complete s'
    \<and> completed_of s' = (completed_of s)[i := True]"
  using assms(1,2,5-8)
proof (induction n arbitrary: s)
  case (Suc n)
  obtain s1 where p: "processChunk env (ho_now os) header payload s = (s1, None)" and k: "se_aes_key s1 = se_aes_key s"
    and v: "se_write_view s1 = overwrite_at (i * chunk_size) (chunk_bytes file chunk_size i) (se_write_view s)"
    and c: "completed_of s1 = (completed_of s)[i := True]" and r: "se_chunks_recv s1 = se_chunks_recv s + 1"
    and e: "se_expectedChunks s1 = se_expectedChunks s" "se_on_progress s1 = se_on_progress s"
    and t: "se_trans_complete s1 \<longleftrightarrow> se_trans_complete s \<or> se_chunks_recv s + 1 = se_expectedChunks s"
    using processChunk_carries [OF Suc.prems(1,2) i f Suc.prems(3,4), of "ho_now os"] by blast
  have rt: "run_task env os (Process_Chunk header payload) s = Inr ([], s1)" by (simp add: p catch_task_def)
  have u: "unat (se_chunks_recv s + 1) = unat (se_chunks_recv s) + 1"
    using Suc.prems(5) unat_less_width [of "se_expectedChunks s"] by (subst unat_add_lem [THEN iffD1]) simp_all
  show ?case
  proof (cases "n = 0")
    case True
    then have "se_trans_complete s1" using t u Suc.prems(5) by (simp add: word_unat_eq_iff)
    then show ?thesis using rt c True by simp
  next
    case False
    have "unat (se_chunks_recv s1) + n = unat (se_expectedChunks s1)" using r e u Suc.prems(5) by simp
    then obtain s' where "run_tasks env os (replicate n (Process_Chunk header payload)) s1 = Inr ([], s')" "se_trans_complete s'"
      "completed_of s' = (completed_of s1)[i := True]"
      using Suc.IH [of s1] Suc.prems k v c e overwrite_length [OF Suc.prems(2) i] False by auto
    then show ?thesis using rt c by simp
  qed
qed simp

text \<open>C18: a chunk is counted each time it arrives.  The same valid chunk processed as often as chunks are
  expected completes the transfer, although every other chunk of the file is still missing.\<close>

theorem duplicate_chunks_complete_transfer:
  assumes "carries_chunk env (se_aes_key s) file i header payload" and "length (se_write_view s) = length file"
    and "i < num_chunks (length file) chunk_size" and "sliceable file kDefaultChunkSize" and "\<not> se_on_progress s"
    and "mf_completedChunks (se_current_manifest s) = replicate (unat (se_expectedChunks s)) False" and "se_chunks_recv s = 0"
    and "i < unat (se_expectedChunks s)" and "1 < unat (se_expectedChunks s)"
  shows "\<exists>s'. run_tasks env os (replicate (unat (se_expectedChunks s)) (Process_Chunk header payload)) s = Inr ([], s')
    \<and> se_trans_complete s' \<and> \<not> is_complete (se_current_manifest s')
    \<and> count_list (mf_completedChunks (se_current_manifest s')) True = 1"
proof -
  let ?n = "unat (se_expectedChunks s)"
  obtain s' where s': "run_tasks env os (replicate ?n (Process_Chunk header payload)) s = Inr ([], s')" "se_trans_complete s'"
    "completed_of s' = (completed_of s)[i := True]"
    using duplicates_counted [OF assms(1-5), of ?n os] assms(6-9) by (auto simp: completed_of_def)
  have fl: "mf_completedChunks (se_current_manifest s') = (replicate ?n False)[i := True]"
    using s'(3) assms(6) by (simp add: completed_of_def)
  define k where "k = (if i = 0 then 1 else 0 :: nat)"
  have "\<not> mf_completedChunks (se_current_manifest s') ! k" "k < length (mf_completedChunks (se_current_manifest s'))"
    using assms(8,9) by (auto simp: fl k_def)
  then have "\<not> is_complete (se_current_manifest s')" by (auto simp: is_complete_def list_all_length)
  moreover have "count_list ((replicate ?n False)[i := True]) True = 1"
  proof -
    have "(replicate ?n False)[i := True] = replicate i False @ True # replicate (?n - Suc i) False"
      using assms(8) by (simp add: upd_conv_take_nth_drop min_def)
    moreover have "count_list (replicate m False) True = 0" for m by (simp add: count_list_0_iff)
    ultimately show ?thesis by simp
  qed
  ultimately show ?thesis using s' fl by auto
qed

lemma duplicate_chunks_complete_transfer_witness:
  "\<exists>h d s'. run_tasks sample_env sample_os (replicate 2 (Process_Chunk h d)) (sample_receiver large_file 2) = Inr ([], s')
    \<and> se_trans_complete s' \<and> \<not> is_complete (se_current_manifest s')"
proof -
  obtain h d where c: "carries_chunk sample_env (replicate 32 0) large_file 0 h d"
    using sample_carries [of 0 large_file] large_file_chunks by (auto simp: chunk_size_def)
  show ?thesis
    using duplicate_chunks_complete_transfer [of sample_env "sample_receiver large_file 2" large_file 0 h d sample_os] c large_file_chunks
    by (auto simp: chunk_size_def)
qed

text \<open>C17: a chunk that is not an encryption under the receiver's key and the announced chunk number is
  dropped without any effect: file, manifest and counters stay as they are.  The payload is below 2 GiB and a
  tag, so that its length is one the library can be asked for.\<close>

theorem forged_chunk_ignored:
  assumes "gcm_lawful (sv_evp env)" and "length (se_aes_key s) = 32" and "length payload < 2 ^ 31 + 16"
    and "\<forall>p. length payload = length p + 16 \<longrightarrow> encrypt (sv_evp env) p (se_aes_key s) (wh_chunk_id header) \<noteq> Inr payload"
  shows "processChunk env now header payload s = (s, None)"
proof -
  obtain e where d: "decrypt (sv_evp env) payload (se_aes_key s) (wh_chunk_id header) = Inl e"
    using decrypt_encrypt [OF assms(1-3)] assms(4) by (metis sum.exhaust)
  obtain what where "e = Throw what" using decrypt_refusal [OF assms(1-3) d] by blast
  with d show ?thesis by (simp add: processChunk_def chunk_write_def Let_def)
qed

definition forged_header :: chunkWireHeader where
  "forged_header = \<lparr>wh_type = 4, wh_chunk_id = 0, wh_compressed_size = 16, wh_original_size = 3, wh_crc32 = 0, wh_compress_stra = 0\<rparr>"

lemma forged_chunk_ignored_witness:
  "processChunk sample_env 0 forged_header (replicate 16 1) (sample_receiver small_file 1) = (sample_receiver small_file 1, None)"
proof (rule forged_chunk_ignored)
  show "gcm_lawful (sv_evp sample_env)" by (simp add: sample_env_def mask_evp_lawful)
  have "encrypt mask_evp [] (replicate 32 0) i \<noteq> Inr (replicate 16 1)" for i
  proof
    assume e: "encrypt mask_evp [] (replicate 32 0) i = Inr (replicate 16 1)"
    have "encrypt mask_evp [] (replicate 32 0) i = Inr (replicate 16 0)"
      using encrypt_seal [OF mask_evp_lawful, of "replicate 32 0" "[]" i] by (auto simp: mask_seal)
    with e have "hd (replicate 16 (1 :: byte)) = hd (replicate 16 0)" by simp
    then show False by simp
  qed
  then show "\<forall>p. length (replicate 16 (1 :: byte)) = length p + 16
      \<longrightarrow> encrypt (sv_evp sample_env) p (se_aes_key (sample_receiver small_file 1)) (wh_chunk_id forged_header) \<noteq> Inr (replicate 16 1)"
    by (simp add: sample_env_def)
qed simp_all

text \<open>The chunk number is checked against the size of the mapped file but not against the manifest: a
  valid chunk whose number the announced chunk count does not cover marks an entry past the end of
  the manifest's flags, after its data has been written.\<close>

theorem chunk_number_unchecked:
  assumes "carries_chunk env (se_aes_key s) file i header payload" and "length (se_write_view s) = length file"
    and "i < num_chunks (length file) chunk_size" and "sliceable file kDefaultChunkSize"
    and "length (mf_completedChunks (se_current_manifest s)) \<le> i"
  shows "run_task env os (Process_Chunk header payload) s = Inl OutOfBounds"
proof -
  have "unat (wh_chunk_id header) = i"
    using assms(1,3,4) by (simp add: carries_chunk_def unat_word_of_nat_small sliceable_def chunk_size_def)
  then show ?thesis
    using assms(5) by (simp add: processChunk_def chunk_write_carries [OF assms(1-4)] chunk_mark_def catch_task_def Let_def)
qed

lemma chunk_number_unchecked_witness:
  "\<exists>h d. run_task sample_env sample_os (Process_Chunk h d) (sample_receiver large_file 1) = Inl OutOfBounds"
proof -
  obtain h d where c: "carries_chunk sample_env (replicate 32 0) large_file 1 h d"
    using sample_carries [of 1 large_file] large_file_chunks by (auto simp: chunk_size_def)
  show ?thesis
    using chunk_number_unchecked [of sample_env "sample_receiver large_file 1" large_file 1 h d sample_os] c large_file_chunks
    by (auto simp: chunk_size_def)
qed

end
