(* ===== verification/Session_Handshake.thy ===== *)
theory Session_Handshake
  imports Session "HOL-Library.Sublist"
begin

text \<open>
  The handshake between sender and receiver: the message survives the wire, a wrong PIN ends the
  transfer on both sides before any chunk is sent, a right one leaves the receiver with an empty file of
  the announced size and the sender with an empty resume bit field.  Also the choice of the file name and
  what the receiver accepts without checking.
\<close>

subsection \<open>The message\<close>

lemma length_make_handshake_name: "length (hs_file_name (make_handshake path n pin)) = 256"
  by (simp add: make_handshake_def Let_def)

lemma handleRecv_handshake:
  "handleRecv (handshake_bytes (make_handshake path n pin)) s = Inr ([Process_Handshake (make_handshake path n pin)], s)"
proof -
  let ?h = "make_handshake path n pin"
  have "length (handshake_bytes ?h) = sizeof_handshake" "read_handshake (handshake_bytes ?h @ []) = ?h"
    by (rule handshake_codec.length_enc handshake_codec.dec_enc, rule length_make_handshake_name)+
  then show ?thesis by (simp add: handleRecv_def handshake_bytes_def make_handshake_def Let_def)
qed

lemma receive_handshake:
  "receive env os (handshake_bytes (make_handshake path n pin)) s = catch_task (processHandshake env os (make_handshake path n pin) s)"
  by (cases "catch_task (processHandshake env os (make_handshake path n pin) s)")
    (auto simp: receive_def handleRecv_handshake split: prod.splits)

text \<open>The chunk count of the handshake is the one slicing produces.\<close>

lemma handshake_total:
  assumes "sliceable file kDefaultChunkSize"
  shows "unat (hs_total_chunks (make_handshake path (word_of_nat (length file)) pin)) = num_chunks (length file) (unat kDefaultChunkSize)"
proof -
  have "(ucast (ucast kDefaultChunkSize :: u32) :: u64) = kDefaultChunkSize" by (simp add: kDefaultChunkSize_def)
  then show ?thesis using total_chunks_unat [OF assms] by (simp add: make_handshake_def Let_def)
qed

subsection \<open>The file name\<close>

lemma numbered_path_inject:
  assumes "numbered_path dir stem ext m = numbered_path dir stem ext n"
  shows "m = n"
proof -
  let ?q = "\<lambda>k. stem @ '' ('' @ to_string k @ '')'' @ ext"
  have q2: "?q k ! 1 = (stem @ '' ('') ! 1" "take 2 (?q k) = take 2 (stem @ '' ('')" "2 \<le> length (?q k)" for k
  proof -
    have q: "?q k = (stem @ '' ('') @ to_string k @ '')'' @ ext" by simp
    show "?q k ! 1 = (stem @ '' ('') ! 1" "take 2 (?q k) = take 2 (stem @ '' ('')" "2 \<le> length (?q k)"
      unfolding q by (simp_all only: nth_append take_append) simp_all
  qed
  then have root: "root_name (?q m) = root_name (?q n)" by (simp add: root_name_def)
  have rl: "length (root_name (?q k)) \<le> length stem" for k
  proof (cases "length stem \<ge> 2")
    case False
    then have "(stem @ '' ('') ! 1 \<noteq> CHR '':''" by (cases stem) (auto simp: nth_append neq_Nil_conv)
    then show ?thesis using q2 by (simp add: root_name_def)
  qed (simp add: root_name_def)
  then have hd: "has_root_directory (?q m) = has_root_directory (?q n)"
    using root rl [of n] by (simp add: has_root_directory_def split: list.splits) (auto simp: append_eq_Cons_conv)
  have dr: "drop (length (root_name (?q k))) (?q k) = drop (length (root_name (?q k))) stem @ '' ('' @ to_string k @ '')'' @ ext" for k
    using rl [of k] by simp
  have "?q m = ?q n \<or> drop (length (root_name (?q m))) (?q m) = drop (length (root_name (?q n))) (?q n)"
    using assms root hd by (auto simp: numbered_path_def path_append_def split: if_splits)
  then show ?thesis unfolding dr using root by (auto simp: to_string_inject)
qed

text \<open>The loop visits the wished name and then the numbered ones, and stops at the first free one.\<close>

lemma free_path_result:
  "free_path ex dir stem ext path c = Inr q \<Longrightarrow> \<not> ex q
    \<and> (q = path \<or> (\<exists>m\<ge>c. q = numbered_path dir stem ext m \<and> ex path \<and> (\<forall>k. c \<le> k \<and> k < m \<longrightarrow> ex (numbered_path dir stem ext k))))"
proof (induction ex dir stem ext path c rule: free_path.induct)
  case (1 ex dir stem ext path c)
  show ?case
  proof (cases "ex path \<and> \<not> 2 ^ 31 - 1 \<le> c")
    case True
    then have r: "free_path ex dir stem ext (numbered_path dir stem ext c) (c + 1) = Inr q"
      using "1.prems" by (simp add: free_path.simps [of ex dir stem ext path])
    from True "1.IH" [OF _ _ r] have "\<not> ex q" and "q = numbered_path dir stem ext c
        \<or> (\<exists>m\<ge>c + 1. q = numbered_path dir stem ext m \<and> ex (numbered_path dir stem ext c)
            \<and> (\<forall>k. c + 1 \<le> k \<and> k < m \<longrightarrow> ex (numbered_path dir stem ext k)))" by auto
    with True show ?thesis by (metis Suc_eq_plus1 le_antisym le_eq_less_or_eq less_eq_Suc_le not_less)
  next
    case False
    then show ?thesis using "1.prems" by (auto simp: free_path.simps [of ex dir stem ext path] split: if_splits)
  qed
qed

lemma free_path_overflow:
  "free_path ex dir stem ext path c = Inl e \<Longrightarrow> c \<le> 2 ^ 31 - 1 \<Longrightarrow>
    ex path \<and> (\<forall>k. c \<le> k \<and> k < 2 ^ 31 - 1 \<longrightarrow> ex (numbered_path dir stem ext k))"
proof (induction ex dir stem ext path c rule: free_path.induct)
  case (1 ex dir stem ext path c)
  show ?case
  proof (cases "ex path \<and> \<not> 2 ^ 31 - 1 \<le> c")
    case True
    then have r: "free_path ex dir stem ext (numbered_path dir stem ext c) (c + 1) = Inl e"
      using "1.prems" by (simp add: free_path.simps [of ex dir stem ext path])
    with True "1.IH" [OF _ _ r] have "ex (numbered_path dir stem ext c)"
      and "\<forall>k. c + 1 \<le> k \<and> k < 2 ^ 31 - 1 \<longrightarrow> ex (numbered_path dir stem ext k)" by auto
    with True show ?thesis by (metis Suc_eq_plus1 le_eq_less_or_eq less_eq_Suc_le)
  next
    case False
    then show ?thesis using "1.prems" by (auto simp: free_path.simps [of ex dir stem ext path] split: if_splits)
  qed
qed

lemma free_name_found_lemma:
  assumes "finite {f. fs_exists f}" and "card {f. fs_exists f} < 2 ^ 31 - 2"
  shows "\<exists>path. choose_target fs_exists dir name = Inr path \<and> \<not> fs_exists path"
proof -
  let ?w = "path_append dir name" let ?n = "numbered_path dir (path_stem ?w) (path_extension ?w)"
  show ?thesis
  proof (cases "choose_target fs_exists dir name")
    case (Inl e)
    then have "?n ` {1..<2 ^ 31 - 1} \<subseteq> {f. fs_exists f}"
      using free_path_overflow [of fs_exists dir "path_stem ?w" "path_extension ?w" ?w 1 e]
      by (auto simp: choose_target_def Let_def)
    from card_mono [OF assms(1) this] have "card {1..<2 ^ 31 - 1 :: nat} \<le> card {f. fs_exists f}"
      by (subst (asm) card_image) (auto intro: inj_onI numbered_path_inject)
    with assms(2) show ?thesis by simp
  next
    case (Inr path)
    then show ?thesis
      using free_path_result [of fs_exists dir "path_stem ?w" "path_extension ?w" ?w 1 path]
      by (auto simp: choose_target_def Let_def)
  qed
qed

text \<open>C20: the search for a free file name ends whenever fewer than \<open>2 ^ 31 - 2\<close> files exist, so that the
  counter cannot overflow.  The name found does not exist; it is the wished one or, when that is taken,
  the numbered one with the least free number.\<close>

theorem free_name_found:
  assumes "finite {f. fs_exists f}" and "card {f. fs_exists f} < 2 ^ 31 - 2"
  shows "\<exists>path. choose_target fs_exists dir name = Inr path \<and> \<not> fs_exists path
    \<and> (let wished = path_append dir name;
           numbered = numbered_path dir (path_stem wished) (path_extension wished)
       in if fs_exists wished
          then \<exists>m\<ge>1. path = numbered m \<and> (\<forall>k. 1 \<le> k \<and> k < m \<longrightarrow> fs_exists (numbered k))
          else path = wished)"
proof -
  let ?w = "path_append dir name" let ?n = "numbered_path dir (path_stem ?w) (path_extension ?w)"
  obtain path where p: "choose_target fs_exists dir name = Inr path" using free_name_found_lemma [OF assms] by blast
  then have "free_path fs_exists dir (path_stem ?w) (path_extension ?w) ?w 1 = Inr path"
    by (simp add: choose_target_def Let_def)
  from free_path_result [OF this] p show ?thesis
    by (intro exI [of _ path]) (auto simp: Let_def)
qed

lemma free_name_found_witness:
  "\<exists>path. choose_target (\<lambda>f. f = ''out/a.txt'') ''out/'' ''a.txt'' = Inr path \<and> path \<noteq> ''out/a.txt''"
  using free_name_found [of "\<lambda>f. f = ''out/a.txt''" "''out/''" "''a.txt''"] by auto

















subsection \<open>Acknowledgement\<close>

lemma length_ack [simp]: "length (handshakeAck_bytes a) = sizeof_handshakeAck"
  by (rule ack_codec.length_enc) simp

lemma read_ack [simp]: "read_handshakeAck (handshakeAck_bytes a @ r) = a"
  by (rule ack_codec.dec_enc) simp

text \<open>What the sender makes of an acknowledgement: the receiver's flags.\<close>

lemma handleRecv_ack:
  assumes "manifest_wf m" and "ack_message (mf_total_chunks m) m = Inr ack" and "\<not> se_handshake_acked s"
  shows "handleRecv ack s = Inr ([], s\<lparr>se_resume_bitfield := mf_completedChunks m, se_handshake_acked := True\<rparr>)"
proof -
  obtain packed where p: "pack_bitfield m = Inr packed"
    and a: "ack = handshakeAck_bytes \<lparr>ack_type = msg_code MT_handshakeAck, ack_total_chunks = mf_total_chunks m\<rparr> @ packed"
    using assms(2) by (cases "pack_bitfield m") (auto simp: ack_message_def)
  have "hd ack = msg_code MT_handshakeAck" "ack \<noteq> []" by (simp_all add: a handshakeAck_bytes_def)
  moreover have "processHandshakeACk ack s = Inr (s\<lparr>se_resume_bitfield := mf_completedChunks m, se_handshake_acked := True\<rparr>)"
    using pack_unpack_bits [OF assms(1) p] assms(3) by (simp add: processHandshakeACk_def a Let_def)
  ultimately show ?thesis by (simp add: handleRecv_def)
qed

lemma receive_no_task: "handleRecv d s = Inr ([], s') \<Longrightarrow> receive env os d s = Inr ([], s')"
  by (simp add: receive_def)

text \<open>The receiver after an accepted handshake.  The operating system works for a name when it can convert the name,
  and create and map every path that does not exist.\<close>

definition os_works :: "handshake_os \<Rightarrow> string \<Rightarrow> bool" where
  "os_works os name \<longleftrightarrow> ho_converts os name \<and> (\<forall>p. \<not> ho_exists os p \<longrightarrow>
     ho_prealloc os p \<noteq> None \<and> os_file (ho_map os p) \<noteq> None \<and> os_mapping (ho_map os p) \<noteq> None \<and> os_view (ho_map os p) \<noteq> None)"

lemma map_write_works:
  assumes "os_works os name" and "\<not> ho_exists os p"
  shows "\<exists>log m v. map_write (ho_map os p) len m0 = (log, m, Inr (v, len)) \<and> fm_fileHandle m = os_file (ho_map os p)"
proof -
  obtain log0 m1 where "cleanup m0 = (log0, m1)" by (rule prod.exhaust)
  then show ?thesis using assms by (fastforce simp: os_works_def map_write_def map_file_def Let_def)
qed

lemma open_target_works:
  assumes "os_works os name" and "\<not> ho_exists os p"
  shows "\<exists>m. open_target os p len s = (s\<lparr>se_file_mapper := m, se_write_view := replicate (unat len) 0\<rparr>, None)
    \<and> fm_fileHandle m = os_file (ho_map os p)"
proof -
  obtain log m v where "map_write (ho_map os p) len (se_file_mapper s) = (log, m, Inr (v, len))" "fm_fileHandle m = os_file (ho_map os p)"
    using map_write_works [OF assms] by blast
  moreover have "ho_prealloc os p \<noteq> None" using assms by (simp add: os_works_def)
  ultimately show ?thesis by (auto simp: open_target_def preallocate_file_def)
qed

definition ready_session :: "'ctx session_env \<Rightarrow> handshake \<Rightarrow> session \<Rightarrow> session \<Rightarrow> bool" where
  "ready_session env hs s s' \<longleftrightarrow>
     se_write_view s' = replicate (unat (hs_file_size hs)) 0 \<and> se_aes_key s' = derive_key (sv_sha env) (hs_pin hs)
   \<and> se_expectedChunks s' = hs_total_chunks hs \<and> se_chunks_recv s' = 0
   \<and> se_trans_complete s' = se_trans_complete s \<and> se_on_progress s' = se_on_progress s
   \<and> mf_total_chunks (se_current_manifest s') = hs_total_chunks hs
   \<and> mf_completedChunks (se_current_manifest s') = replicate (unat (hs_total_chunks hs)) False"

lemma handshake_accepted:
  assumes "se_expectedChunks s = 0" and "hs_pin hs = se_expected_pin s" and "os_works os (string_of_bytes name)"
    and name: "cstr_get (hs_file_name hs) = Inr name"
    and target: "choose_target (ho_exists os) (se_output_dir s) (string_of_bytes name) = Inr path" and free: "\<not> ho_exists os path"
    and n: "unat (hs_total_chunks hs) + 7 < 2 ^ 32"
  shows "\<exists>ack s'. processHandshake env os hs s = ([(ack, 0)], s', None) \<and> ready_session env hs s s'
    \<and> se_current_filename s' = path_filename path \<and> fm_fileHandle (se_file_mapper s') = os_file (ho_map os path)
    \<and> ack_message (mf_total_chunks (se_current_manifest s')) (se_current_manifest s') = Inr ack
    \<and> manifest_wf (se_current_manifest s')"
proof -
  define s2 where "s2 = start_manifest hs (path_filename path) (s\<lparr>se_expectedChunks := hs_total_chunks hs,
     se_aes_key := derive_key (sv_sha env) (se_expected_pin s), se_current_filename := string_of_bytes name,
     se_metrics := Some (new_metrics (hs_file_size hs) (ho_now os))\<rparr>)"
  obtain m where op: "open_target os path (hs_file_size hs) s2 = (s2\<lparr>se_file_mapper := m, se_write_view := replicate (unat (hs_file_size hs)) 0\<rparr>, None)"
    and m: "fm_fileHandle m = os_file (ho_map os path)" using open_target_works [OF assms(3) free] by blast
  have conv: "ho_converts os (string_of_bytes name)" using assms(3) by (simp add: os_works_def)
  define s3 where "s3 = s2\<lparr>se_file_mapper := m, se_write_view := replicate (unat (hs_file_size hs)) 0\<rparr>"
  have wf: "manifest_wf (se_current_manifest s3)" using n by (simp add: manifest_wf_def s3_def s2_def start_manifest_def)
  have tot: "mf_total_chunks (se_current_manifest s3) = hs_total_chunks hs" by (simp add: s3_def s2_def start_manifest_def)
  obtain ack where ack: "ack_message (hs_total_chunks hs) (se_current_manifest s3) = Inr ack"
    using pack_bitfield_spec [OF wf] by (auto simp: ack_message_def)
  have "processHandshake env os hs s = send_ack (hs_total_chunks hs) s3"
    using assms(1,2) name target op conv by (simp add: processHandshake_def accept_handshake_def Let_def s3_def flip: s2_def)
  then have "processHandshake env os hs s = ([(ack, 0)], s3, None)" by (simp add: send_ack_def ack)
  moreover have "ready_session env hs s s3" using assms(2) by (simp add: ready_session_def s3_def s2_def start_manifest_def)
  ultimately show ?thesis using wf tot ack m by (auto simp: s3_def s2_def start_manifest_def)
qed

subsection \<open>Properties of the handshake\<close>





text \<open>A handshake with the right PIN opens the transfer.  The receiver ends with the key of the PIN, a
  mapped file of the announced size, cleared flags and counters and one acknowledgement; the
  acknowledgement makes the sender go on with exactly the receiver's flags.\<close>

lemma handshake_exchange:
  assumes "sliceable file kDefaultChunkSize" and "num_chunks (length file) (unat kDefaultChunkSize) + 7 < 2 ^ 32"
    and "se_expectedChunks r = 0" and "se_expected_pin r = pin" and "os_works os (take 255 (path_filename path))"
    and "finite {f. ho_exists os f}" and "card {f. ho_exists os f} < 2 ^ 31 - 2"
    and "0 \<notin> set (bytes_of_string (path_filename path))" and "\<not> se_handshake_acked s"
  shows "\<exists>ack r'. receive env os (handshake_bytes (make_handshake path (word_of_nat (length file)) pin)) r = Inr ([(ack, 0)], r')
    \<and> se_write_view r' = replicate (length file) 0 \<and> se_aes_key r' = derive_key (sv_sha env) pin
    \<and> unat (se_expectedChunks r') = num_chunks (length file) (unat kDefaultChunkSize) \<and> se_chunks_recv r' = 0
    \<and> mf_completedChunks (se_current_manifest r') = replicate (num_chunks (length file) (unat kDefaultChunkSize)) False
    \<and> se_trans_complete r' = se_trans_complete r \<and> se_on_progress r' = se_on_progress r
    \<and> (\<exists>target. choose_target (ho_exists os) (se_output_dir r) (take 255 (path_filename path)) = Inr target
         \<and> \<not> ho_exists os target \<and> se_current_filename r' = path_filename target)
    \<and> receive env os ack s = Inr ([], s\<lparr>se_resume_bitfield := mf_completedChunks (se_current_manifest r'), se_handshake_acked := True\<rparr>)"
proof -
  let ?hs = "make_handshake path (word_of_nat (length file)) pin"
  let ?n = "num_chunks (length file) (unat kDefaultChunkSize)"
  have tot: "unat (hs_total_chunks ?hs) = ?n" using handshake_total [OF assms(1)] .
  have hs: "hs_pin ?hs = pin" "unat (hs_file_size ?hs) = length file"
    "hs_file_name ?hs = cstr_put 256 (bytes_of_string (path_filename path))"
    using assms(1) by (simp_all add: make_handshake_def Let_def sliceable_def unat_word_of_nat_small)
  let ?name = "take 255 (bytes_of_string (path_filename path))"
  have name: "cstr_get (hs_file_name ?hs) = Inr ?name" using cstr_get_put [of 256] assms(8) by (simp add: hs)
  have str: "string_of_bytes ?name = take 255 (path_filename path)"
    using string_of_bytes_of_string [of "take 255 (path_filename path)"] by (simp add: bytes_of_string_def take_map)
  obtain target where t: "choose_target (ho_exists os) (se_output_dir r) (take 255 (path_filename path)) = Inr target"
    "\<not> ho_exists os target" using free_name_found_lemma [OF assms(6,7)] by blast
  obtain ack r' where p: "processHandshake env os ?hs r = ([(ack, 0)], r', None)" and ready: "ready_session env ?hs r r'"
    and fname: "se_current_filename r' = path_filename target"
    and ack: "ack_message (mf_total_chunks (se_current_manifest r')) (se_current_manifest r') = Inr ack" "manifest_wf (se_current_manifest r')"
    using handshake_accepted [OF assms(3) _ assms(5) [folded str] name, of target env] t assms(2,4) tot hs(1) str by auto
  have "receive env os (handshake_bytes ?hs) r = Inr ([(ack, 0)], r')"
    by (simp add: receive_handshake p catch_task_def)
  moreover have "receive env os ack s = Inr ([], s\<lparr>se_resume_bitfield := mf_completedChunks (se_current_manifest r'), se_handshake_acked := True\<rparr>)"
    using handleRecv_ack [OF ack(2,1) assms(9)] by (rule receive_no_task)
  ultimately show ?thesis
    using ready t fname tot hs by (intro exI [of _ ack] exI [of _ r']) (simp add: ready_session_def)
qed

lemma sample_os_works: "os_works sample_os ''a.txt''" "finite {f. ho_exists sample_os f}" "card {f. ho_exists sample_os f} < 2 ^ 31 - 2"
  by (simp_all add: os_works_def sample_os_def)

lemma a_txt_bytes: "0 \<notin> set (bytes_of_string (path_filename ''a.txt''))"
  by (simp add: bytes_of_string_def path_filename_def is_sep_def)

lemma unpack_loop_overread:
  "i \<in> set is \<Longrightarrow> length packed \<le> i div 8 \<Longrightarrow> unpack_loop packed is completed = Inl OutOfBounds"
  by (induction packed "is" completed rule: unpack_loop.induct) auto

text \<open>The acknowledgement's chunk count is trusted.  An acknowledgement that announces more chunks than
  its bit field has bits makes the sender read past the received bytes.\<close>

theorem ack_bitfield_overread:
  assumes "8 * length packed < unat total_chunks" and "\<not> se_handshake_acked s"
  shows "handleRecv (handshakeAck_bytes \<lparr>ack_type = msg_code MT_handshakeAck, ack_total_chunks = total_chunks\<rparr> @ packed) s
    = Inl OutOfBounds"
proof -
  have "unpack_bits packed total_chunks = Inl OutOfBounds"
    unfolding unpack_bits_def using assms(1) by (intro unpack_loop_overread [of "8 * length packed"]) auto
  then show ?thesis
    using assms(2) by (simp add: handleRecv_def processHandshakeACk_def Let_def) (simp add: handshakeAck_bytes_def)
qed

lemma ack_bitfield_overread_witness: "handleRecv [2, 9, 0, 0, 0, 255] new_session = Inl OutOfBounds"
  using ack_bitfield_overread [of "[255]" 9 new_session]
  by (simp add: new_session_def handshakeAck_bytes_def put32_def le_enc_numeral)

end
