(* ===== verification/File_Transfer.thy ===== *)
theory File_Transfer
  imports Session_Transfer Session_Handshake Transport
begin

text \<open>
  A whole transfer: handshake, acknowledgement, the sender's tasks in any order, delivery of their
  messages in any order, and the receiver's tasks interleaved in any way.  The transport between the two
  sessions is the subject of the theories on KCP and framing; here it may permute messages, which covers
  the four streams and the two thread pools.
\<close>

subsection \<open>The sender\<close>

lemma sendFile_begin_works:
  assumes "os_file os \<noteq> None" and "os_mapping os \<noteq> None" and "os_view os \<noteq> None"
  shows "\<exists>m. sendFile_begin env os now path file pin cb s =
    ([(handshake_bytes (make_handshake path (word_of_nat (length file)) pin), 0)],
     s\<lparr>se_on_progress := cb, se_metrics := Some (new_metrics (word_of_nat (length file)) now), se_file_mapper := m,
       se_aes_key := derive_key (sv_sha env) pin\<rparr>, None)"
proof -
  obtain log0 m1 where "cleanup (se_file_mapper s) = (log0, m1)" by (rule prod.exhaust)
  then show ?thesis using assms by (auto simp: sendFile_begin_def map_read_def map_file_def Let_def)
qed

lemma submit_all:
  "\<forall>c\<in>set chunks. \<not> (unat (ck_id c) < length resume \<and> resume ! unat (ck_id c)) \<Longrightarrow> submit_chunks resume chunks s = (chunks, s)"
  by (induction chunks) auto

lemma sendFile_chunks_all:
  assumes "sliceable file kDefaultChunkSize" and "\<not> se_handshake_rejected s" and "se_resume_bitfield s = replicate n False"
  shows "sendFile_chunks path file s = Inr (Some (detect path (take (min 4096 (length file)) file),
    map (ideal_chunk file chunk_size) [0..<num_chunks (length file) chunk_size], word_of_nat (num_chunks (length file) chunk_size)), s)"
proof -
  have "(ucast (ucast kDefaultChunkSize :: u32) :: u64) = kDefaultChunkSize" by (simp add: kDefaultChunkSize_def)
  then show ?thesis
    using assms slice_ideal [OF assms(1)] by (simp add: sendFile_chunks_def submit_all chunk_size_def)
qed

lemma run_send_tasks_works:
  assumes "\<forall>i\<in>set is. chunk_message env (se_aes_key s) strategy (ideal_chunk file chunk_size i) = Inr (M i)"
  shows "\<exists>s'. run_send_tasks env strategy (map (ideal_chunk file chunk_size) is) s
      = Inr (map (\<lambda>i. (M i, word_of_nat i mod 4)) is, s')
    \<and> se_chunks_sent s' = se_chunks_sent s + word_of_nat (length is)"
  using assms
proof (induction "is" arbitrary: s)
  case (Cons i "is")
  define s1 where "s1 = count_bytes (ck_payloadSize (ideal_chunk file chunk_size i)) (s\<lparr>se_chunks_sent := se_chunks_sent s + 1\<rparr>)"
  have "send_task env strategy (ideal_chunk file chunk_size i) s = Inr ([(M i, word_of_nat i mod 4)], s1)"
    using Cons.prems by (simp add: send_task_def s1_def) (simp add: ideal_chunk_def Let_def)
  moreover have "se_aes_key s1 = se_aes_key s" "se_chunks_sent s1 = se_chunks_sent s + 1" by (simp_all add: s1_def count_bytes_def)
  moreover from this obtain s' where "run_send_tasks env strategy (map (ideal_chunk file chunk_size) is) s1
      = Inr (map (\<lambda>i. (M i, word_of_nat i mod 4)) is, s')" "se_chunks_sent s' = se_chunks_sent s1 + word_of_nat (length is)"
    using Cons.IH [of s1] Cons.prems by auto
  ultimately show ?case by (simp add: add.assoc)
qed simp

subsection \<open>Delivery to the receiver's pool\<close>

definition chunk_tasks :: "byte list list \<Rightarrow> (chunkWireHeader \<times> byte list) list" where
  "chunk_tasks ds = concat (map (\<lambda>d. concat (map (\<lambda>t. case t of Process_Chunk h p \<Rightarrow> [(h, p)] | Process_Handshake hs \<Rightarrow> [])
     (recv_chunk_data d))) ds)"

definition deliver :: "'ctx session_env \<Rightarrow> byte list \<Rightarrow> byte list list \<Rightarrow> session \<Rightarrow> 'ctx recv_pool" where
  "deliver env file ds s = \<lparr>rp_env = env, rp_file = file, rp_tasks = chunk_tasks ds,
     rp_pcs = map (\<lambda>(h, d). PC_Write h d) (chunk_tasks ds), rp_session = s\<rparr>"

lemma chunk_tasks_messages:
  assumes "\<forall>i\<in>set is. unat (wh_compressed_size (H i)) = length (D i)"
  shows "chunk_tasks (map (\<lambda>i. chunkWireHeader_bytes (H i) @ D i) is) = map (\<lambda>i. (H i, D i)) is"
  using assms by (induction "is") (simp_all add: chunk_tasks_def recv_chunk_message)

lemma deliver_starts:
  assumes f: "sliceable file kDefaultChunkSize" and perm: "mset is = mset [0..<num_chunks (length file) chunk_size]"
    and msg: "\<forall>i<num_chunks (length file) chunk_size. unat (wh_compressed_size (H i)) = length (D i)
      \<and> carries_chunk env (se_aes_key s) file i (H i) (D i)"
    and s: "unat (se_expectedChunks s) = num_chunks (length file) chunk_size" "\<not> se_on_progress s"
      "length (se_write_view s) = length file" "se_chunks_recv s = 0" "\<not> se_trans_complete s"
      "length (mf_completedChunks (se_current_manifest s)) = num_chunks (length file) chunk_size"
  shows "chunk_start (deliver env file (map (\<lambda>i. chunkWireHeader_bytes (H i) @ D i) is) s)"
proof -
  let ?n = "num_chunks (length file) chunk_size"
  have set: "set is = {0..<?n}" using perm by (metis atLeastLessThan_upt set_mset_mset)
  have len: "length is = ?n" using perm by (metis length_upt diff_zero size_mset)
  have dis: "distinct is" using perm by (metis distinct_upt mset_eq_imp_distinct_iff)
  have n: "?n < 2 ^ 32" using f by (simp add: sliceable_def chunk_size_def)
  have id: "task_id (H i, D i) = i" if "i \<in> set is" for i
    using msg that n by (auto simp: task_id_def carries_chunk_def set unat_word_of_nat_small)
  have tasks: "chunk_tasks (map (\<lambda>i. chunkWireHeader_bytes (H i) @ D i) is) = map (\<lambda>i. (H i, D i)) is"
    using msg set by (intro chunk_tasks_messages) auto
  have ids: "map (task_id \<circ> (\<lambda>i. (H i, D i))) is = is" using id by (intro map_idI) simp
  show ?thesis
    using f s msg set len dis id by (simp add: chunk_start_def pool_config_def deliver_def tasks ids)
qed

lemma choose_messages:
  assumes "\<forall>i<n. \<exists>h d. P i h d"
  obtains H D where "\<forall>i<n. P i (H i) (D i)"
  using assms by metis

text \<open>A permutation of the values of a list is the list of values at a permutation of its indices.\<close>

lemma map_of_multiset: "mset ys = image_mset f M \<Longrightarrow> \<exists>ks. ys = map f ks \<and> mset ks = M"
proof (induction ys arbitrary: M)
  case (Cons y ys)
  then have "y \<in># image_mset f M" by (metis list.set_intros(1) set_mset_mset)
  then obtain k where k: "k \<in># M" "y = f k" by auto
  obtain N where N: "M = add_mset k N" using multi_member_split [OF k(1)] by blast
  then have "mset ys = image_mset f N" using Cons.prems k(2) by simp
  from Cons.IH [OF this] obtain ks where "ys = map f ks" "mset ks = N" by blast
  with k(2) N show ?case by (intro exI [of _ "k # ks"]) simp
qed simp

text \<open>The messages of all chunks: sent in any order they are all sent and counted, and delivered in any
  order they are the tasks of a pool that restores the file.\<close>

lemma chunks_transferred:
  assumes f: "sliceable file kDefaultChunkSize" and c: "compressible (sv_libs env) strategy chunk_size" and g: "gcm_lawful (sv_evp env)"
    and key: "length (se_aes_key s) = 32" "se_aes_key r = se_aes_key s"
    and r: "unat (se_expectedChunks r) = num_chunks (length file) chunk_size" "\<not> se_on_progress r"
      "length (se_write_view r) = length file" "se_chunks_recv r = 0" "\<not> se_trans_complete r"
      "length (mf_completedChunks (se_current_manifest r)) = num_chunks (length file) chunk_size"
    and perm: "mset is = mset [0..<num_chunks (length file) chunk_size]"
  shows "\<exists>msgs s'. run_send_tasks env strategy (map (ideal_chunk file chunk_size) is) s = Inr (msgs, s')
    \<and> se_chunks_sent s' = se_chunks_sent s + word_of_nat (num_chunks (length file) chunk_size)
    \<and> map snd msgs = map (\<lambda>i. word_of_nat i mod 4) is \<and> (\<forall>(m, stream)\<in>set msgs. frameable m)
    \<and> (\<forall>b. (\<forall>n\<le>chunk_size. get_compress_bound (sv_libs env) n strategy \<le> b) \<longrightarrow> (\<forall>(m, stream)\<in>set msgs. length m \<le> b + 64))
    \<and> (\<forall>ds. mset ds = mset (map fst msgs) \<longrightarrow> chunk_start (deliver env file ds r))"
proof -
  let ?n = "num_chunks (length file) chunk_size"
  have n: "?n < 2 ^ 32" using f by (simp add: sliceable_def chunk_size_def)
  have cc: "compressible (sv_libs env) strategy (length (chunk_bytes file chunk_size i))" for i
    using c by (auto simp: compressible_def length_chunk_bytes)
  have "\<forall>i<?n. \<exists>h d. chunk_message env (se_aes_key s) strategy (ideal_chunk file chunk_size i) = Inr (chunkWireHeader_bytes h @ d)
    \<and> (unat (wh_compressed_size h) = length d \<and> length d < 2 ^ 31 + 16
      \<and> length d \<le> get_compress_bound (sv_libs env) (length (chunk_bytes file chunk_size i)) strategy + 16) \<and> carries_chunk env (se_aes_key s) file i h d"
  proof (intro allI impI)
    fix i assume i: "i < ?n"
    then have "i < 2 ^ 32" using n by simp
    with chunk_message_carries [OF i cc g key(1)] show "\<exists>h d. chunk_message env (se_aes_key s) strategy (ideal_chunk file chunk_size i) = Inr (chunkWireHeader_bytes h @ d)
      \<and> (unat (wh_compressed_size h) = length d \<and> length d < 2 ^ 31 + 16
      \<and> length d \<le> get_compress_bound (sv_libs env) (length (chunk_bytes file chunk_size i)) strategy + 16) \<and> carries_chunk env (se_aes_key s) file i h d"
      by blast
  qed
  then obtain H D where hd: "\<forall>i<?n. chunk_message env (se_aes_key s) strategy (ideal_chunk file chunk_size i)
      = Inr (chunkWireHeader_bytes (H i) @ D i) \<and> (unat (wh_compressed_size (H i)) = length (D i) \<and> length (D i) < 2 ^ 31 + 16
      \<and> length (D i) \<le> get_compress_bound (sv_libs env) (length (chunk_bytes file chunk_size i)) strategy + 16) \<and> carries_chunk env (se_aes_key s) file i (H i) (D i)"
    by (rule choose_messages)
  let ?M = "\<lambda>i. chunkWireHeader_bytes (H i) @ D i"
  define msgs where "msgs = map (\<lambda>i. (?M i, word_of_nat i mod 4 :: u32)) is"
  have set: "set is = {0..<?n}" using perm by (metis atLeastLessThan_upt set_mset_mset)
  have len: "length is = ?n" using perm by (metis length_upt diff_zero size_mset)
  obtain s' where s': "run_send_tasks env strategy (map (ideal_chunk file chunk_size) is) s = Inr (msgs, s')"
    "se_chunks_sent s' = se_chunks_sent s + word_of_nat (length is)"
    using run_send_tasks_works [of "is" env s strategy "file" ?M] hd set unfolding msgs_def by auto
  have "frameable (?M i)" if "i < ?n" for i
    using hd that header_codec.length_enc [of "H i"] by (auto simp: frameable_def sizeof_chunkWireHeader_def)
  then have fr: "\<forall>(m, stream)\<in>set msgs. frameable m" using set by (auto simp: msgs_def)
  have bd: "length (?M i) \<le> b + 64" if "i < ?n" "\<forall>n\<le>chunk_size. get_compress_bound (sv_libs env) n strategy \<le> b" for i b
  proof -
    have "get_compress_bound (sv_libs env) (length (chunk_bytes file chunk_size i)) strategy \<le> b" using that(2) by (simp add: length_chunk_bytes)
    moreover have "length (D i) \<le> get_compress_bound (sv_libs env) (length (chunk_bytes file chunk_size i)) strategy + 16" using hd that(1) by blast
    moreover have "length (chunkWireHeader_bytes (H i)) \<le> 48" using header_codec.length_enc [of "H i"] by (simp add: sizeof_chunkWireHeader_def)
    ultimately show ?thesis by simp
  qed
  have short: "\<forall>b. (\<forall>n\<le>chunk_size. get_compress_bound (sv_libs env) n strategy \<le> b) \<longrightarrow> (\<forall>(m, stream)\<in>set msgs. length m \<le> b + 64)"
  proof (intro allI impI)
    fix b assume "\<forall>n\<le>chunk_size. get_compress_bound (sv_libs env) n strategy \<le> b"
    then have "\<forall>i\<in>set is. length (?M i) \<le> b + 64" using bd set by simp
    then show "\<forall>(m, stream)\<in>set msgs. length m \<le> b + 64" unfolding msgs_def by simp
  qed
  have "map snd msgs = map (\<lambda>i. word_of_nat i mod 4) is" by (simp add: msgs_def)
  moreover have "chunk_start (deliver env file ds r)" if ds: "mset ds = mset (map fst msgs)" for ds
  proof -
    have "mset ds = image_mset ?M (mset is)" using ds by (simp add: msgs_def comp_def)
    from map_of_multiset [OF this] obtain ks where ks0: "ds = map ?M ks" "mset ks = mset is" by blast
    then have ks: "ds = map ?M ks" "mset ks = mset [0..<?n]" using perm by simp_all
    show ?thesis unfolding ks(1) using hd key(2) by (intro deliver_starts [OF f ks(2) _ r]) auto
  qed
  ultimately show ?thesis using s' fr short unfolding len by blast
qed

lemma delivered_run:
  assumes "chunk_start (deliver env file ds r)" and "chunk_step\<^sup>*\<^sup>* (deliver env file ds r) q"
  shows "se_trans_complete (rp_session q) \<Longrightarrow> se_write_view (rp_session q) = file"
    and "\<forall>q'. \<not> chunk_step q q' \<Longrightarrow> se_trans_complete (rp_session q)"
proof -
  have inv: "chunk_inv q" using chunk_pool.reachable_inv [OF assms] .
  have "rp_file q = file" using pool_run_const [OF assms(2)] by (simp add: deliver_def)
  then show "se_trans_complete (rp_session q) \<Longrightarrow> se_write_view (rp_session q) = file"
    using pool_complete(1) [OF inv] by simp
  show "\<forall>q'. \<not> chunk_step q q' \<Longrightarrow> se_trans_complete (rp_session q)" using pool_stuck_complete [OF inv] by blast
qed

text \<open>What the environment of a transfer provides: lawful libraries, a 32-byte hash, working system calls, a file name the receiver can convert, a
  file system with room for another name, and a file of a size the protocol can carry.\<close>

definition transfer_setup :: "'ctx session_env \<Rightarrow> os_results \<Rightarrow> handshake_os \<Rightarrow> string \<Rightarrow> byte list \<Rightarrow> bool" where
  "transfer_setup env os_s os_r path file \<longleftrightarrow>
     lz4_lawful (sv_libs env) \<and> gcm_lawful (sv_evp env) \<and> (\<forall>m. length (sv_sha env m) = 32)
   \<and> os_file os_s \<noteq> None \<and> os_mapping os_s \<noteq> None \<and> os_view os_s \<noteq> None \<and> os_works os_r (take 255 (path_filename path))
   \<and> finite {f. ho_exists os_r f} \<and> card {f. ho_exists os_r f} < 2 ^ 31 - 2
   \<and> 0 \<notin> set (bytes_of_string (path_filename path))
   \<and> sliceable file kDefaultChunkSize \<and> num_chunks (length file) chunk_size + 7 < 2 ^ 32"

text \<open>Messages delivered to the receiver \<open>r\<close>, in the order \<open>ds\<close>: in every run of the pool completion is only
  signalled when the file is there, and it is signalled when the pool comes to rest.\<close>

definition restores_file :: "'ctx session_env \<Rightarrow> byte list \<Rightarrow> session \<Rightarrow> byte list list \<Rightarrow> bool" where
  "restores_file env file r ds \<longleftrightarrow>
     (\<forall>q. chunk_step\<^sup>*\<^sup>* (deliver env file ds r) q \<longrightarrow>
        (se_trans_complete (rp_session q) \<longrightarrow> se_write_view (rp_session q) = file)
      \<and> ((\<forall>q'. \<not> chunk_step q q') \<longrightarrow> se_trans_complete (rp_session q)))"

lemma delivered_restores: "chunk_start (deliver env file ds r) \<Longrightarrow> restores_file env file r ds"
  unfolding restores_file_def using delivered_run by blast

text \<open>The whole transfer up to the receiver's pool.\<close>

lemma transfer_runs:
  assumes "transfer_setup env os_s os_r path file"
  shows "\<exists>hello s1 ack r1 s2 strategy tasks total_chunks.
      sendFile_begin env os_s now path file pin cb new_session = ([(hello, 0)], s1, None)
    \<and> receive env os_r hello (recvFile_begin dir pin new_session) = Inr ([(ack, 0)], r1)
    \<and> receive env os_r ack s1 = Inr ([], s2)
    \<and> sendFile_chunks path file s2 = Inr (Some (strategy, tasks, total_chunks), s2)
    \<and> (\<forall>is. mset is = mset [0..<length tasks] \<longrightarrow> (\<exists>msgs s3.
          run_send_tasks env strategy (map ((!) tasks) is) s2 = Inr (msgs, s3) \<and> \<not> still_sending total_chunks s3
        \<and> map snd msgs = map (\<lambda>i. word_of_nat i mod 4) is \<and> (\<forall>(m, stream)\<in>set msgs. frameable m)
        \<and> (\<forall>b. (\<forall>n\<le>chunk_size. get_compress_bound (sv_libs env) n strategy \<le> b) \<longrightarrow> (\<forall>(m, stream)\<in>set msgs. length m \<le> b + 64))
        \<and> (\<forall>ds. mset ds = mset (map fst msgs) \<longrightarrow> chunk_start (deliver env file ds r1))))
    \<and> length hello = sizeof_handshake"
proof -
  let ?n = "num_chunks (length file) chunk_size"
  have f: "sliceable file kDefaultChunkSize" and n7: "?n + 7 < 2 ^ 32" and L: "lz4_lawful (sv_libs env)"
    and g: "gcm_lawful (sv_evp env)" and sha: "length (derive_key (sv_sha env) pin) = 32"
    using assms by (auto simp: transfer_setup_def derive_key_def)
  let ?hello = "handshake_bytes (make_handshake path (word_of_nat (length file)) pin)"
  obtain m where m: "sendFile_begin env os_s now path file pin cb new_session = ([(?hello, 0)],
      new_session\<lparr>se_on_progress := cb, se_metrics := Some (new_metrics (word_of_nat (length file)) now), se_file_mapper := m,
        se_aes_key := derive_key (sv_sha env) pin\<rparr>, None)" (is "_ = (_, ?s1, None)")
    using sendFile_begin_works assms unfolding transfer_setup_def by metis
  obtain ack r1 where a: "receive env os_r ?hello (recvFile_begin dir pin new_session) = Inr ([(ack, 0)], r1)"
    and r1: "se_write_view r1 = replicate (length file) 0" "se_aes_key r1 = derive_key (sv_sha env) pin"
      "unat (se_expectedChunks r1) = ?n" "se_chunks_recv r1 = 0"
      "mf_completedChunks (se_current_manifest r1) = replicate ?n False" "\<not> se_trans_complete r1" "\<not> se_on_progress r1"
    and b: "receive env os_r ack ?s1 = Inr ([], ?s1\<lparr>se_resume_bitfield := mf_completedChunks (se_current_manifest r1), se_handshake_acked := True\<rparr>)"
      (is "_ = Inr ([], ?s2)")
    using handshake_exchange [OF f, of "recvFile_begin dir pin new_session" pin os_r path ?s1 env] assms
    by (auto simp: transfer_setup_def chunk_size_def recvFile_begin_def new_session_def)
  let ?st = "detect path (take (min 4096 (length file)) file)"
  have c: "sendFile_chunks path file ?s2 = Inr (Some (?st, map (ideal_chunk file chunk_size) [0..<?n], word_of_nat ?n), ?s2)"
    using f r1(5) by (intro sendFile_chunks_all [of _ _ ?n]) (simp_all add: new_session_def)
  have comp: "compressible (sv_libs env) ?st chunk_size"
    using L detect_cases by (auto simp: compressible_def chunk_size_value lz4_max_input_def)
  have perm: "map ((!) (map (ideal_chunk file chunk_size) [0..<?n])) is = map (ideal_chunk file chunk_size) is"
    if "mset is = mset [0..<?n]" for "is"
  proof -
    have "set is = {0..<?n}" using that by (metis atLeastLessThan_upt set_mset_mset)
    then show ?thesis by auto
  qed
  have fin: "\<exists>msgs s3. run_send_tasks env ?st (map ((!) (map (ideal_chunk file chunk_size) [0..<?n])) is) ?s2 = Inr (msgs, s3)
      \<and> \<not> still_sending (word_of_nat ?n) s3
      \<and> map snd msgs = map (\<lambda>i. word_of_nat i mod 4) is \<and> (\<forall>(m, stream)\<in>set msgs. frameable m)
      \<and> (\<forall>b. (\<forall>n\<le>chunk_size. get_compress_bound (sv_libs env) n ?st \<le> b) \<longrightarrow> (\<forall>(m, stream)\<in>set msgs. length m \<le> b + 64))
      \<and> (\<forall>ds. mset ds = mset (map fst msgs) \<longrightarrow> chunk_start (deliver env file ds r1))"
    if isp: "mset is = mset [0..<?n]" for "is"
  proof -
    have k: "length (se_aes_key ?s2) = 32" "se_aes_key r1 = se_aes_key ?s2" using sha r1(2) by simp_all
    have r: "length (se_write_view r1) = length file" "length (mf_completedChunks (se_current_manifest r1)) = ?n" using r1(1,5) by simp_all
    obtain msgs s3 where t0: "run_send_tasks env ?st (map (ideal_chunk file chunk_size) is) ?s2 = Inr (msgs, s3)"
      "se_chunks_sent s3 = se_chunks_sent ?s2 + word_of_nat ?n"
      and t: "map snd msgs = map (\<lambda>i. word_of_nat i mod 4) is" "\<forall>(m, stream)\<in>set msgs. frameable m"
      "\<forall>b. (\<forall>n\<le>chunk_size. get_compress_bound (sv_libs env) n ?st \<le> b) \<longrightarrow> (\<forall>(m, stream)\<in>set msgs. length m \<le> b + 64)"
      "\<forall>ds. mset ds = mset (map fst msgs) \<longrightarrow> chunk_start (deliver env file ds r1)"
      using chunks_transferred [OF f comp g k r1(3,7) r(1) r1(4,6) r(2) isp] by (elim exE conjE) (rule that, assumption+)
    have sent: "se_chunks_sent s3 = word_of_nat ?n" using t0(2) by (simp add: new_session_def)
    have "\<not> still_sending (word_of_nat ?n) s3" by (simp add: still_sending_def sent)
    with t0(1) t show ?thesis unfolding perm [OF isp] by blast
  qed
  show ?thesis
    by (rule exI [of _ ?hello], rule exI [of _ ?s1], rule exI [of _ ack], rule exI [of _ r1], rule exI [of _ ?s2], rule exI [of _ ?st],
        rule exI [of _ "map (ideal_chunk file chunk_size) [0..<?n]"], rule exI [of _ "word_of_nat ?n"])
      (intro conjI allI impI m a b c, rule fin, simp, rule handshake_codec.length_enc, rule length_make_handshake_name)
qed

subsection \<open>Properties\<close>

text \<open>C2: end to end.  With the same PIN on both sides a transfer runs through: the handshake is accepted
  and acknowledged, the sender submits every chunk, and for every order in which its pool runs the tasks
  all of them are sent, each on the stream of its number and short enough to be framed, and the sender's
  wait ends.  For every order in which the messages arrive and every interleaving of the receiver's pool,
  the receiver signals completion only when its file equals the file sent, and always does when its pool
  comes to rest.\<close>

theorem file_transfer_end_to_end:
  assumes "transfer_setup env os_s os_r path file"
  shows "\<exists>hello s1 ack r1 s2 strategy tasks total_chunks.
      sendFile_begin env os_s now path file pin cb new_session = ([(hello, 0)], s1, None)
    \<and> receive env os_r hello (recvFile_begin dir pin new_session) = Inr ([(ack, 0)], r1)
    \<and> receive env os_r ack s1 = Inr ([], s2)
    \<and> sendFile_chunks path file s2 = Inr (Some (strategy, tasks, total_chunks), s2)
    \<and> (\<forall>is. mset is = mset [0..<length tasks] \<longrightarrow> (\<exists>msgs s3.
          run_send_tasks env strategy (map ((!) tasks) is) s2 = Inr (msgs, s3) \<and> \<not> still_sending total_chunks s3
        \<and> map snd msgs = map (\<lambda>i. word_of_nat i mod 4) is \<and> (\<forall>(m, stream)\<in>set msgs. frameable m)
        \<and> (\<forall>js. mset js = mset [0..<length msgs] \<longrightarrow> restores_file env file r1 (map (\<lambda>j. fst (msgs ! j)) js))))"
proof -
  obtain hello s1 ack r1 s2 strategy tasks total_chunks where
    h: "sendFile_begin env os_s now path file pin cb new_session = ([(hello, 0)], s1, None)"
      "receive env os_r hello (recvFile_begin dir pin new_session) = Inr ([(ack, 0)], r1)"
      "receive env os_r ack s1 = Inr ([], s2)"
      "sendFile_chunks path file s2 = Inr (Some (strategy, tasks, total_chunks), s2)"
    and run: "\<forall>is. mset is = mset [0..<length tasks] \<longrightarrow> (\<exists>msgs s3.
          run_send_tasks env strategy (map ((!) tasks) is) s2 = Inr (msgs, s3) \<and> \<not> still_sending total_chunks s3
        \<and> map snd msgs = map (\<lambda>i. word_of_nat i mod 4) is \<and> (\<forall>(m, stream)\<in>set msgs. frameable m)
        \<and> (\<forall>b. (\<forall>n\<le>chunk_size. get_compress_bound (sv_libs env) n strategy \<le> b) \<longrightarrow> (\<forall>(m, stream)\<in>set msgs. length m \<le> b + 64))
        \<and> (\<forall>ds. mset ds = mset (map fst msgs) \<longrightarrow> chunk_start (deliver env file ds r1)))"
    using transfer_runs [OF assms, of now pin cb dir] by (elim exE conjE) (rule that, assumption+)
  have "\<exists>msgs s3. run_send_tasks env strategy (map ((!) tasks) is) s2 = Inr (msgs, s3) \<and> \<not> still_sending total_chunks s3
      \<and> map snd msgs = map (\<lambda>i. word_of_nat i mod 4) is \<and> (\<forall>(m, stream)\<in>set msgs. frameable m)
      \<and> (\<forall>js. mset js = mset [0..<length msgs] \<longrightarrow> restores_file env file r1 (map (\<lambda>j. fst (msgs ! j)) js))"
    if isp: "mset is = mset [0..<length tasks]" for "is"
  proof -
    obtain msgs s3 where m: "run_send_tasks env strategy (map ((!) tasks) is) s2 = Inr (msgs, s3)" "\<not> still_sending total_chunks s3"
      "map snd msgs = map (\<lambda>i. word_of_nat i mod 4) is" "\<forall>(m, stream)\<in>set msgs. frameable m"
      and st: "\<And>ds. mset ds = mset (map fst msgs) \<Longrightarrow> chunk_start (deliver env file ds r1)"
      using run [rule_format, OF isp] by blast
    have "mset (map (\<lambda>j. fst (msgs ! j)) js) = mset (map fst msgs)" if "mset js = mset [0..<length msgs]" for js
    proof -
      have "mset (map (\<lambda>j. fst (msgs ! j)) js) = mset (map (\<lambda>j. fst (msgs ! j)) [0..<length msgs])" using that by (simp only: mset_map)
      also have "map (\<lambda>j. fst (msgs ! j)) [0..<length msgs] = map fst msgs" by (rule nth_equalityI) simp_all
      finally show ?thesis .
    qed
    then have "\<forall>js. mset js = mset [0..<length msgs] \<longrightarrow> restores_file env file r1 (map (\<lambda>j. fst (msgs ! j)) js)"
      using delivered_restores [OF st] by blast
    with m show ?thesis by blast
  qed
  with h show ?thesis by blast
qed

definition sample_open :: os_results where
  "sample_open = \<lparr>os_file = Some 7, os_mapping = Some 8, os_view = Some 9\<rparr>"

lemma sample_setup: "transfer_setup sample_env sample_open sample_os ''a.txt'' small_file"
  using sample_os_works a_txt_bytes small_file_chunks
  by (simp add: transfer_setup_def sample_env_def stored_libs_lawful mask_evp_lawful sample_open_def chunk_size_def path_filename_def is_sep_def)

lemma file_transfer_end_to_end_witness:
  "\<exists>hello s1 ack r1 s2 strategy tasks total_chunks msgs s3 q.
      sendFile_begin sample_env sample_open 0 ''a.txt'' small_file 123456 True new_session = ([(hello, 0)], s1, None)
    \<and> receive sample_env sample_os hello (recvFile_begin ''out'' 123456 new_session) = Inr ([(ack, 0)], r1)
    \<and> receive sample_env sample_os ack s1 = Inr ([], s2)
    \<and> sendFile_chunks ''a.txt'' small_file s2 = Inr (Some (strategy, tasks, total_chunks), s2)
    \<and> run_send_tasks sample_env strategy (map ((!) tasks) [0..<length tasks]) s2 = Inr (msgs, s3)
    \<and> chunk_step\<^sup>*\<^sup>* (deliver sample_env small_file (map (\<lambda>j. fst (msgs ! j)) [0..<length msgs]) r1) q
    \<and> se_trans_complete (rp_session q) \<and> se_write_view (rp_session q) = small_file"
proof -
  obtain hello s1 ack r1 s2 strategy tasks total_chunks where
    h: "sendFile_begin sample_env sample_open 0 ''a.txt'' small_file 123456 True new_session = ([(hello, 0)], s1, None)"
      "receive sample_env sample_os hello (recvFile_begin ''out'' 123456 new_session) = Inr ([(ack, 0)], r1)"
      "receive sample_env sample_os ack s1 = Inr ([], s2)"
      "sendFile_chunks ''a.txt'' small_file s2 = Inr (Some (strategy, tasks, total_chunks), s2)"
    and run: "\<forall>is. mset is = mset [0..<length tasks] \<longrightarrow> (\<exists>msgs s3.
          run_send_tasks sample_env strategy (map ((!) tasks) is) s2 = Inr (msgs, s3) \<and> \<not> still_sending total_chunks s3
        \<and> map snd msgs = map (\<lambda>i. word_of_nat i mod 4) is \<and> (\<forall>(m, stream)\<in>set msgs. frameable m)
        \<and> (\<forall>js. mset js = mset [0..<length msgs] \<longrightarrow> restores_file sample_env small_file r1 (map (\<lambda>j. fst (msgs ! j)) js)))"
    using file_transfer_end_to_end [OF sample_setup, of 0 123456 True "''out''"] by (elim exE conjE) (rule that, assumption+)
  obtain msgs s3 where m: "run_send_tasks sample_env strategy (map ((!) tasks) [0..<length tasks]) s2 = Inr (msgs, s3)"
    and fin: "\<forall>js. mset js = mset [0..<length msgs] \<longrightarrow> restores_file sample_env small_file r1 (map (\<lambda>j. fst (msgs ! j)) js)"
    using run [rule_format, OF refl] by (elim exE conjE) (rule that, assumption+)
  obtain q where q: "chunk_step\<^sup>*\<^sup>* (deliver sample_env small_file (map (\<lambda>j. fst (msgs ! j)) [0..<length msgs]) r1) q"
    "\<forall>r. \<not> chunk_step q r" using pool_run_ends by blast
  have "restores_file sample_env small_file r1 (map (\<lambda>j. fst (msgs ! j)) [0..<length msgs])" using fin by blast
  then have "se_trans_complete (rp_session q) \<and> se_write_view (rp_session q) = small_file"
    using q unfolding restores_file_def by blast
  with q h m show ?thesis by blast
qed

lemma submit_chunks_filter:
  "submit_chunks resume chunks s = (tasks, s') \<Longrightarrow>
    tasks = filter (\<lambda>c. \<not> (unat (ck_id c) < length resume \<and> resume ! unat (ck_id c))) chunks
    \<and> se_chunks_sent s' + word_of_nat (length tasks) = se_chunks_sent s + word_of_nat (length chunks)"
proof (induction chunks arbitrary: s tasks)
  case (Cons c chunks)
  show ?case
  proof (cases "unat (ck_id c) < length resume \<and> resume ! unat (ck_id c)")
    case True
    with Cons.prems Cons.IH [of "s\<lparr>se_chunks_sent := se_chunks_sent s + 1\<rparr>" tasks] show ?thesis by (auto simp: ac_simps)
  next
    case False
    then obtain ts where "submit_chunks resume chunks s = (ts, s')" "tasks = c # ts"
      using Cons.prems by (auto split: prod.splits)
    with Cons.IH [of s ts] False show ?thesis by (auto simp: ac_simps)
  qed
qed simp

lemma run_send_tasks_count:
  "run_send_tasks env strategy chunks s = Inr (out, s') \<Longrightarrow>
    se_chunks_sent s' = se_chunks_sent s + word_of_nat (length out) \<and> length out \<le> length chunks
    \<and> ((\<exists>c\<in>set chunks. \<exists>what. chunk_message env (se_aes_key s) strategy c = Inl (Throw what)) \<longrightarrow> length out < length chunks)"
proof (induction chunks arbitrary: s out)
  case (Cons c chunks)
  obtain o1 s1 o2 where t: "send_task env strategy c s = Inr (o1, s1)" and r: "run_send_tasks env strategy chunks s1 = Inr (o2, s')"
    and o: "out = o1 @ o2" using Cons.prems by (auto simp: bind_result_Inr_iff)
  have s1: "se_aes_key s1 = se_aes_key s" "se_chunks_sent s1 = se_chunks_sent s + word_of_nat (length o1)" "length o1 \<le> 1"
    "\<And>what. chunk_message env (se_aes_key s) strategy c = Inl (Throw what) \<Longrightarrow> o1 = []"
    using t by (auto simp: send_task_def count_bytes_def split: sum.splits failure.splits)
  from Cons.IH [OF r] s1 show ?case by (auto simp: o add.assoc)
qed simp

text \<open>C22: a chunk whose compression or encryption throws is never counted, so once every task has run, the
  condition on which \<open>sendFile\<close> waits still holds and no task is left that could change it: the sender
  waits for ever.  Without such a failure the wait ends.  The chunks the receiver already has are
  counted and not sent again.\<close>

theorem failed_chunk_blocks_sender:
  assumes "submit_chunks (se_resume_bitfield s) chunks s = (tasks, s1)" and "se_chunks_sent s = 0" and "length chunks < 2 ^ 32"
    and "run_send_tasks env strategy tasks s1 = Inr (out, s2)"
  shows "tasks = filter (\<lambda>c. \<not> (unat (ck_id c) < length (se_resume_bitfield s) \<and> se_resume_bitfield s ! unat (ck_id c))) chunks
    \<and> (still_sending (word_of_nat (length chunks)) s2 \<longleftrightarrow> length out < length tasks)
    \<and> ((\<exists>c\<in>set tasks. \<exists>what. chunk_message env (se_aes_key s1) strategy c = Inl (Throw what)) \<longrightarrow>
        still_sending (word_of_nat (length chunks)) s2)"
proof -
  note f = submit_chunks_filter [OF assms(1)] and r = run_send_tasks_count [OF assms(4)]
  have lt: "length tasks \<le> length chunks" using f by simp
  have "se_chunks_sent s1 = word_of_nat (length chunks) - word_of_nat (length tasks)" 
    using conjunct2 [OF f] assms(2) by (simp only: add_0 eq_diff_eq)
  then have "se_chunks_sent s2 = word_of_nat (length chunks - length tasks + length out)" using r lt by (simp add: of_nat_diff)
  moreover have "length chunks - length tasks + length out \<le> length chunks" using r lt by linarith
  then have "unat (word_of_nat (length chunks - length tasks + length out) :: u32) = length chunks - length tasks + length out"
    using assms(3) by (intro unat_word_of_nat_small) simp
  ultimately have "unat (se_chunks_sent s2) = length chunks - length tasks + length out" by (simp only:)
  moreover have "unat (word_of_nat (length chunks) :: u32) = length chunks" using assms(3) by (simp add: unat_word_of_nat_small)
  ultimately have "still_sending (word_of_nat (length chunks)) s2 \<longleftrightarrow> length out < length tasks"
    using lt by (auto simp: still_sending_def word_less_nat_alt)
  with f r show ?thesis by blast
qed

text \<open>Libraries whose allocation of cipher contexts fails.\<close>

definition failing_env :: "(byte list \<times> byte list \<times> byte list) session_env" where
  "failing_env = sample_env\<lparr>sv_evp := mask_evp\<lparr>evp_ctx_new := None\<rparr>\<rparr>"

lemma failed_chunk_blocks_sender_witness:
  "run_send_tasks failing_env NONE [ideal_chunk small_file chunk_size 0] new_session = Inr ([], new_session)
    \<and> still_sending 1 new_session"
proof -
  let ?c = "ideal_chunk small_file chunk_size 0"
  have p: "unat (ck_payloadSize ?c) = 3" "ck_data ?c = small_file"
    by (simp_all add: ideal_chunk_def Let_def small_file_def chunk_bytes_def chunk_size_value)
  have l: "length small_file = 3" by (simp add: small_file_def)
  have m: "chunk_message failing_env k NONE ?c = Inl (Throw ''failed to create EVP context'')" for k
    by (simp add: chunk_message_def p get_compress_bound_def compress_def overlay_def failing_env_def encrypt_def Let_def l)
  have r: "run_send_tasks failing_env NONE [?c] new_session = Inr ([], new_session)" by (simp add: send_task_def m)
  have s: "submit_chunks (se_resume_bitfield new_session) [?c] new_session = ([?c], new_session)" by (simp add: new_session_def)
  show ?thesis using failed_chunk_blocks_sender [OF s _ _ r] r m by (simp add: new_session_def)
qed

end
