(* ===== verification/Full_Stack.thy ===== *)
theory Full_Stack
  imports Kcp_Liveness File_Transfer
begin

text \<open>
  The layers together: the sender's pool puts its messages as frames on the streams of the transport, KCP carries
  every stream over a network that loses, duplicates and reorders datagrams, the receive loop hands
  complete frames to the session, and the session's pool works on the chunks while others still arrive.
\<close>

subsection \<open>Chunks that arrive while the pool is running\<close>

definition add_tasks :: "(chunkWireHeader \<times> byte list) list \<Rightarrow> 'ctx recv_pool \<Rightarrow> 'ctx recv_pool" where
  "add_tasks ts p = p\<lparr>rp_tasks := rp_tasks p @ ts, rp_pcs := rp_pcs p @ map (\<lambda>(h, d). PC_Write h d) ts\<rparr>"

text \<open>The messages still to be handed over, in order, and the pool.\<close>

inductive arrival_step :: "byte list list \<times> 'ctx recv_pool \<Rightarrow> byte list list \<times> 'ctx recv_pool \<Rightarrow> bool" where
  arrive: "arrival_step (d # ds, p) (ds, add_tasks (chunk_tasks [d]) p)"
| work: "chunk_step p q \<Longrightarrow> arrival_step (ds, p) (ds, q)"

lemma add_tasks_step: "chunk_step p q \<Longrightarrow> chunk_step (add_tasks ts p) (add_tasks ts q)"
proof (induction rule: chunk_step.induct)
  case (step j p now pc s)
  have "chunk_step (add_tasks ts p) ((add_tasks ts p)\<lparr>rp_pcs := (rp_pcs (add_tasks ts p))[j := pc], rp_session := s\<rparr>)"
    by (rule chunk_step.step [of j _ now]) (use step in \<open>simp_all add: add_tasks_def nth_append\<close>)
  moreover have "(add_tasks ts p)\<lparr>rp_pcs := (rp_pcs (add_tasks ts p))[j := pc], rp_session := s\<rparr>
      = add_tasks ts (p\<lparr>rp_pcs := (rp_pcs p)[j := pc], rp_session := s\<rparr>)"
    using step(1) by (simp add: add_tasks_def list_update_append)
  ultimately show ?case by simp
qed

lemma add_tasks_append: "add_tasks us (add_tasks ts p) = add_tasks (ts @ us) p"
  by (simp add: add_tasks_def)

lemma chunk_tasks_Cons: "chunk_tasks (d # ds) = chunk_tasks [d] @ chunk_tasks ds"
  by (simp add: chunk_tasks_def)

lemma chunk_tasks_append: "chunk_tasks (ds @ es) = chunk_tasks ds @ chunk_tasks es"
  by (simp add: chunk_tasks_def)

text \<open>A run with arrivals is a run of the pool that had all tasks from the start.\<close>

lemma arrival_run:
  "arrival_step\<^sup>*\<^sup>* l l' \<Longrightarrow> chunk_step\<^sup>*\<^sup>* (add_tasks (chunk_tasks (fst l @ es)) (snd l)) (add_tasks (chunk_tasks (fst l' @ es)) (snd l'))"
proof (induction rule: rtranclp_induct)
  case (step l1 l2)
  from step.hyps(2) show ?case
  proof cases
    case (arrive d ds p)
    then show ?thesis using step.IH by (simp add: add_tasks_append flip: chunk_tasks_Cons)
  next
    case (work p q ds)
    then show ?thesis using step.IH add_tasks_step by (auto intro: rtranclp.rtrancl_into_rtrancl)
  qed
qed simp

lemma deliver_add_tasks: "add_tasks (chunk_tasks ds) (deliver env file [] s) = deliver env file ds s"
  by (simp add: add_tasks_def deliver_def chunk_tasks_def)

lemma arrival_pool:
  assumes "arrival_step\<^sup>*\<^sup>* (ds, deliver env file [] r) (ds', q)"
  shows "chunk_step\<^sup>*\<^sup>* (deliver env file (ds @ es) r) (add_tasks (chunk_tasks (ds' @ es)) q)"
  using arrival_run [OF assms, of es] by (simp add: deliver_add_tasks)

text \<open>Some of the chunk messages arrive, others may not: completion is never signalled without the file; and
  when all have arrived and the pool is at rest, it is signalled.\<close>

lemma arrival_safe:
  assumes st: "\<And>ds. mset ds = M \<Longrightarrow> chunk_start (deliver env file ds r)"
    and sub: "mset ds \<subseteq># M" and run: "arrival_step\<^sup>*\<^sup>* (ds, deliver env file [] r) (ds', q)"
  shows "se_trans_complete (rp_session q) \<Longrightarrow> se_write_view (rp_session q) = file"
    and "mset ds = M \<Longrightarrow> ds' = [] \<Longrightarrow> \<forall>q'. \<not> chunk_step q q' \<Longrightarrow> se_trans_complete (rp_session q)"
proof -
  obtain es where es: "mset es = M - mset ds" using ex_mset by blast
  then have "mset (ds @ es) = M" using sub by simp
  from delivered_run(1) [OF st [OF this] arrival_pool [OF run]]
  show "se_trans_complete (rp_session q) \<Longrightarrow> se_write_view (rp_session q) = file" by (simp add: add_tasks_def)
  assume all: "mset ds = M" "ds' = []" and rest: "\<forall>q'. \<not> chunk_step q q'"
  have "add_tasks (chunk_tasks ([] @ [])) q = q" by (simp add: add_tasks_def chunk_tasks_def)
  then have "chunk_step\<^sup>*\<^sup>* (deliver env file ds r) q" using arrival_pool [OF run, of "[]"] all(2) by simp
  from delivered_run(2) [OF st [OF all(1)] this rest] show "se_trans_complete (rp_session q)" .
qed

subsection \<open>The streams\<close>

text \<open>What the sender puts on stream \<open>k\<close>: the handshake is the first message of stream 0, and every chunk message
  goes to the stream its task chose.\<close>

definition stream_messages :: "byte list \<Rightarrow> outgoing \<Rightarrow> nat \<Rightarrow> byte list list" where
  "stream_messages hello msgs k = (if k = 0 then [hello] else []) @ map fst (filter (\<lambda>m. unat (snd m) = k) msgs)"

text \<open>Every stream is a reachable state of a KCP connection with the identifier of \<open>open_streams\<close>; its sender has
  sent the frames of its messages, or the first part of them.\<close>

definition carried :: "byte list \<Rightarrow> outgoing \<Rightarrow> (nat \<Rightarrow> link) \<Rightarrow> bool" where
  "carried hello msgs net \<longleftrightarrow> (\<forall>k<kNumStreams. link_step\<^sup>*\<^sup>* (new_link (kc_conv (open_streams conv_id ! k))) (net k)
     \<and> prefix (ep_sent (fst (net k))) (concat (map frame (stream_messages hello msgs k))))"

definition all_sent :: "byte list \<Rightarrow> outgoing \<Rightarrow> (nat \<Rightarrow> link) \<Rightarrow> bool" where
  "all_sent hello msgs net \<longleftrightarrow> (\<forall>k<kNumStreams. ep_sent (fst (net k)) = concat (map frame (stream_messages hello msgs k)))"

text \<open>\<open>get_wait_snd\<close> of every stream is 0 and the receiver has read everything.\<close>

definition net_idle :: "(nat \<Rightarrow> link) \<Rightarrow> bool" where
  "net_idle net \<longleftrightarrow> (\<forall>k<kNumStreams. ikcp_waitsnd (ep_kcp (fst (net k))) = 0 \<and> kc_rcv_queue (ep_kcp (snd (net k))) = [])"

text \<open>The chunk messages the receive loop has handed over on stream \<open>k\<close>, by the loop \<open>extract_frames\<close> runs on
  the bytes KCP has delivered; the first message of stream 0 is the handshake.\<close>

definition handed_over :: "link \<Rightarrow> byte list list" where
  "handed_over l = (case extract_frames (ep_got (snd l)) of Inl e \<Rightarrow> [] | Inr (frames, rest) \<Rightarrow> frames)"

definition chunks_in :: "(nat \<Rightarrow> link) \<Rightarrow> nat \<Rightarrow> byte list list" where
  "chunks_in net k = (if k = 0 then drop 1 (handed_over (net k)) else handed_over (net k))"

lemma handed_over_prefix:
  assumes "link_step\<^sup>*\<^sup>* (new_link c) l" and "prefix (ep_sent (fst l)) (concat (map frame ms))" and "\<forall>m\<in>set ms. frameable m"
  shows "prefix (handed_over l) ms"
    and "ep_sent (fst l) = concat (map frame ms) \<Longrightarrow> ikcp_waitsnd (ep_kcp (fst l)) = 0 \<Longrightarrow> kc_rcv_queue (ep_kcp (snd l)) = []
      \<Longrightarrow> handed_over l = ms"
proof -
  have inv: "link_inv (fst l, snd l)" using reachable_link_inv [OF assms(1)] by simp
  have p: "prefix (ep_got (snd l)) (concat (map frame ms))"
    using link_prefix(1) [OF inv] assms(2) by (rule prefix_order.trans)
  obtain n rest where "extract_frames (ep_got (snd l)) = Inr (take n ms, rest)" using extract_of_prefix(1) [OF p assms(3)] by blast
  then show "prefix (handed_over l) ms" by (simp add: handed_over_def take_is_prefix)
  assume idle: "ep_sent (fst l) = concat (map frame ms)" "ikcp_waitsnd (ep_kcp (fst l)) = 0" "kc_rcv_queue (ep_kcp (snd l)) = []"
  then have "ep_got (snd l) = concat (map frame ms)" using link_idle [OF inv] by simp
  from extract_of_prefix(2) [OF p assms(3) this] show "handed_over l = ms" by (simp add: handed_over_def)
qed

lemma streams_partition:
  assumes "\<forall>m\<in>set msgs. unat (snd m) < n"
  shows "(\<Sum>k<n. mset (filter (\<lambda>m. unat (snd m) = k) msgs)) = mset msgs"
  using assms
proof (induction msgs)
  case (Cons m msgs)
  have "(\<Sum>k<n. mset (filter (\<lambda>m. unat (snd m) = k) (m # msgs)))
      = (\<Sum>k<n. (if unat (snd m) = k then {#m#} else {#}) + mset (filter (\<lambda>m. unat (snd m) = k) msgs))"
    by (intro sum.cong) auto
  also have "\<dots> = (\<Sum>k<n. if unat (snd m) = k then {#m#} else {#}) + mset msgs"
    using Cons by (simp add: sum.distrib)
  also have "(\<Sum>k<n. if unat (snd m) = k then {#m#} else {#}) = {#m#}" using Cons.prems by (simp add: sum.delta')
  finally show ?case by simp
qed simp

lemma sum_subset_mset: "\<forall>k<(n::nat). A k \<subseteq># B k \<Longrightarrow> (\<Sum>k<n. A k :: 'a multiset) \<subseteq># (\<Sum>k<n. B k)"
  by (induction n) (auto intro: subset_mset.add_mono)

lemma sum_image_mset: "(\<Sum>k<(n::nat). image_mset f (A k)) = image_mset f (\<Sum>k<n. A k)"
  by (induction n) auto

lemma arrived_chunks:
  assumes c: "carried hello msgs net" and h: "frameable hello" and m: "\<forall>(m, stream)\<in>set msgs. frameable m"
    and streams: "\<forall>m\<in>set msgs. unat (snd m) < kNumStreams"
  shows "(\<Sum>k<kNumStreams. mset (chunks_in net k)) \<subseteq># mset (map fst msgs)"
    and "all_sent hello msgs net \<Longrightarrow> net_idle net \<Longrightarrow> (\<Sum>k<kNumStreams. mset (chunks_in net k)) = mset (map fst msgs)"
proof -
  let ?S = "\<lambda>k. map fst (filter (\<lambda>m. unat (snd m) = k) msgs)"
  have fr: "\<forall>x\<in>set (stream_messages hello msgs k). frameable x" for k using h m by (auto simp: stream_messages_def)
  have part: "(\<Sum>k<kNumStreams. mset (?S k)) = mset (map fst msgs)"
    using streams_partition [OF streams] by (simp add: sum_image_mset)
  have "mset (chunks_in net k) \<subseteq># mset (?S k)" if k: "k < kNumStreams" for k
  proof -
    have "prefix (handed_over (net k)) (stream_messages hello msgs k)"
      using c k fr by (intro handed_over_prefix(1)) (auto simp: carried_def)
    then obtain zs where z: "stream_messages hello msgs k = handed_over (net k) @ zs" by (auto elim: prefixE)
    show ?thesis
    proof (cases "k = 0")
      case True
      then have z0: "hello # ?S k = handed_over (net k) @ zs" using z by (simp add: stream_messages_def)
      show ?thesis
      proof (cases "handed_over (net k)")
        case (Cons d ds)
        with z0 have "?S k = ds @ zs" by simp
        then have "mset (?S k) = mset ds + mset zs" by (simp only: mset_append)
        then show ?thesis using Cons True by (simp add: chunks_in_def del: mset_map)
      qed (simp_all add: chunks_in_def True)
    next
      case False
      then have "?S k = handed_over (net k) @ zs" using z by (simp add: stream_messages_def)
      then have "mset (?S k) = mset (handed_over (net k)) + mset zs" by (simp only: mset_append)
      then show ?thesis using False by (simp add: chunks_in_def del: mset_map)
    qed
  qed
  then show "(\<Sum>k<kNumStreams. mset (chunks_in net k)) \<subseteq># mset (map fst msgs)"
    unfolding part [symmetric] by (intro sum_subset_mset) blast
  assume fin: "all_sent hello msgs net" "net_idle net"
  have "chunks_in net k = ?S k" if k: "k < kNumStreams" for k
  proof -
    have "handed_over (net k) = stream_messages hello msgs k"
      using c k fr fin by (intro handed_over_prefix(2)) (auto simp: carried_def all_sent_def net_idle_def)
    then show ?thesis by (cases "k = 0") (simp_all add: chunks_in_def stream_messages_def)
  qed
  then have "(\<Sum>k<kNumStreams. mset (chunks_in net k)) = (\<Sum>k<kNumStreams. mset (?S k))" by (intro sum.cong) auto
  then show "(\<Sum>k<kNumStreams. mset (chunks_in net k)) = mset (map fst msgs)" using part by simp
qed

text \<open>From every state of the network in which all is sent, a continuation delivers all of it.\<close>

lemma network_finishes:
  assumes "carried hello msgs net" and "all_sent hello msgs net"
  shows "\<exists>net'. (\<forall>k<kNumStreams. link_step\<^sup>*\<^sup>* (net k) (net' k)) \<and> carried hello msgs net' \<and> all_sent hello msgs net' \<and> net_idle net'"
proof -
  have "\<exists>l. link_step\<^sup>*\<^sup>* (net k) l \<and> ep_sent (fst l) = ep_sent (fst (net k)) \<and> ikcp_waitsnd (ep_kcp (fst l)) = 0
      \<and> kc_rcv_queue (ep_kcp (snd l)) = []" if "k < kNumStreams" for k
    using link_can_finish [of "kc_conv (open_streams conv_id ! k)" "fst (net k)" "snd (net k)"] assms(1) that
    by (fastforce simp: carried_def)
  then obtain net' where n: "\<And>k. k < kNumStreams \<Longrightarrow> link_step\<^sup>*\<^sup>* (net k) (net' k) \<and> ep_sent (fst (net' k)) = ep_sent (fst (net k))
      \<and> ikcp_waitsnd (ep_kcp (fst (net' k))) = 0 \<and> kc_rcv_queue (ep_kcp (snd (net' k))) = []" by metis
  have "carried hello msgs net'" using assms(1) n unfolding carried_def by (metis rtranclp_trans)
  moreover have "all_sent hello msgs net'" using assms(2) n by (simp add: all_sent_def)
  ultimately show ?thesis using n by (intro exI [of _ net']) (simp add: net_idle_def)
qed

text \<open>When the frames of a stream fit the sequence numbers, the loop of \<open>sendChunk\<close> puts all of them on it.\<close>

lemma network_sends:
  assumes "\<And>k. k < kNumStreams \<Longrightarrow> length (concat (map frame (stream_messages hello msgs k))) \<le> 2 ^ 30"
  shows "\<exists>net. carried hello msgs net \<and> all_sent hello msgs net"
proof -
  have "\<exists>l. link_step\<^sup>*\<^sup>* (new_link (kc_conv (open_streams conv_id ! k))) l \<and> ep_sent (fst l) = concat (map frame (stream_messages hello msgs k))"
    if k: "k < kNumStreams" for k
  proof -
    let ?c = "kc_conv (open_streams conv_id ! k)" and ?raw = "concat (map frame (stream_messages hello msgs k))"
    have inv: "link_inv (new_endpoint ?c, new_endpoint ?c)" using reachable_link_inv [OF rtranclp.rtrancl_refl, of ?c] by (simp add: new_link_def)
    have "unat (kc_snd_nxt (new_stream ?c)) + length (kc_snd_queue (new_stream ?c)) + (length ?raw - nat 0) \<le> 2 ^ 30"
      using assms [OF k] by simp
    moreover have "length ?raw < 2 ^ 31" using assms [OF k] by simp
    ultimately obtain x where "link_step\<^sup>*\<^sup>* (new_endpoint ?c, new_endpoint ?c) (x, new_endpoint ?c)" "ep_sent x = [] @ drop (nat 0) ?raw"
      using send_pieces_steps [OF inv, of "new_stream ?c" 0 ?raw] by (auto simp: new_endpoint_def)
    then show ?thesis by (intro exI [of _ "(x, new_endpoint ?c)"]) (simp add: new_link_def)
  qed
  then obtain net where "\<And>k. k < kNumStreams \<Longrightarrow> link_step\<^sup>*\<^sup>* (new_link (kc_conv (open_streams conv_id ! k))) (net k)
      \<and> ep_sent (fst (net k)) = concat (map frame (stream_messages hello msgs k))" by metis
  then have "carried hello msgs net \<and> all_sent hello msgs net" by (simp add: carried_def all_sent_def)
  then show ?thesis by blast
qed

lemma arrive_all: "arrival_step\<^sup>*\<^sup>* (ds, p) ([], add_tasks (chunk_tasks ds) p)"
proof (induction ds arbitrary: p)
  case Nil
  then show ?case by (simp add: add_tasks_def chunk_tasks_def)
next
  case (Cons d ds)
  have "arrival_step\<^sup>*\<^sup>* (d # ds, p) ([], add_tasks (chunk_tasks ds) (add_tasks (chunk_tasks [d]) p))"
    by (rule converse_rtranclp_into_rtranclp [OF arrival_step.arrive Cons.IH])
  then show ?case unfolding add_tasks_append chunk_tasks_Cons [of d ds, symmetric] .
qed

lemma arrival_work: "chunk_step\<^sup>*\<^sup>* p q \<Longrightarrow> arrival_step\<^sup>*\<^sup>* (ds, p) (ds, q)"
  by (induction rule: rtranclp_induct) (auto intro: arrival_step.work rtranclp.rtrancl_into_rtrancl)

text \<open>What has arrived of a transfer whose chunks are \<open>msgs\<close>, whatever the network and the pool did.\<close>

definition survives :: "'ctx session_env \<Rightarrow> byte list \<Rightarrow> byte list \<Rightarrow> outgoing \<Rightarrow> session \<Rightarrow> (nat \<Rightarrow> link) \<Rightarrow> bool" where
  "survives env file hello msgs r net \<longleftrightarrow>
     (\<forall>ds ds' q. mset ds = (\<Sum>k<kNumStreams. mset (chunks_in net k)) \<and> arrival_step\<^sup>*\<^sup>* (ds, deliver env file [] r) (ds', q) \<longrightarrow>
        (se_trans_complete (rp_session q) \<longrightarrow> se_write_view (rp_session q) = file)
      \<and> (all_sent hello msgs net \<and> net_idle net \<and> ds' = [] \<and> (\<forall>q'. \<not> chunk_step q q') \<longrightarrow> se_trans_complete (rp_session q)))"

lemma network_survives:
  assumes h: "length hello = sizeof_handshake" and m: "\<forall>(m, stream)\<in>set msgs. frameable m"
    and streams: "map snd msgs = map (\<lambda>i. word_of_nat i mod 4) is"
    and st: "\<And>ds. mset ds = mset (map fst msgs) \<Longrightarrow> chunk_start (deliver env file ds r)"
    and c: "carried hello msgs net"
  shows "survives env file hello msgs r net"
proof -
  have h4: "frameable hello" using h by (simp add: frameable_def sizeof_handshake_def)
  have "unat (word_of_nat i mod 4 :: u32) < 4" for i :: nat by (simp add: unat_mod)
  then have "\<forall>s\<in>set (map snd msgs). unat s < kNumStreams" unfolding streams by (simp add: kNumStreams_def)
  then have s4: "\<forall>m\<in>set msgs. unat (snd m) < kNumStreams" by simp
  note a = arrived_chunks [OF c h4 m s4]
  show ?thesis unfolding survives_def
  proof (intro allI impI conjI; elim conjE)
    fix ds ds' q
    assume ds: "mset ds = (\<Sum>k<kNumStreams. mset (chunks_in net k))"
      and run: "arrival_step\<^sup>*\<^sup>* (ds, deliver env file [] r) (ds', q)"
    have sub: "mset ds \<subseteq># mset (map fst msgs)" using a(1) ds by simp
    note s = arrival_safe [OF st sub run]
    show "se_write_view (rp_session q) = file" if "se_trans_complete (rp_session q)" using s(1) [OF _ that] .
    show "se_trans_complete (rp_session q)" if "all_sent hello msgs net" "net_idle net" "ds' = []" "\<forall>q'. \<not> chunk_step q q'"
      using s(2) a(2) ds that by simp
  qed
qed

text \<open>C1: a file survives the network.  With the same PIN on both sides, whatever order the sender's pool runs
  its tasks in: as long as each of the four KCP streams has been given the frames of its messages or a
  first part of them, however the network has lost, repeated and reordered datagrams and whenever the endpoints
  flush, the chunk messages the receive loop has cut from the streams may be worked on by the receiver's pool in
  any order, while others still arrive, and completion is signalled only when the receiver's file equals
  the file sent.  When the sender has sent everything and its streams wait for nothing, it is signalled
  once the pool is at rest; and from every state of the network in which everything is sent, such a state can
  be reached.\<close>

theorem file_survives_lossy_network:
  assumes "transfer_setup env os_s os_r path file"
  shows "\<exists>hello s1 ack r1 s2 strategy tasks total_chunks.
      sendFile_begin env os_s now path file pin cb new_session = ([(hello, 0)], s1, None)
    \<and> receive env os_r hello (recvFile_begin dir pin new_session) = Inr ([(ack, 0)], r1)
    \<and> receive env os_r ack s1 = Inr ([], s2)
    \<and> sendFile_chunks path file s2 = Inr (Some (strategy, tasks, total_chunks), s2)
    \<and> (\<forall>is. mset is = mset [0..<length tasks] \<longrightarrow> (\<exists>msgs s3.
          run_send_tasks env strategy (map ((!) tasks) is) s2 = Inr (msgs, s3)
        \<and> (\<forall>net. carried hello msgs net \<longrightarrow> survives env file hello msgs r1 net)
        \<and> (\<forall>net. carried hello msgs net \<and> all_sent hello msgs net \<longrightarrow>
            (\<exists>net'. (\<forall>k<kNumStreams. link_step\<^sup>*\<^sup>* (net k) (net' k)) \<and> carried hello msgs net' \<and> all_sent hello msgs net' \<and> net_idle net'))))"
proof -
  obtain hello s1 ack r1 s2 strategy tasks total_chunks where
    h: "sendFile_begin env os_s now path file pin cb new_session = ([(hello, 0)], s1, None)"
      "receive env os_r hello (recvFile_begin dir pin new_session) = Inr ([(ack, 0)], r1)"
      "receive env os_r ack s1 = Inr ([], s2)"
      "sendFile_chunks path file s2 = Inr (Some (strategy, tasks, total_chunks), s2)"
    and run: "\<forall>is. mset is = mset [0..<length tasks] \<longrightarrow> (\<exists>msgs s3.
          run_send_tasks env strategy (map ((!) tasks) is) s2 = Inr (msgs, s3) \<and> \<not> still_sending total_chunks s3
        \<and> map snd msgs = map (\<lambda>i. word_of_nat i mod 4) is \<and> (\<forall>(m, stream)\<in>set msgs. frameable m)
        \<and> (\<forall>b. (\<forall>n\<le>chunk_size. get_compress_bound (sv_libs env) n strategy \<le> b) \<longrightarrow> (\<forall>(m, stream)\<in>set msgs. length m \<le> b + 64))
        \<and> (\<forall>ds. mset ds = mset (map fst msgs) \<longrightarrow> chunk_start (deliver env file ds r1)))"
    and len: "length hello = sizeof_handshake"
    using transfer_runs [OF assms, of now pin cb dir] by (elim exE conjE) (rule that, assumption+)
  have "\<exists>msgs s3. run_send_tasks env strategy (map ((!) tasks) is) s2 = Inr (msgs, s3)
      \<and> (\<forall>net. carried hello msgs net \<longrightarrow> survives env file hello msgs r1 net)
      \<and> (\<forall>net. carried hello msgs net \<and> all_sent hello msgs net \<longrightarrow>
            (\<exists>net'. (\<forall>k<kNumStreams. link_step\<^sup>*\<^sup>* (net k) (net' k)) \<and> carried hello msgs net' \<and> all_sent hello msgs net' \<and> net_idle net'))"
    if isp: "mset is = mset [0..<length tasks]" for "is"
  proof -
    obtain msgs s3 where m: "run_send_tasks env strategy (map ((!) tasks) is) s2 = Inr (msgs, s3)"
      "map snd msgs = map (\<lambda>i. word_of_nat i mod 4) is" "\<forall>(m, stream)\<in>set msgs. frameable m"
      and st: "\<And>ds. mset ds = mset (map fst msgs) \<Longrightarrow> chunk_start (deliver env file ds r1)"
      using run [rule_format, OF isp] by blast
    from network_survives [OF len m(3,2) st] network_finishes m(1) show ?thesis by blast
  qed
  with h show ?thesis by blast
qed

text \<open>A run of everything: a small file, its message and the handshake on four streams, delivered and written.\<close>

lemma sample_bound: "n \<le> chunk_size \<Longrightarrow> get_compress_bound stored_libs n strategy \<le> 2 ^ 22"
proof -
  assume n: "n \<le> chunk_size"
  then have "int_cast n = int n" by (intro int_cast_small) (simp add: chunk_size_value)
  moreover have "(int n + int n div 255 + 16) = int (n + n div 255 + 16)" by (simp add: zdiv_int)
  moreover have b: "n + n div 255 + 16 \<le> 2 ^ 22" using n div_le_dividend [of n 255] div_le_mono [OF n, of 255] by (simp add: chunk_size_value)
  moreover have "unat (word_of_nat (n + n div 255 + 16) :: u64) = n + n div 255 + 16" using b by (intro unat_word_of_nat_small) simp
  ultimately have "unat (word_of_int (int n + int n div 255 + 16) :: u64) \<le> 2 ^ 22" by (simp del: of_nat_add)
  with n \<open>int_cast n = int n\<close> show ?thesis
    by (cases strategy) (simp_all add: get_compress_bound_def stored_libs_def chunk_size_value)
qed

lemma sendFile_chunks_count:
  assumes "sliceable file kDefaultChunkSize" and "sendFile_chunks path file s = Inr (Some (strategy, tasks, tc), s')"
  shows "length tasks \<le> num_chunks (length file) chunk_size"
proof -
  have "(ucast (ucast kDefaultChunkSize :: u32) :: u64) = kDefaultChunkSize" by (simp add: kDefaultChunkSize_def)
  with assms(2) slice_ideal [OF assms(1)]
  have "\<exists>s'. submit_chunks (se_resume_bitfield s) (map (ideal_chunk file chunk_size) [0..<num_chunks (length file) chunk_size]) s = (tasks, s')"
    by (auto simp: sendFile_chunks_def chunk_size_def split: if_splits prod.splits)
  then obtain s1 where "submit_chunks (se_resume_bitfield s) (map (ideal_chunk file chunk_size) [0..<num_chunks (length file) chunk_size]) s = (tasks, s1)" ..
  from conjunct1 [OF submit_chunks_filter [OF this]]
  have "length tasks \<le> length (map (ideal_chunk file chunk_size) [0..<num_chunks (length file) chunk_size])" by (simp only: length_filter_le)
  then show ?thesis by simp
qed

lemma short_streams:
  assumes "length hello \<le> b" and "\<forall>m\<in>set msgs. length (fst m) \<le> b" and "(length msgs + 1) * (b + 4) \<le> n"
  shows "length (concat (map frame (stream_messages hello msgs k))) \<le> n"
proof -
  have "length (concat (map frame ms)) \<le> length ms * (b + 4)" if "\<forall>m\<in>set ms. length m \<le> b" for ms
    using that by (induction ms) auto
  moreover have "\<forall>m\<in>set (stream_messages hello msgs k). length m \<le> b" using assms(1,2) by (auto simp: stream_messages_def)
  ultimately have "length (concat (map frame (stream_messages hello msgs k))) \<le> length (stream_messages hello msgs k) * (b + 4)" by blast
  also have "length (stream_messages hello msgs k) \<le> length msgs + 1" by (simp add: stream_messages_def le_SucI)
  then have "length (stream_messages hello msgs k) * (b + 4) \<le> (length msgs + 1) * (b + 4)" by (rule mult_le_mono1)
  also note assms(3)
  finally show ?thesis .
qed

lemma sample_messages:
  assumes "sendFile_begin sample_env sample_open 0 ''a.txt'' small_file 123456 True new_session = ([(hello, 0)], s1, None)"
    and "receive sample_env sample_os hello (recvFile_begin ''out'' 123456 new_session) = Inr ([(ack, 0)], r1)"
    and "receive sample_env sample_os ack s1 = Inr ([], s2)"
    and "sendFile_chunks ''a.txt'' small_file s2 = Inr (Some (strategy, tasks, total_chunks), s2)"
    and "run_send_tasks sample_env strategy (map ((!) tasks) [0..<length tasks]) s2 = Inr (msgs, s3)"
  shows "(\<forall>m\<in>set msgs. length (fst m) \<le> 2 ^ 22 + 64) \<and> length hello = sizeof_handshake"
proof -
  obtain hello' s1' ack' r1' s2' strategy' tasks' total' where
    h: "sendFile_begin sample_env sample_open 0 ''a.txt'' small_file 123456 True new_session = ([(hello', 0)], s1', None)"
      "receive sample_env sample_os hello' (recvFile_begin ''out'' 123456 new_session) = Inr ([(ack', 0)], r1')"
      "receive sample_env sample_os ack' s1' = Inr ([], s2')"
      "sendFile_chunks ''a.txt'' small_file s2' = Inr (Some (strategy', tasks', total'), s2')"
    and run: "\<forall>is. mset is = mset [0..<length tasks'] \<longrightarrow> (\<exists>msgs s3.
          run_send_tasks sample_env strategy' (map ((!) tasks') is) s2' = Inr (msgs, s3) \<and> \<not> still_sending total' s3
        \<and> map snd msgs = map (\<lambda>i. word_of_nat i mod 4) is \<and> (\<forall>(m, stream)\<in>set msgs. frameable m)
        \<and> (\<forall>b. (\<forall>n\<le>chunk_size. get_compress_bound (sv_libs sample_env) n strategy' \<le> b) \<longrightarrow> (\<forall>(m, stream)\<in>set msgs. length m \<le> b + 64))
        \<and> (\<forall>ds. mset ds = mset (map fst msgs) \<longrightarrow> chunk_start (deliver sample_env small_file ds r1')))"
    and len: "length hello' = sizeof_handshake"
    using transfer_runs [OF sample_setup, of 0 123456 True "''out''"] by (elim exE conjE) (rule that, assumption+)
  have e1: "hello' = hello" "s1' = s1" using h(1) assms(1) by auto
  have e2: "ack' = ack" "r1' = r1" using h(2) assms(2) unfolding e1 by auto
  have e3: "s2' = s2" using h(3) assms(3) unfolding e1 e2 by simp
  have e4: "strategy' = strategy" "tasks' = tasks" "total' = total_chunks" using h(4) assms(4) unfolding e3 by auto
  from run [rule_format, OF refl] assms(5) have "\<forall>b. (\<forall>n\<le>chunk_size. get_compress_bound (sv_libs sample_env) n strategy \<le> b)
      \<longrightarrow> (\<forall>(m, stream)\<in>set msgs. length m \<le> b + 64)" unfolding e3 e4 by auto
  moreover have "sv_libs sample_env = stored_libs" by (simp add: sample_env_def)
  ultimately have "\<forall>(m, stream)\<in>set msgs. length m \<le> 2 ^ 22 + 64" using sample_bound by metis
  with len e1 show ?thesis by auto
qed

theorem file_survives_lossy_network_witness:
  "\<exists>hello s1 ack r1 s2 strategy tasks total_chunks msgs s3 net ds q.
      sendFile_begin sample_env sample_open 0 ''a.txt'' small_file 123456 True new_session = ([(hello, 0)], s1, None)
    \<and> receive sample_env sample_os hello (recvFile_begin ''out'' 123456 new_session) = Inr ([(ack, 0)], r1)
    \<and> receive sample_env sample_os ack s1 = Inr ([], s2)
    \<and> sendFile_chunks ''a.txt'' small_file s2 = Inr (Some (strategy, tasks, total_chunks), s2)
    \<and> run_send_tasks sample_env strategy (map ((!) tasks) [0..<length tasks]) s2 = Inr (msgs, s3)
    \<and> carried hello msgs net \<and> all_sent hello msgs net \<and> net_idle net
    \<and> mset ds = (\<Sum>k<kNumStreams. mset (chunks_in net k))
    \<and> arrival_step\<^sup>*\<^sup>* (ds, deliver sample_env small_file [] r1) ([], q)
    \<and> se_trans_complete (rp_session q) \<and> se_write_view (rp_session q) = small_file"
proof -
  obtain hello s1 ack r1 s2 strategy tasks total_chunks where
    h: "sendFile_begin sample_env sample_open 0 ''a.txt'' small_file 123456 True new_session = ([(hello, 0)], s1, None)"
      "receive sample_env sample_os hello (recvFile_begin ''out'' 123456 new_session) = Inr ([(ack, 0)], r1)"
      "receive sample_env sample_os ack s1 = Inr ([], s2)"
      "sendFile_chunks ''a.txt'' small_file s2 = Inr (Some (strategy, tasks, total_chunks), s2)"
    and run: "\<forall>is. mset is = mset [0..<length tasks] \<longrightarrow> (\<exists>msgs s3.
          run_send_tasks sample_env strategy (map ((!) tasks) is) s2 = Inr (msgs, s3)
        \<and> (\<forall>net. carried hello msgs net \<longrightarrow> survives sample_env small_file hello msgs r1 net)
        \<and> (\<forall>net. carried hello msgs net \<and> all_sent hello msgs net \<longrightarrow>
            (\<exists>net'. (\<forall>k<kNumStreams. link_step\<^sup>*\<^sup>* (net k) (net' k)) \<and> carried hello msgs net' \<and> all_sent hello msgs net' \<and> net_idle net')))"
    using file_survives_lossy_network [OF sample_setup, of 0 123456 True "''out''"] by (elim exE conjE) (rule that, assumption+)
  obtain msgs s3 where m: "run_send_tasks sample_env strategy (map ((!) tasks) [0..<length tasks]) s2 = Inr (msgs, s3)"
    and safe: "\<And>net. carried hello msgs net \<Longrightarrow> survives sample_env small_file hello msgs r1 net"
    and live: "\<And>net. carried hello msgs net \<Longrightarrow> all_sent hello msgs net \<Longrightarrow>
            \<exists>net'. carried hello msgs net' \<and> all_sent hello msgs net' \<and> net_idle net'"
    using run [rule_format, OF refl] by blast
  have "length tasks \<le> 1" using sendFile_chunks_count [OF small_file_chunks(1) h(4)] small_file_chunks(2) by (simp add: chunk_size_def)
  then have few: "length msgs \<le> 1" using run_send_tasks_count [OF m] by simp
  have short: "\<forall>m\<in>set msgs. length (fst m) \<le> 2 ^ 22 + 64" and len: "length hello = sizeof_handshake"
    using sample_messages [OF h m] by simp_all
  have "length (concat (map frame (stream_messages hello msgs k))) \<le> 2 ^ 30" for k
  proof (rule short_streams [OF _ short])
    have "(length msgs + 1) * (2 ^ 22 + 64 + 4) \<le> 2 * (2 ^ 22 + 64 + 4)" using few by (intro mult_le_mono1) simp
    then show "(length msgs + 1) * (2 ^ 22 + 64 + 4) \<le> (2 ^ 30 :: nat)" by simp
  qed (simp add: len sizeof_handshake_def)
  then obtain net0 where "carried hello msgs net0" "all_sent hello msgs net0" using network_sends by blast
  then obtain net where net: "carried hello msgs net" "all_sent hello msgs net" "net_idle net" using live by blast
  obtain ds where ds: "mset ds = (\<Sum>k<kNumStreams. mset (chunks_in net k))" using ex_mset by blast
  obtain q where q: "chunk_step\<^sup>*\<^sup>* (add_tasks (chunk_tasks ds) (deliver sample_env small_file [] r1)) q" "\<forall>r. \<not> chunk_step q r"
    using pool_run_ends by blast
  have arrived: "arrival_step\<^sup>*\<^sup>* (ds, deliver sample_env small_file [] r1) ([], q)"
    using arrive_all arrival_work [OF q(1)] by (rule rtranclp_trans)
  have "se_trans_complete (rp_session q) \<and> se_write_view (rp_session q) = small_file"
    using safe [OF net(1)] arrived ds net q(2) unfolding survives_def by blast
  with h m net ds arrived show ?thesis by blast
qed

end
