(* ===== verification/App.thy ===== *)
theory App
  imports Discovery Stun Session_Handshake "HOL-Library.Multiset"
begin

text \<open>
  \<^verbatim>\<open>src/main.cpp\<close>: the history file, the selection of files, and what the start button does in the two
  modes.  The user interface is the record of the properties the handlers read and write; \<open>std::sort\<close> and the
  sizes of files are arguments, as are the results of a transfer.
\<close>

subsection \<open>The history file\<close>

record historyRecord =
  hr_filename :: string
  hr_direction :: string
  hr_status :: string
  hr_timestamp :: string

definition parse_record :: "string \<Rightarrow> historyRecord option" where
  "parse_record line =
     (case getline CHR ''|'' line of None \<Rightarrow> None
      | Some (file, r1) \<Rightarrow>
     (case getline CHR ''|'' r1 of None \<Rightarrow> None
      | Some (dir, r2) \<Rightarrow>
     (case getline CHR ''|'' r2 of None \<Rightarrow> None
      | Some (status, r3) \<Rightarrow>
     (case getline CHR 0x0A r3 of None \<Rightarrow> None
      | Some (time, _) \<Rightarrow>
          Some \<lparr>hr_filename = file, hr_direction = dir, hr_status = status, hr_timestamp = time\<rparr>))))"

fun load_records :: "string list \<Rightarrow> historyRecord list \<Rightarrow> historyRecord list" where
  "load_records [] loaded = loaded"
| "load_records (line # lines) loaded =
     load_records lines (case parse_record line of None \<Rightarrow> loaded | Some rec \<Rightarrow> rec # loaded)"

definition load_history :: "string \<Rightarrow> historyRecord list" where
  "load_history contents = load_records (getlines CHR 0x0A contents) []"

definition record_line :: "historyRecord \<Rightarrow> string" where
  "record_line rec = hr_filename rec @ ''|'' @ hr_direction rec @ ''|'' @ hr_status rec @ ''|'' @ hr_timestamp rec @ [CHR 0x0A]"

text \<open>\<open>log_history\<close> on the contents of the file and the displayed list; \<open>opened\<close> tells whether the file could
  be opened for appending.\<close>

definition log_history :: "bool \<Rightarrow> string \<Rightarrow> string \<Rightarrow> string \<Rightarrow> string \<Rightarrow> string \<times> historyRecord list
    \<Rightarrow> string \<times> historyRecord list" where
  "log_history opened filepath dir status time_str st =
     (let rec = \<lparr>hr_filename = path_filename filepath, hr_direction = dir, hr_status = status, hr_timestamp = time_str\<rparr>
      in (if opened then fst st @ record_line rec else fst st, rec # snd st))"

subsection \<open>The handlers of the user interface\<close>

record ui =
  ui_mode :: string
  ui_filepath :: string
  ui_act_filepaths :: string
  ui_pin_code :: string
  ui_status_text :: string
  ui_is_active :: bool
  ui_useInternet :: bool
  ui_target_ip :: string

definition browse_file :: "string list \<Rightarrow> ui \<Rightarrow> ui" where
  "browse_file selected_paths u =
     (if selected_paths = [] then u
      else u\<lparr>ui_act_filepaths := join CHR ''|'' selected_paths,
        ui_filepath := (if length selected_paths = 1 then selected_paths ! 0
          else to_string (length selected_paths) @ ''files selected'')\<rparr>)"

text \<open>\<open>std::stoul\<close>: white space, an optional sign, and at least one digit.  On the only supported platform
  \<open>unsigned long\<close> has 32 bits.\<close>

definition is_digit :: "char \<Rightarrow> bool" where
  "is_digit c \<longleftrightarrow> 48 \<le> (of_char c :: nat) \<and> (of_char c :: nat) < 58"

definition is_space :: "char \<Rightarrow> bool" where
  "is_space c \<longleftrightarrow> c = CHR '' '' \<or> (9 \<le> (of_char c :: nat) \<and> (of_char c :: nat) \<le> 13)"

definition stoul :: "string \<Rightarrow> u32 result" where
  "stoul s =
     (let t = dropWhile is_space s;
          negative = (t \<noteq> [] \<and> hd t = CHR ''-'');
          digits = takeWhile is_digit (if t \<noteq> [] \<and> (hd t = CHR ''-'' \<or> hd t = CHR ''+'') then tl t else t);
          v = digits_value digits
      in if digits = [] then Inl (Throw ''invalid stoul argument'')
         else if 2 ^ 32 \<le> v then Inl (Throw ''stoul argument out of range'')
         else Inr (if negative then - word_of_nat v else word_of_nat v))"

definition split_paths :: "string \<Rightarrow> string list" where
  "split_paths raw_paths = filter (\<lambda>item. item \<noteq> []) (getlines CHR ''|'' raw_paths)"

datatype action =
    Do_Nothing
  | Send_Files "string list" u32
  | Receive_Files string u32

text \<open>The comparison the queue is sorted with: \<open>file_size\<close> with an error code returns the largest number for a file
  whose size cannot be had.  \<open>std::sort\<close> is an argument.\<close>

definition file_size_ec :: "(string \<Rightarrow> u64 option) \<Rightarrow> string \<Rightarrow> u64" where
  "file_size_ec file_size p = (case file_size p of Some n \<Rightarrow> n | None \<Rightarrow> - 1)"

definition smaller_file :: "(string \<Rightarrow> u64 option) \<Rightarrow> string \<Rightarrow> string \<Rightarrow> bool" where
  "smaller_file file_size a b \<longleftrightarrow> file_size_ec file_size a < file_size_ec file_size b"

type_synonym sorter = "(string \<Rightarrow> string \<Rightarrow> bool) \<Rightarrow> string list \<Rightarrow> string list"

text \<open>The handler of the start button.  An exception leaves it, as the handler catches none.\<close>

definition start_send :: "sorter \<Rightarrow> (string \<Rightarrow> u64 option) \<Rightarrow> string \<Rightarrow> ui \<Rightarrow> (ui \<times> action) result" where
  "start_send std_sort file_size raw_paths u =
     (if length (ui_pin_code u) \<noteq> 6
      then Inr (u\<lparr>ui_status_text := ''Error: PIN must be 6 digits'', ui_is_active := False\<rparr>, Do_Nothing)
      else let file_queue = std_sort (smaller_file file_size) (split_paths raw_paths)
           in bind_result (stoul (ui_pin_code u)) (\<lambda>pin.
                if ui_useInternet u \<and> ui_target_ip u = []
                then Inr (u\<lparr>ui_status_text := ''Error : Enter the Receiver Global IP'', ui_is_active := False\<rparr>, Do_Nothing)
                else Inr (u\<lparr>ui_status_text := (if ui_useInternet u then ''Connecting to the Internet'' else ''Scanning local network'')\<rparr>,
                          Send_Files file_queue pin)))"

definition start_receive :: "u32 \<Rightarrow> string \<Rightarrow> ui \<Rightarrow> ui \<times> action" where
  "start_receive secure_pin raw_paths u =
     (u\<lparr>ui_pin_code := to_string (unat secure_pin), ui_status_text := ''Resolving network status''\<rparr>, Receive_Files raw_paths secure_pin)"

definition start_trans :: "sorter \<Rightarrow> (string \<Rightarrow> u64 option) \<Rightarrow> u32 \<Rightarrow> ui \<Rightarrow> (ui \<times> action) result" where
  "start_trans std_sort file_size secure_pin u =
     (let raw_paths = (if ui_act_filepaths u = [] then ui_filepath u else ui_act_filepaths u)
      in if raw_paths = [] then Inr (u, Do_Nothing)
         else let u1 = u\<lparr>ui_is_active := True\<rparr>
              in if ui_mode u = ''Send'' then start_send std_sort file_size raw_paths u1
                 else if ui_mode u = ''Receive'' then Inr (start_receive secure_pin raw_paths u1)
                 else Inr (u1, Do_Nothing))"

subsection \<open>The two threads\<close>

text \<open>The address the sender connects to: \<open>found\<close> are the peers reported within three seconds.\<close>

definition choose_ip :: "ui \<Rightarrow> string \<Rightarrow> Peer list \<Rightarrow> string" where
  "choose_ip u broadcastName found =
     (if ui_useInternet u then ui_target_ip u
      else case find (\<lambda>peer. pr_hostname peer \<noteq> broadcastName) found of
          Some peer \<Rightarrow> pr_ip_address peer
        | None \<Rightarrow> ''127.0.0.1'')"

definition send_port :: u16 where "send_port = 9000"

definition listen_port :: "bool \<Rightarrow> u16" where
  "listen_port useInternet = (if useInternet then 9002 else 9000)"

text \<open>The loop over the queue: \<open>outcome\<close> is the exception a transfer ended with, if any, \<open>time\<close> the clock at
  each entry.  The result is the final status text.\<close>

fun send_queue :: "(string \<Rightarrow> failure option) \<Rightarrow> (string \<Rightarrow> string) \<Rightarrow> string list \<Rightarrow> string \<times> historyRecord list
    \<Rightarrow> string \<times> (string \<times> historyRecord list)" where
  "send_queue outcome time [] st = (''All files transferred successfully!'', st)"
| "send_queue outcome time (path # paths) st =
     (case outcome path of
        Some e \<Rightarrow> (''Error: Transfer failed. Check console.'', st)
      | None \<Rightarrow> send_queue outcome time paths (log_history True path ''Sent'' ''Success'' (time path) st))"

definition network_status :: "bool \<Rightarrow> publicEndpoint \<Rightarrow> string" where
  "network_status useInternet pub_endpoint =
     (if useInternet
      then (if pe_success pub_endpoint then ''Global IP: '' @ pe_ip pub_endpoint else ''Failed to get Global IP.'')
      else ''Listening on Local Network..'')"

text \<open>What the receiver logs for a file that arrived.\<close>

definition log_received :: "string \<Rightarrow> string \<Rightarrow> string \<times> historyRecord list \<Rightarrow> string \<times> historyRecord list" where
  "log_received target_dir time_str st = log_history True target_dir ''Received'' ''Success'' time_str st"

text \<open>The loop of the receiver: \<open>outcomes\<close> are the ends of the calls of \<open>recvFile\<close>, an exception or none; when
  they are used up the loop waits in the next call.  \<open>v\<close> is what the window shows.\<close>

record receiver_view =
  rv_status_text :: string
  rv_queue_text :: string
  rv_is_active :: bool

definition show_received :: "nat \<Rightarrow> receiver_view \<Rightarrow> receiver_view" where
  "show_received files_received v =
     (if files_received > 0 then v\<lparr>rv_queue_text := ''Files Received: '' @ to_string files_received\<rparr> else v)"

fun receive_loop :: "string \<Rightarrow> (nat \<Rightarrow> string) \<Rightarrow> failure option list \<Rightarrow> nat \<Rightarrow> receiver_view \<times> string \<times> historyRecord list
    \<Rightarrow> receiver_view \<times> string \<times> historyRecord list" where
  "receive_loop target_dir time [] files_received (v, st) = (show_received files_received v, st)"
| "receive_loop target_dir time (outcome # outcomes) files_received (v, st) =
     (let v1 = show_received files_received v
      in case outcome of
           Some e \<Rightarrow> (v1\<lparr>rv_status_text := ''Error: Receive failed.'', rv_is_active := False\<rparr>, st)
         | None \<Rightarrow> receive_loop target_dir time outcomes (files_received + 1)
             (v1\<lparr>rv_status_text := ''Listening for next file...''\<rparr>, log_received target_dir (time files_received) st))"

subsection \<open>Lemmas\<close>

lemma getlines_terminated:
  assumes "\<forall>x\<in>set xs. d \<notin> set x"
  shows "getlines d (concat (map (\<lambda>x. x @ [d]) xs)) = xs"
  using assms
proof (induction xs)
  case Nil
  then show ?case by (simp add: getlines.simps getline_def)
next
  case (Cons x xs)
  then have "getline d (x @ d # concat (map (\<lambda>x. x @ [d]) xs)) = Some (x, concat (map (\<lambda>x. x @ [d]) xs))"
    by (intro getline_item) simp
  with Cons show ?case by (simp add: getlines.simps [of d "x @ d # _"])
qed

text \<open>A record that survives the file: no field holds a line break, the first three hold no bar, and there is
  a time stamp.\<close>

definition clean :: "historyRecord \<Rightarrow> bool" where
  "clean rec \<longleftrightarrow> (\<forall>f\<in>{hr_filename rec, hr_direction rec, hr_status rec}. CHR ''|'' \<notin> set f \<and> CHR 0x0A \<notin> set f)
     \<and> hr_timestamp rec \<noteq> [] \<and> CHR 0x0A \<notin> set (hr_timestamp rec)"

definition fields_line :: "historyRecord \<Rightarrow> string" where
  "fields_line rec = hr_filename rec @ ''|'' @ hr_direction rec @ ''|'' @ hr_status rec @ ''|'' @ hr_timestamp rec"

lemma parse_fields: "clean rec \<Longrightarrow> parse_record (fields_line rec) = Some rec"
  by (simp add: clean_def parse_record_def fields_line_def getline_item)

lemma load_records_append:
  "load_records (map fields_line recs) loaded = rev recs @ loaded" if "\<forall>r\<in>set recs. clean r"
  using that by (induction recs arbitrary: loaded) (simp_all add: parse_fields)

lemma load_history_lines:
  assumes "\<forall>r\<in>set recs. clean r"
  shows "load_history (concat (map record_line recs)) = rev recs"
proof -
  have "map record_line recs = map (\<lambda>x. x @ [CHR 0x0A]) (map fields_line recs)"
    by (simp add: record_line_def fields_line_def)
  moreover have "getlines CHR 0x0A (concat (map (\<lambda>x. x @ [CHR 0x0A]) (map fields_line recs))) = map fields_line recs"
    using assms by (intro getlines_terminated) (auto simp: clean_def fields_line_def)
  ultimately show ?thesis using load_records_append [OF assms, of "[]"] by (simp only: load_history_def append_Nil2)
qed

type_synonym entry = "string \<times> string \<times> string \<times> string"

definition entry_record :: "entry \<Rightarrow> historyRecord" where
  "entry_record e = (case e of (path, dir, status, time) \<Rightarrow>
     \<lparr>hr_filename = path_filename path, hr_direction = dir, hr_status = status, hr_timestamp = time\<rparr>)"

definition log_entry :: "string \<times> historyRecord list \<Rightarrow> entry \<Rightarrow> string \<times> historyRecord list" where
  "log_entry st e = (case e of (path, dir, status, time) \<Rightarrow> log_history True path dir status time st)"

lemma log_entries:
  "foldl log_entry (c, m) es = (c @ concat (map (record_line \<circ> entry_record) es), rev (map entry_record es) @ m)"
  by (induction es arbitrary: c m) (auto simp: log_entry_def log_history_def entry_record_def Let_def)

lemma digits_of_number: "takeWhile is_digit (to_string n) = to_string n" "\<forall>c\<in>set (to_string n). \<not> is_space c"
  using to_string_digits [of n] by (auto simp: takeWhile_eq_all_conv list_all_iff is_digit_def is_space_def)

lemma stoul_to_string:
  assumes "n < 2 ^ 32"
  shows "stoul (to_string n) = Inr (word_of_nat n)"
proof -
  have d: "dropWhile is_space (to_string n) = to_string n"
    using digits_of_number(2) [of n] by (cases "to_string n") auto
  have "hd (to_string n) \<in> set (to_string n)" using to_string_nonempty by simp
  then have "is_digit (hd (to_string n))" using digits_of_number(1) [of n] by (metis takeWhile_eq_all_conv)
  then have "hd (to_string n) \<noteq> CHR ''-''" "hd (to_string n) \<noteq> CHR ''+''" by (auto simp: is_digit_def)
  then show ?thesis
    using assms by (simp add: stoul_def d Let_def digits_of_number digits_value_to_string to_string_nonempty)
qed

lemma length_to_string:
  assumes "10 ^ k \<le> n" and "n < 10 ^ Suc k"
  shows "length (to_string n) = Suc k"
  using assms
proof (induction k arbitrary: n)
  case (Suc k)
  then have "10 ^ k \<le> n div 10" "n div 10 < 10 ^ Suc k" by (simp_all add: less_mult_imp_div_less)
  moreover have "10 * 10 ^ k \<le> n" using Suc.prems by simp
  then have "\<not> n < 10" by (metis le_trans linorder_not_le mult.right_neutral mult_le_mono2 one_le_numeral one_le_power)
  ultimately show ?case using Suc.IH [of "n div 10"] by (simp add: to_string.simps [of n])
qed (simp add: to_string.simps)

subsection \<open>Properties\<close>

text \<open>C38: the history survives a restart: however many transfers are logged, loading the file gives the
  records in the order the list shows them, newest first.\<close>

theorem history_survives_restart:
  assumes "foldl log_entry ([], []) es = (contents, shown)" and "\<forall>e\<in>set es. clean (entry_record e)"
  shows "load_history contents = shown \<and> shown = rev (map entry_record es)"
proof -
  have "contents = concat (map record_line (map entry_record es))" "shown = rev (map entry_record es)"
    using assms(1) by (simp_all add: log_entries)
  with load_history_lines [of "map entry_record es"] assms(2) show ?thesis by simp
qed

lemma history_survives_restart_witness:
  "load_history (record_line \<lparr>hr_filename = ''a.txt'', hr_direction = ''Sent'', hr_status = ''Success'', hr_timestamp = ''2026-07-12 10:00''\<rparr>)
    = [\<lparr>hr_filename = ''a.txt'', hr_direction = ''Sent'', hr_status = ''Success'', hr_timestamp = ''2026-07-12 10:00''\<rparr>]"
proof -
  have pf: "path_filename ''d/a.txt'' = ''a.txt''" by (simp add: path_filename_def is_sep_def)
  show ?thesis
    using history_survives_restart [of "[(''d/a.txt'', ''Sent'', ''Success'', ''2026-07-12 10:00'')]"]
    by (simp add: log_entry_def log_history_def entry_record_def clean_def pf Let_def)
qed

text \<open>What the C++ standard says of \<open>std::sort\<close>: for a comparison that is a strict weak order the result is a
  permutation in which no later element is smaller than an earlier one.\<close>

definition strict_weak_order :: "(string \<Rightarrow> string \<Rightarrow> bool) \<Rightarrow> bool" where
  "strict_weak_order lt \<longleftrightarrow> (\<forall>a b. lt a b \<longrightarrow> \<not> lt b a) \<and> (\<forall>a b c. \<not> lt a b \<and> \<not> lt b c \<longrightarrow> \<not> lt a c)"

definition sort_lawful :: "sorter \<Rightarrow> bool" where
  "sort_lawful std_sort \<longleftrightarrow> (\<forall>lt xs. strict_weak_order lt \<longrightarrow>
     mset (std_sort lt xs) = mset xs \<and> sorted_wrt (\<lambda>a b. \<not> lt b a) (std_sort lt xs))"

lemma smaller_file_order: "strict_weak_order (smaller_file file_size)"
  by (auto simp: strict_weak_order_def smaller_file_def)

text \<open>C39: the files selected with the dialog are the files queued, every one as often as it was selected, ordered by
  size, those whose size cannot be read last; and the PIN the receiver displays, typed in at the sender, passes
  the length check and is read back as the same number.\<close>

theorem selected_files_are_queued:
  assumes "sort_lawful std_sort"
    and "\<forall>p\<in>set paths. p \<noteq> [] \<and> CHR ''|'' \<notin> set p" and "paths \<noteq> []" and "ui_mode u = ''Send''"
    and "100000 \<le> unat secure_pin" and "unat secure_pin \<le> 999999"
    and "ui_pin_code u = ui_pin_code (fst (start_receive secure_pin dir v))" and "ui_useInternet u \<longrightarrow> ui_target_ip u \<noteq> []"
  shows "\<exists>u' queue. start_trans std_sort file_size other (browse_file paths u) = Inr (u', Send_Files queue secure_pin) \<and> ui_is_active u'
    \<and> mset queue = mset paths \<and> sorted (map (file_size_ec file_size) queue)"
proof -
  have pin: "ui_pin_code u = to_string (unat secure_pin)" using assms(7) by (simp add: start_receive_def)
  have l: "length (to_string (unat secure_pin)) = 6" using length_to_string [of 5 "unat secure_pin"] assms(5,6) by simp
  have s: "stoul (to_string (unat secure_pin)) = Inr secure_pin" using assms(6) by (simp add: stoul_to_string)
  have g: "split_paths (join CHR ''|'' paths) = paths"
    using getlines_join [of paths "CHR ''|''"] assms(2) by (auto simp: split_paths_def filter_id_conv)
  have j: "join CHR ''|'' paths \<noteq> []" using assms(2,3) by (cases paths; cases "tl paths") auto
  let ?queue = "std_sort (smaller_file file_size) paths"
  have "mset ?queue = mset paths" "sorted_wrt (\<lambda>a b. \<not> smaller_file file_size b a) ?queue"
    using assms(1) smaller_file_order unfolding sort_lawful_def by blast+
  then have "mset ?queue = mset paths" "sorted (map (file_size_ec file_size) ?queue)"
    by (simp_all add: smaller_file_def sorted_wrt_map not_less)
  moreover have "\<exists>u'. start_trans std_sort file_size other (browse_file paths u) = Inr (u', Send_Files ?queue secure_pin) \<and> ui_is_active u'"
    using assms(3,4,8) pin l s g j by (auto simp: start_trans_def browse_file_def start_send_def Let_def)
  ultimately show ?thesis by blast
qed

text \<open>Insertion sort is a lawful \<open>std::sort\<close>.\<close>

fun insert_by :: "(string \<Rightarrow> string \<Rightarrow> bool) \<Rightarrow> string \<Rightarrow> string list \<Rightarrow> string list" where
  "insert_by lt x [] = [x]"
| "insert_by lt x (y # ys) = (if lt y x then y # insert_by lt x ys else x # y # ys)"

definition insertion_sorter :: sorter where
  "insertion_sorter lt xs = foldr (insert_by lt) xs []"

lemma insert_by_mset [simp]: "mset (insert_by lt x ys) = add_mset x (mset ys)"
  by (induction ys) auto

lemma insert_by_set [simp]: "set (insert_by lt x ys) = insert x (set ys)"
  by (induction ys) auto

lemma insert_by_sorted:
  assumes "strict_weak_order lt" and "sorted_wrt (\<lambda>a b. \<not> lt b a) ys"
  shows "sorted_wrt (\<lambda>a b. \<not> lt b a) (insert_by lt x ys)"
  using assms(2)
proof (induction ys)
  case (Cons y ys)
  have asym: "lt y x \<Longrightarrow> \<not> lt x y" and neg: "\<not> lt z y \<Longrightarrow> \<not> lt y x \<Longrightarrow> \<not> lt z x" for z
    using assms(1) unfolding strict_weak_order_def by blast+
  show ?case using Cons asym neg by auto
qed simp

lemma insertion_sorter_lawful: "sort_lawful insertion_sorter"
proof -
  have "mset (insertion_sorter lt xs) = mset xs" for lt xs
    unfolding insertion_sorter_def by (induction xs) auto
  moreover have "sorted_wrt (\<lambda>a b. \<not> lt b a) (insertion_sorter lt xs)" if "strict_weak_order lt" for lt xs
    unfolding insertion_sorter_def using that by (induction xs) (auto intro: insert_by_sorted)
  ultimately show ?thesis by (simp add: sort_lawful_def)
qed

lemma selected_files_are_queued_witness:
  "\<exists>u' queue. start_trans insertion_sorter (\<lambda>p. Some (if p = ''a'' then 7 else 3)) 0 (browse_file [''a'', ''b'']
      \<lparr>ui_mode = ''Send'', ui_filepath = [], ui_act_filepaths = [], ui_pin_code = to_string 123456, ui_status_text = [],
       ui_is_active = False, ui_useInternet = False, ui_target_ip = []\<rparr>) = Inr (u', Send_Files queue 123456)
    \<and> mset queue = {#''a'', ''b''#} \<and> sorted (map (file_size_ec (\<lambda>p. Some (if p = ''a'' then 7 else 3))) queue)"
  using selected_files_are_queued [OF insertion_sorter_lawful, where paths = "[''a'', ''b'']" and secure_pin = 123456 and other = 0
      and file_size = "\<lambda>p. Some (if p = ''a'' then 7 else 3)"
      and u = "\<lparr>ui_mode = ''Send'', ui_filepath = [], ui_act_filepaths = [], ui_pin_code = to_string 123456, ui_status_text = [],
        ui_is_active = False, ui_useInternet = False, ui_target_ip = []\<rparr>"]
  by (auto simp: start_receive_def)

text \<open>Of a PIN only the length is checked.  Six characters that do not begin like a number make
  \<open>std::stoul\<close> throw out of the handler, and six characters with fewer leading digits are accepted as a
  shorter number.\<close>

theorem pin_digits_unchecked:
  assumes "length (ui_pin_code u) = 6" and "\<not> is_digit (hd (ui_pin_code u))" and "\<not> is_space (hd (ui_pin_code u))"
    and "hd (ui_pin_code u) \<noteq> CHR ''-''" and "hd (ui_pin_code u) \<noteq> CHR ''+''"
  shows "start_send std_sort file_size raw_paths u = Inl (Throw ''invalid stoul argument'') \<and> stoul ''12ab56'' = Inr 12"
proof
  obtain c cs where c: "ui_pin_code u = c # cs" using assms(1) by (cases "ui_pin_code u") auto
  then have "stoul (ui_pin_code u) = Inl (Throw ''invalid stoul argument'')" using assms(2-) by (simp add: stoul_def)
  with assms(1) show "start_send std_sort file_size raw_paths u = Inl (Throw ''invalid stoul argument'')" by (simp add: start_send_def Let_def)
  show "stoul ''12ab56'' = Inr 12" by (simp add: stoul_def is_space_def is_digit_def digits_value.simps)
qed

definition sample_ui :: "string \<Rightarrow> ui" where
  "sample_ui pin = \<lparr>ui_mode = ''Send'', ui_filepath = ''a'', ui_act_filepaths = [], ui_pin_code = pin, ui_status_text = [],
     ui_is_active = False, ui_useInternet = False, ui_target_ip = []\<rparr>"

lemma pin_digits_unchecked_witness:
  "start_send (\<lambda>less q. q) (\<lambda>p. None) ''a'' (sample_ui ''abcdef'') = Inl (Throw ''invalid stoul argument'')"
  using pin_digits_unchecked [of "sample_ui ''abcdef''" "\<lambda>less q. q" "\<lambda>p. None" "''a''"] by (simp add: sample_ui_def is_digit_def is_space_def)

text \<open>C37: sender and receiver never find each other.  Whatever devices announce themselves with
  \<open>Discovery\<close>, in local mode the sender connects to its own machine; in internet mode the receiver
  listens on a port the sender never uses.\<close>

theorem sender_misses_receiver:
  assumes "\<forall>m\<in>set msgs. \<exists>sender. fst m = broadcast_payload sender" and "\<not> ui_useInternet u"
  shows "choose_ip u name (snd (listen_run msgs d)) = ''127.0.0.1'' \<and> listen_port True \<noteq> send_port"
  using announcements_ignored [OF assms(1), of d] assms(2) by (simp add: choose_ip_def listen_port_def send_port_def)

lemma sender_misses_receiver_witness:
  "choose_ip (sample_ui ''123456'') ''me'' (snd (listen_run [(broadcast_payload listening, ''10.0.0.2'', 1)] listening)) = ''127.0.0.1''"
  using sender_misses_receiver [of "[(broadcast_payload listening, ''10.0.0.2'', 1)]" "sample_ui ''123456''" "''me''" listening]
  by (auto simp: sample_ui_def)

text \<open>The send queue logs exactly the files before the first transfer that throws, and reports success
  exactly when none throws.  \<open>sendFile\<close> returns normally after a rejection, so a
  rejected transfer is logged as sent.\<close>

theorem queue_logs_sent_files:
  "case send_queue outcome time paths (contents, shown) of (status, contents', shown') \<Rightarrow>
     (let sent = takeWhile (\<lambda>p. outcome p = None) paths
      in shown' = rev (map (\<lambda>p. entry_record (p, ''Sent'', ''Success'', time p)) sent) @ shown
       \<and> contents' = contents @ concat (map (\<lambda>p. record_line (entry_record (p, ''Sent'', ''Success'', time p))) sent)
       \<and> (status = ''All files transferred successfully!'' \<longleftrightarrow> sent = paths))"
proof (induction paths arbitrary: contents shown)
  case (Cons p paths)
  let ?r = "entry_record (p, ''Sent'', ''Success'', time p)"
  have "log_history True p ''Sent'' ''Success'' (time p) (contents, shown) = (contents @ record_line ?r, ?r # shown)"
    by (simp add: log_history_def entry_record_def Let_def)
  with Cons.IH [of "?r # shown" "contents @ record_line ?r"] show ?case
    by (cases "outcome p") (auto simp: Let_def split: prod.splits)
qed simp

text \<open>The receiver logs one entry per file that arrived before the first exception and counts them.  Every entry
  names the output directory, not the file.\<close>

theorem loop_logs_received_files:
  assumes "receive_loop target_dir time outcomes 0 (v, contents, shown) = (v', contents', shown')"
  shows "let n = length (takeWhile (\<lambda>r. r = None) outcomes);
      recs = map (\<lambda>i. entry_record (target_dir, ''Received'', ''Success'', time i)) [0..<n]
    in shown' = rev recs @ shown \<and> contents' = contents @ concat (map record_line recs)
      \<and> rv_queue_text v' = (if n = 0 then rv_queue_text v else ''Files Received: '' @ to_string n)
      \<and> (n < length outcomes \<longrightarrow> rv_status_text v' = ''Error: Receive failed.'' \<and> \<not> rv_is_active v')
      \<and> (n = length outcomes \<and> 0 < n \<longrightarrow> rv_status_text v' = ''Listening for next file...'')"
proof -
  have "receive_loop target_dir time outcomes k (v, contents, shown) = (v', contents', shown') \<Longrightarrow>
    (let n = length (takeWhile (\<lambda>r. r = None) outcomes);
      recs = map (\<lambda>i. entry_record (target_dir, ''Received'', ''Success'', time i)) [k..<k + n]
    in shown' = rev recs @ shown \<and> contents' = contents @ concat (map record_line recs)
      \<and> rv_queue_text v' = rv_queue_text (show_received (k + n) v)
      \<and> (n < length outcomes \<longrightarrow> rv_status_text v' = ''Error: Receive failed.'' \<and> \<not> rv_is_active v')
      \<and> (n = length outcomes \<and> 0 < n \<longrightarrow> rv_status_text v' = ''Listening for next file...''))" for k
  proof (induction outcomes arbitrary: k v contents shown)
    case (Cons r outcomes)
    let ?r = "entry_record (target_dir, ''Received'', ''Success'', time k)"
    have log: "log_received target_dir (time k) (contents, shown) = (contents @ record_line ?r, ?r # shown)"
      by (simp add: log_received_def log_history_def entry_record_def Let_def)
    have que: "rv_queue_text (show_received m (show_received k v\<lparr>rv_status_text := s\<rparr>)) = rv_queue_text (show_received m v)"
      if "k \<le> m" for m s using that by (simp add: show_received_def)
    show ?case
    proof (cases r)
      case None
      let ?n = "length (takeWhile (\<lambda>r. r = None) outcomes)"
      have u: "[k..<Suc (k + m)] = k # [Suc k..<Suc (k + m)]" "[k..<Suc k] = [k]" for m
        by (subst upt_conv_Cons; simp)+
      let ?v = "show_received k v\<lparr>rv_status_text := ''Listening for next file...''\<rparr>"
      have step: "receive_loop target_dir time outcomes (Suc k) (?v, contents @ record_line ?r, ?r # shown) = (v', contents', shown')"
        using Cons.prems by (simp add: None log Let_def)
      have st: "outcomes = [] \<Longrightarrow> rv_status_text v' = ''Listening for next file...''"
        using step by (auto simp: show_received_def)
      have q: "rv_queue_text (show_received (Suc k + ?n) ?v) = rv_queue_text (show_received (Suc k + ?n) v)" by (rule que) simp
      note ih = Cons.IH [OF step, unfolded Let_def q]
      have "?n = length outcomes \<Longrightarrow> outcomes \<noteq> [] \<Longrightarrow> takeWhile (\<lambda>r. r = None) outcomes \<noteq> []" by auto
      then show ?thesis using ih st by (cases "outcomes = []") (simp_all add: None Let_def u del: upt_Suc)
    qed (use Cons.prems in \<open>auto simp: Let_def\<close>)
  qed (auto simp: Let_def)
  from this [of 0] assms show ?thesis by (auto simp: Let_def show_received_def)
qed

end
