(* ===== verification/Kcp_Queue.thy ===== *)
theory Kcp_Queue
  imports Prelude
begin

text \<open>
  \<^verbatim>\<open>ikcp.h\<close>, the queue macros: doubly linked circular lists through the \<open>node\<close> members of the segments, with
  the head in the control block.  The links are two functions from addresses to addresses; the macros are
  their assignments in the order of the C text, so that the aliasing of entry, neighbours and head is that
  of the code.  The lemmas show that on a well-formed queue each macro is the operation on lists that the
  other theories use.  \<open>node\<close> is the first member of a segment, so the address of a segment is the address of
  its node (\<open>iqueue_entry\<close> subtracts 0).
\<close>

type_synonym addr = nat

text \<open>Address 0 is the null pointer.\<close>

record links =
  m_next :: "addr \<Rightarrow> addr"
  m_prev :: "addr \<Rightarrow> addr"

subsection \<open>The macros\<close>

definition set_next :: "addr \<Rightarrow> addr \<Rightarrow> 'a links_scheme \<Rightarrow> 'a links_scheme" where
  "set_next p v m = m\<lparr>m_next := (m_next m)(p := v)\<rparr>"

definition set_prev :: "addr \<Rightarrow> addr \<Rightarrow> 'a links_scheme \<Rightarrow> 'a links_scheme" where
  "set_prev p v m = m\<lparr>m_prev := (m_prev m)(p := v)\<rparr>"

definition iqueue_init :: "addr \<Rightarrow> 'a links_scheme \<Rightarrow> 'a links_scheme" where
  "iqueue_init p m = set_prev p p (set_next p p m)"

definition iqueue_add :: "addr \<Rightarrow> addr \<Rightarrow> 'a links_scheme \<Rightarrow> 'a links_scheme" where
  "iqueue_add node head m =
     (let m1 = set_prev node head m;
          m2 = set_next node (m_next m1 head) m1;
          m3 = set_prev (m_next m2 head) node m2
      in set_next head node m3)"

definition iqueue_add_tail :: "addr \<Rightarrow> addr \<Rightarrow> 'a links_scheme \<Rightarrow> 'a links_scheme" where
  "iqueue_add_tail node head m =
     (let m1 = set_prev node (m_prev m head) m;
          m2 = set_next node head m1;
          m3 = set_next (m_prev m2 head) node m2
      in set_prev head node m3)"

definition iqueue_del_between :: "addr \<Rightarrow> addr \<Rightarrow> 'a links_scheme \<Rightarrow> 'a links_scheme" where
  "iqueue_del_between p n m = set_next p n (set_prev n p m)"

definition iqueue_del :: "addr \<Rightarrow> 'a links_scheme \<Rightarrow> 'a links_scheme" where
  "iqueue_del entry m =
     (let m1 = set_prev (m_next m entry) (m_prev m entry) m;
          m2 = set_next (m_prev m1 entry) (m_next m1 entry) m1
      in set_prev entry 0 (set_next entry 0 m2))"

definition iqueue_del_init :: "addr \<Rightarrow> 'a links_scheme \<Rightarrow> 'a links_scheme" where
  "iqueue_del_init entry m = iqueue_init entry (iqueue_del entry m)"

definition iqueue_is_empty :: "addr \<Rightarrow> 'a links_scheme \<Rightarrow> bool" where
  "iqueue_is_empty entry m \<longleftrightarrow> entry = m_next m entry"

text \<open>\<open>iqueue_foreach\<close> and \<open>iqueue_foreach_entry\<close>: the entries the loop visits from \<open>pos\<close> on, if it ends.\<close>

partial_function (option) iqueue_foreach :: "'a links_scheme \<Rightarrow> addr \<Rightarrow> addr \<Rightarrow> addr list option" where
  "iqueue_foreach m head pos =
     (if pos = head then Some []
      else Option.bind (iqueue_foreach m head (m_next m pos)) (\<lambda>ps. Some (pos # ps)))"

definition iqueue_splice :: "addr \<Rightarrow> addr \<Rightarrow> 'a links_scheme \<Rightarrow> 'a links_scheme" where
  "iqueue_splice list_head head m =
     (if iqueue_is_empty list_head m then m
      else let first = m_next m list_head; last_entry = m_prev m list_head; at = m_next m head
           in set_prev at last_entry (set_next last_entry at (set_next head first (set_prev first head m))))"

definition iqueue_splice_init :: "addr \<Rightarrow> addr \<Rightarrow> 'a links_scheme \<Rightarrow> 'a links_scheme" where
  "iqueue_splice_init list_head head m = iqueue_init list_head (iqueue_splice list_head head m)"

subsection \<open>Well-formed queues\<close>

text \<open>A segment of the ring: from \<open>a\<close> over the entries to \<open>b\<close>, linked both ways.\<close>

fun chain :: "'a links_scheme \<Rightarrow> addr \<Rightarrow> addr list \<Rightarrow> addr \<Rightarrow> bool" where
  "chain m a [] b \<longleftrightarrow> m_next m a = b \<and> m_prev m b = a"
| "chain m a (x # xs) b \<longleftrightarrow> m_next m a = x \<and> m_prev m x = a \<and> chain m x xs b"

definition queue_at :: "'a links_scheme \<Rightarrow> addr \<Rightarrow> addr list \<Rightarrow> bool" where
  "queue_at m head xs \<longleftrightarrow> chain m head xs head \<and> distinct (head # xs) \<and> 0 \<notin> set (head # xs)"

lemma chain_append [simp]: "chain m a (xs @ x # ys) b \<longleftrightarrow> chain m a xs x \<and> chain m x ys b"
  by (induction xs arbitrary: a) auto

lemma chain_last: "chain m a xs b \<Longrightarrow> m_prev m b = last (a # xs)"
  by (induction xs arbitrary: a) auto

lemma chain_first: "chain m a xs b \<Longrightarrow> m_next m a = hd (xs @ [b])"
  by (cases xs) auto

text \<open>Assignments elsewhere do not matter.\<close>

lemma chain_set [simp]:
  "u \<notin> set (a # xs) \<Longrightarrow> chain (set_next u v m) a xs b \<longleftrightarrow> chain m a xs b"
  "u \<notin> set (b # xs) \<Longrightarrow> chain (set_prev u v m) a xs b \<longleftrightarrow> chain m a xs b"
  by (induction xs arbitrary: a) (auto simp: set_next_def set_prev_def)

lemma set_links [simp]:
  "m_next (set_next p v m) = (m_next m)(p := v)" "m_prev (set_next p v m) = m_prev m"
  "m_prev (set_prev p v m) = (m_prev m)(p := v)" "m_next (set_prev p v m) = m_next m"
  by (simp_all add: set_next_def set_prev_def)

text \<open>The queue around one of its entries.\<close>

lemma queue_at_split: "queue_at m head (xs @ e # ys) \<longleftrightarrow>
    chain m head xs e \<and> chain m e ys head \<and> distinct (head # xs @ e # ys) \<and> 0 \<notin> set (head # xs @ e # ys)"
  by (simp add: queue_at_def)

lemma queue_first: "queue_at m head xs \<Longrightarrow> m_next m head = hd (xs @ [head])"
  using chain_first unfolding queue_at_def by blast

lemma queue_last: "queue_at m head xs \<Longrightarrow> m_prev m head = last (head # xs)"
  using chain_last unfolding queue_at_def by blast

lemma queue_next: "queue_at m head (xs @ e # ys) \<Longrightarrow> m_next m e = hd (ys @ [head])"
  using chain_first unfolding queue_at_split by blast

lemma queue_prev: "queue_at m head (xs @ e # ys) \<Longrightarrow> m_prev m e = last (head # xs)"
  using chain_last unfolding queue_at_split by blast

lemma queue_is_empty: "queue_at m head xs \<Longrightarrow> iqueue_is_empty head m \<longleftrightarrow> xs = []"
  by (cases xs) (auto simp: iqueue_is_empty_def queue_at_def)

lemma queue_init: "head \<noteq> 0 \<Longrightarrow> queue_at (iqueue_init head m) head []"
  by (simp add: queue_at_def iqueue_init_def)

lemma queue_foreach:
  assumes "queue_at m head xs"
  shows "iqueue_foreach m head (m_next m head) = Some xs"
proof -
  have "chain m a ys head \<Longrightarrow> head \<notin> set ys \<Longrightarrow> iqueue_foreach m head (m_next m a) = Some ys" for a ys
    by (induction ys arbitrary: a) (subst iqueue_foreach.simps; auto)+
  then show ?thesis using assms by (simp add: queue_at_def)
qed

text \<open>Insertion after the last of the entries \<open>xs\<close>, or at the front.\<close>

lemma queue_add:
  assumes "queue_at m head (xs @ ys)" and "node \<notin> set (head # xs @ ys)" and "node \<noteq> 0"
  shows "queue_at (iqueue_add node (last (head # xs)) m) head (xs @ node # ys)"
proof (cases xs rule: rev_cases)
  case Nil
  then show ?thesis using assms by (cases ys) (auto simp: queue_at_def iqueue_add_def Let_def)
next
  case (snoc zs p)
  then show ?thesis using assms by (cases ys) (auto simp: queue_at_def iqueue_add_def Let_def)
qed

lemma queue_add_tail:
  assumes "queue_at m head xs" and "node \<notin> set (head # xs)" and "node \<noteq> 0"
  shows "queue_at (iqueue_add_tail node head m) head (xs @ [node])"
proof (cases xs rule: rev_cases)
  case Nil
  then show ?thesis using assms by (auto simp: queue_at_def iqueue_add_tail_def Let_def)
next
  case (snoc zs p)
  then show ?thesis using assms by (auto simp: queue_at_def iqueue_add_tail_def Let_def)
qed

lemma queue_del:
  assumes "queue_at m head (xs @ e # ys)"
  shows "queue_at (iqueue_del e m) head (xs @ ys)"
proof (cases xs rule: rev_cases)
  case Nil
  then show ?thesis using assms by (cases ys) (auto simp: queue_at_def iqueue_del_def Let_def)
next
  case (snoc zs p)
  then show ?thesis using assms by (cases ys) (auto simp: queue_at_def iqueue_del_def Let_def)
qed

lemma queue_del_init: "queue_at m head (xs @ e # ys) \<Longrightarrow> queue_at (iqueue_del_init e m) head (xs @ ys)"
proof -
  assume q: "queue_at m head (xs @ e # ys)"
  then have "queue_at (iqueue_del e m) head (xs @ ys)" by (rule queue_del)
  moreover have "e \<notin> set (head # xs @ ys)" using q by (simp add: queue_at_split)
  ultimately show ?thesis by (simp add: iqueue_del_init_def iqueue_init_def queue_at_def)
qed

text \<open>Removing between the neighbours, without clearing the entry's own links.\<close>

lemma queue_del_between:
  "queue_at m head (xs @ e # ys) \<Longrightarrow> queue_at (iqueue_del_between (m_prev m e) (m_next m e) m) head (xs @ ys)"
proof (cases xs rule: rev_cases)
  case Nil
  moreover assume "queue_at m head (xs @ e # ys)"
  ultimately show ?thesis by (cases ys) (auto simp: queue_at_def iqueue_del_between_def)
next
  case (snoc zs p)
  moreover assume "queue_at m head (xs @ e # ys)"
  ultimately show ?thesis by (cases ys) (auto simp: queue_at_def iqueue_del_between_def)
qed

subsection \<open>What an operation leaves alone\<close>

definition same_links :: "addr set \<Rightarrow> 'a links_scheme \<Rightarrow> 'a links_scheme \<Rightarrow> bool" where
  "same_links S m m' \<longleftrightarrow> (\<forall>a. a \<notin> S \<longrightarrow> m_next m' a = m_next m a \<and> m_prev m' a = m_prev m a)"

lemma same_links_refl: "same_links S m m"
  by (simp add: same_links_def)

lemma same_links_trans: "same_links S m m' \<Longrightarrow> same_links S' m' m'' \<Longrightarrow> S \<subseteq> T \<Longrightarrow> S' \<subseteq> T \<Longrightarrow> same_links T m m''"
  by (force simp: same_links_def)

lemma chain_frame: "chain m a xs b \<Longrightarrow> same_links S m m' \<Longrightarrow> set (a # b # xs) \<inter> S = {} \<Longrightarrow> chain m' a xs b"
  by (induction xs arbitrary: a) (auto simp: same_links_def)

lemma queue_frame: "queue_at m head xs \<Longrightarrow> same_links S m m' \<Longrightarrow> set (head # xs) \<inter> S = {} \<Longrightarrow> queue_at m' head xs"
  using chain_frame [of m head xs head S m'] by (auto simp: queue_at_def)

lemma queue_neighbours:
  "queue_at m head xs \<Longrightarrow> m_next m head \<in> set (head # xs) \<and> m_prev m head \<in> set (head # xs)"
  by (subst queue_first, assumption, subst queue_last, assumption) (cases xs; auto)

lemma links_add:
  assumes "queue_at m head (xs @ ys)" and "node \<notin> set (head # xs @ ys)"
  shows "same_links (set (node # head # xs @ ys)) m (iqueue_add node (last (head # xs)) m)"
proof -
  have "last (head # xs) \<in> set (head # xs)" by (rule last_in_set) simp
  moreover have "m_next m (last (head # xs)) \<in> set (head # xs @ ys)"
  proof (cases xs rule: rev_cases)
    case Nil
    then show ?thesis using queue_neighbours [OF assms(1)] by simp
  next
    case (snoc zs p)
    then have "m_next m p = hd (ys @ [head])" using queue_next [of m head zs p ys] assms(1) by simp
    then show ?thesis using snoc by (cases ys) auto
  qed
  ultimately show ?thesis by (auto simp: same_links_def iqueue_add_def Let_def)
qed

lemma links_add_tail:
  assumes "queue_at m head xs"
  shows "same_links (set (node # head # xs)) m (iqueue_add_tail node head m)"
  using queue_neighbours [OF assms] by (auto simp: same_links_def iqueue_add_tail_def Let_def)

lemma links_del:
  assumes "queue_at m head (xs @ e # ys)"
  shows "same_links (set (head # xs @ e # ys)) m (iqueue_del e m)"
proof -
  have "m_next m e \<in> set (head # ys)" using queue_next [OF assms] by (cases ys) auto
  moreover have "last (head # xs) \<in> set (head # xs)" by (rule last_in_set) simp
  then have "m_prev m e \<in> set (head # xs)" using queue_prev [OF assms] by simp
  ultimately show ?thesis by (auto simp: same_links_def iqueue_del_def Let_def)
qed

text \<open>The macros only write links.\<close>

lemma links_only [simp]:
  "links.more (set_next p v m) = links.more m" "links.more (set_prev p v m) = links.more m"
  "links.more (iqueue_init p m) = links.more m" "links.more (iqueue_add n h m) = links.more m"
  "links.more (iqueue_add_tail n h m) = links.more m" "links.more (iqueue_del e m) = links.more m"
  "links.more (iqueue_del_init e m) = links.more m"
  by (simp_all add: set_next_def set_prev_def iqueue_init_def iqueue_add_def iqueue_add_tail_def iqueue_del_def
      iqueue_del_init_def Let_def)

subsection \<open>Splicing\<close>

lemma queue_splice:
  assumes l: "queue_at m l xs" and h: "queue_at m h ys" and dis: "set (l # xs) \<inter> set (h # ys) = {}"
  shows "queue_at (iqueue_splice_init l h m) h (xs @ ys)" and "queue_at (iqueue_splice_init l h m) l []"
proof -
  have "l \<noteq> 0" using l by (simp add: queue_at_def)
  then show "queue_at (iqueue_splice_init l h m) l []" unfolding iqueue_splice_init_def by (rule queue_init)
  have "queue_at (iqueue_splice l h m) h (xs @ ys)"
  proof (cases xs)
    case Nil
    then have "iqueue_is_empty l m" using queue_is_empty [OF l] by simp
    then show ?thesis using Nil h by (simp add: iqueue_splice_def)
  next
    case (Cons x zs)
    let ?z = "last (x # zs)" and ?at = "hd (ys @ [h])"
    have "\<not> iqueue_is_empty l m" using queue_is_empty [OF l] Cons by simp
    then have eq: "iqueue_splice l h m = set_prev ?at ?z (set_next ?z ?at (set_next h x (set_prev x h m)))"
      using queue_first [OF l] queue_last [OF l] queue_first [OF h] Cons by (simp add: iqueue_splice_def Let_def)
    have dist: "distinct (h # x # zs @ ys)" "0 \<notin> set (h # x # zs @ ys)" using l h dis Cons by (auto simp: queue_at_def)
    have c: "chain m x zs l" "l \<notin> set (x # zs)" using l Cons by (simp_all add: queue_at_def)
    have h': "chain m h ys h" using h by (simp add: queue_at_def)
    show ?thesis
    proof (cases zs rule: rev_cases)
      case Nil
      then have "chain (iqueue_splice l h m) h (x # ys) h"
        unfolding eq using dist(1) h' by (cases ys) auto
      then show ?thesis using dist Cons Nil by (simp add: queue_at_def)
    next
      case (snoc ws z)
      then have "chain m x ws z" "chain m z [] l" using c(1) by simp_all
      then have "chain (iqueue_splice l h m) h (x # ws @ z # ys) h"
        unfolding eq using dist(1) h' snoc by (cases ys) auto
      then show ?thesis using dist Cons snoc by (simp add: queue_at_def)
    qed
  qed
  moreover have "l \<notin> set (h # xs @ ys)" using l dis by (auto simp: queue_at_def)
  ultimately show "queue_at (iqueue_splice_init l h m) h (xs @ ys)"
    by (simp add: iqueue_splice_init_def iqueue_init_def queue_at_def)
qed

end
