(* ===== verification/Kcp_Memory.thy ===== *)
theory Kcp_Memory
  imports Kcp_Queue Kcp_Link "HOL-Library.Multiset"
begin

text \<open>
  The pointer code of \<^verbatim>\<open>ikcp.c\<close>: segments are blocks of the allocator, linked into the four queues of a control
  block with the macros of \<^theory_text>\<open>Kcp_Queue\<close>.  Reading a segment that is not allocated and freeing a block that is
  not allocated are failures, and a loop that does not reach the head again does not return.  The
  theorems show that the pointer loops implement the operations on lists of the other KCP theories, free
  exactly the segments that leave the queues, and that \<open>ikcp_release\<close> gives back every block of the
  control block.
\<close>

subsection \<open>Memory\<close>

record memory = links +
  m_seg :: "addr \<Rightarrow> IKCPSEG"
  m_live :: "addr \<Rightarrow> bool"

definition seg_at :: "memory \<Rightarrow> addr \<Rightarrow> IKCPSEG result" where
  "seg_at m a = (if m_live m a then Inr (m_seg m a) else Inl OutOfBounds)"

definition ikcp_free :: "addr \<Rightarrow> memory \<Rightarrow> memory result" where
  "ikcp_free a m = (if m_live m a then Inr (m\<lparr>m_live := (m_live m)(a := False)\<rparr>) else Inl BrokenPrecondition)"

text \<open>The addresses of a control block: the block itself, the queue heads inside it, and the blocks its
  \<open>buffer\<close> and \<open>acklist\<close> point to (0 for none).  The remaining fields are those of \<open>IKCPCB\<close>, whose list fields the
  pointer code does not use.\<close>

record kcp_at =
  ka_self :: addr
  ka_snd_queue :: addr
  ka_rcv_queue :: addr
  ka_snd_buf :: addr
  ka_rcv_buf :: addr
  ka_buffer :: addr
  ka_acklist :: addr

text \<open>Running code that may fail or not return.\<close>

definition bind_run :: "'a result option \<Rightarrow> ('a \<Rightarrow> 'b result option) \<Rightarrow> 'b result option" where
  "bind_run r f = (case r of None \<Rightarrow> None | Some (Inl e) \<Rightarrow> Some (Inl e) | Some (Inr x) \<Rightarrow> f x)"

lemma bind_run_simps [simp]: "bind_run (Some (Inr x)) f = f x" "bind_run (Some (Inl e)) f = Some (Inl e)"
  by (simp_all add: bind_run_def)

subsection \<open>The code\<close>

text \<open>The loop of \<open>ikcp_parse_una\<close>.\<close>

partial_function (option) una_loop :: "addr \<Rightarrow> u32 \<Rightarrow> addr \<Rightarrow> memory \<Rightarrow> IKCPCB \<Rightarrow> (memory \<times> IKCPCB) result option" where
  "una_loop head una p m k =
     (if p = head then Some (Inr (m, k))
      else (case seg_at m p of
          Inl e \<Rightarrow> Some (Inl e)
        | Inr seg \<Rightarrow>
            if itimediff una (sg_sn seg) > 0
            then (case ikcp_free p (iqueue_del p m) of
                Inl e \<Rightarrow> Some (Inl e)
              | Inr m' \<Rightarrow> una_loop head una (m_next m p) m'
                  (k\<lparr>kc_ackedlen := kc_ackedlen k + sg_len seg, kc_nsnd_buf := kc_nsnd_buf k - 1\<rparr>))
            else Some (Inr (m, k))))"

definition ptr_parse_una :: "kcp_at \<Rightarrow> u32 \<Rightarrow> memory \<Rightarrow> IKCPCB \<Rightarrow> (memory \<times> IKCPCB) result option" where
  "ptr_parse_una a una m k = una_loop (ka_snd_buf a) una (m_next m (ka_snd_buf a)) m k"

text \<open>The loop of \<open>ikcp_parse_ack\<close>.\<close>

partial_function (option) ack_loop :: "addr \<Rightarrow> u32 \<Rightarrow> addr \<Rightarrow> memory \<Rightarrow> IKCPCB \<Rightarrow> (memory \<times> IKCPCB) result option" where
  "ack_loop head sn p m k =
     (if p = head then Some (Inr (m, k))
      else (case seg_at m p of
          Inl e \<Rightarrow> Some (Inl e)
        | Inr seg \<Rightarrow>
            if sn = sg_sn seg
            then (case ikcp_free p (iqueue_del p m) of
                Inl e \<Rightarrow> Some (Inl e)
              | Inr m' \<Rightarrow> Some (Inr (m', k\<lparr>kc_ackedlen := kc_ackedlen k + sg_len seg, kc_nsnd_buf := kc_nsnd_buf k - 1\<rparr>)))
            else if itimediff sn (sg_sn seg) < 0 then Some (Inr (m, k))
            else ack_loop head sn (m_next m p) m k))"

definition ptr_parse_ack :: "kcp_at \<Rightarrow> u32 \<Rightarrow> memory \<Rightarrow> IKCPCB \<Rightarrow> (memory \<times> IKCPCB) result option" where
  "ptr_parse_ack a sn m k =
     (if itimediff sn (kc_snd_una k) < 0 \<or> itimediff sn (kc_snd_nxt k) \<ge> 0 then Some (Inr (m, k))
      else ack_loop (ka_snd_buf a) sn (m_next m (ka_snd_buf a)) m k)"

text \<open>\<open>ikcp_parse_data\<close>: the search from the tail, the insertion, and the move to the receive queue.\<close>

partial_function (option) find_back :: "addr \<Rightarrow> u32 \<Rightarrow> memory \<Rightarrow> addr \<Rightarrow> (addr \<times> bool) result option" where
  "find_back head sn m p =
     (if p = head then Some (Inr (p, False))
      else (case seg_at m p of
          Inl e \<Rightarrow> Some (Inl e)
        | Inr seg \<Rightarrow>
            if sg_sn seg = sn then Some (Inr (p, True))
            else if itimediff sn (sg_sn seg) > 0 then Some (Inr (p, False))
            else find_back head sn m (m_prev m p)))"

partial_function (option) move_loop :: "kcp_at \<Rightarrow> memory \<Rightarrow> IKCPCB \<Rightarrow> (memory \<times> IKCPCB) result option" where
  "move_loop a m k =
     (if iqueue_is_empty (ka_rcv_buf a) m then Some (Inr (m, k))
      else let p = m_next m (ka_rcv_buf a) in
        (case seg_at m p of
          Inl e \<Rightarrow> Some (Inl e)
        | Inr seg \<Rightarrow>
            if sg_sn seg = kc_rcv_nxt k \<and> kc_nrcv_que k < kc_rcv_wnd k
            then move_loop a (iqueue_add_tail p (ka_rcv_queue a) (iqueue_del p m))
              (k\<lparr>kc_nrcv_buf := kc_nrcv_buf k - 1, kc_nrcv_que := kc_nrcv_que k + 1, kc_rcv_nxt := kc_rcv_nxt k + 1\<rparr>)
            else Some (Inr (m, k))))"

definition ptr_parse_data :: "kcp_at \<Rightarrow> addr \<Rightarrow> memory \<Rightarrow> IKCPCB \<Rightarrow> (memory \<times> IKCPCB) result option" where
  "ptr_parse_data a newseg m k =
     bind_run (Some (seg_at m newseg)) (\<lambda>new.
       let sn = sg_sn new in
       if itimediff sn (kc_rcv_nxt k + kc_rcv_wnd k) \<ge> 0 \<or> itimediff sn (kc_rcv_nxt k) < 0
       then bind_run (Some (ikcp_free newseg m)) (\<lambda>m'. Some (Inr (m', k)))
       else bind_run (find_back (ka_rcv_buf a) sn m (m_prev m (ka_rcv_buf a))) (\<lambda>(p, repeated).
         if repeated then bind_run (Some (ikcp_free newseg m)) (\<lambda>m'. move_loop a m' k)
         else move_loop a (iqueue_add newseg p (iqueue_init newseg m)) (k\<lparr>kc_nrcv_buf := kc_nrcv_buf k + 1\<rparr>)))"

text \<open>\<open>ikcp_release\<close>.  The counters and pointers it clears are in the block it frees last.\<close>

partial_function (option) release_queue :: "addr \<Rightarrow> memory \<Rightarrow> memory result option" where
  "release_queue head m =
     (if iqueue_is_empty head m then Some (Inr m)
      else let seg = m_next m head in
        (case ikcp_free seg (iqueue_del seg m) of
          Inl e \<Rightarrow> Some (Inl e)
        | Inr m' \<Rightarrow> release_queue head m'))"

definition free_if :: "addr \<Rightarrow> memory \<Rightarrow> memory result option" where
  "free_if p m = (if p \<noteq> 0 then Some (ikcp_free p m) else Some (Inr m))"

definition ikcp_release :: "kcp_at \<Rightarrow> memory \<Rightarrow> memory result option" where
  "ikcp_release a m =
     bind_run (release_queue (ka_snd_buf a) m) (\<lambda>m.
     bind_run (release_queue (ka_rcv_buf a) m) (\<lambda>m.
     bind_run (release_queue (ka_snd_queue a) m) (\<lambda>m.
     bind_run (release_queue (ka_rcv_queue a) m) (\<lambda>m.
     bind_run (free_if (ka_buffer a) m) (\<lambda>m.
     bind_run (free_if (ka_acklist a) m) (\<lambda>m.
       Some (ikcp_free (ka_self a) m)))))))"

subsection \<open>One queue\<close>

lemma links_keep [simp]:
  "m_seg (iqueue_init p m) = m_seg m" "m_live (iqueue_init p m) = m_live m"
  "m_seg (iqueue_add n h m) = m_seg m" "m_live (iqueue_add n h m) = m_live m"
  "m_seg (iqueue_add_tail n h m) = m_seg m" "m_live (iqueue_add_tail n h m) = m_live m"
  "m_seg (iqueue_del e m) = m_seg m" "m_live (iqueue_del e m) = m_live m"
  by (simp_all add: set_next_def set_prev_def iqueue_init_def iqueue_add_def iqueue_add_tail_def iqueue_del_def Let_def)

lemma free_live: "m_live m p \<Longrightarrow> ikcp_free p m = Inr (m\<lparr>m_live := (m_live m)(p := False)\<rparr>)"
  by (simp add: ikcp_free_def)

lemma seg_at_live: "m_live m p \<Longrightarrow> seg_at m p = Inr (m_seg m p)"
  by (simp add: seg_at_def)

lemma queue_live [simp]: "queue_at (m\<lparr>m_live := f\<rparr>) head ns \<longleftrightarrow> queue_at m head ns" for m :: memory
proof -
  have "chain (m\<lparr>m_live := f\<rparr>) b xs c \<longleftrightarrow> chain m b xs c" for b xs c by (induction xs arbitrary: b) auto
  then show ?thesis by (simp add: queue_at_def)
qed

text \<open>The blocks \<open>F\<close> are freed, links change at \<open>S\<close> only, no segment is written.\<close>

definition freed :: "addr set \<Rightarrow> addr set \<Rightarrow> memory \<Rightarrow> memory \<Rightarrow> bool" where
  "freed F S m m' \<longleftrightarrow> same_links S m m' \<and> m_seg m' = m_seg m \<and> (\<forall>x. m_live m' x \<longleftrightarrow> m_live m x \<and> x \<notin> F)"

lemma freed_none: "freed {} S m m"
  by (simp add: freed_def same_links_refl)

lemma freed_trans:
  "freed F S m m1 \<Longrightarrow> freed F' S' m1 m2 \<Longrightarrow> S \<subseteq> T \<Longrightarrow> S' \<subseteq> T \<Longrightarrow> F \<union> F' = G \<Longrightarrow> freed G T m m2"
  by (auto simp: freed_def intro: same_links_trans)

lemma del_free:
  assumes "queue_at m head (xs @ p # ys)" and "m_live m p"
  shows "\<exists>m'. ikcp_free p (iqueue_del p m) = Inr m' \<and> queue_at m' head (xs @ ys) \<and> freed {p} (set (head # xs @ p # ys)) m m'"
proof -
  have "same_links S m m1 \<Longrightarrow> same_links S m (m1\<lparr>m_live := f\<rparr>)" for S f and m1 :: memory by (simp add: same_links_def)
  then show ?thesis using queue_del [OF assms(1)] links_del [OF assms(1)] assms(2)
    by (simp add: free_live freed_def fun_upd_def)
qed

lemma una_loop_spec:
  assumes "queue_at m head ns" and "\<forall>n\<in>set ns. m_live m n" and "una_remove una (map (m_seg m) ns) = (gone, rest)"
  shows "\<exists>gs rs m'. ns = gs @ rs \<and> map (m_seg m) gs = gone \<and> map (m_seg m) rs = rest
    \<and> una_loop head una (m_next m head) m k = Some (Inr (m', k\<lparr>kc_ackedlen := kc_ackedlen k + sum_list (map sg_len gone),
        kc_nsnd_buf := kc_nsnd_buf k - word_of_nat (length gone)\<rparr>))
    \<and> queue_at m' head rs \<and> freed (set gs) (set (head # ns)) m m'"
  using assms
proof (induction ns arbitrary: m k gone)
  case Nil
  then have "m_next m head = head" using queue_first by fastforce
  then have "una_loop head una (m_next m head) m k = Some (Inr (m, k))" by (subst una_loop.simps) simp
  then show ?case using Nil by (intro exI [of _ "[]"] exI [of _ m]) (simp add: freed_none)
next
  case (Cons n ns)
  have n: "m_next m head = n" "n \<noteq> head" "n \<notin> set ns" using Cons.prems(1) by (auto simp: queue_at_def)
  have live: "m_live m n" using Cons.prems(2) by simp
  show ?case
  proof (cases "itimediff una (sg_sn (m_seg m n)) > 0")
    case False
    then have "una_loop head una (m_next m head) m k = Some (Inr (m, k))"
      using n live by (subst una_loop.simps) (simp add: seg_at_live)
    then show ?thesis using Cons.prems False by (intro exI [of _ "[]"] exI [of _ "n # ns"] exI [of _ m]) (auto simp: freed_none)
  next
    case True
    obtain m1 where m1: "ikcp_free n (iqueue_del n m) = Inr m1" "queue_at m1 head ns" "freed {n} (set (head # n # ns)) m m1"
      using del_free [of m head "[]" n ns] Cons.prems(1) live by auto
    let ?k = "k\<lparr>kc_ackedlen := kc_ackedlen k + sg_len (m_seg m n), kc_nsnd_buf := kc_nsnd_buf k - 1\<rparr>"
    have seg: "m_seg m1 = m_seg m" and live1: "\<forall>x\<in>set ns. m_live m1 x"
      using m1(3) Cons.prems(2) n(3) by (auto simp: freed_def)
    obtain gone' where g: "una_remove una (map (m_seg m1) ns) = (gone', rest)" "gone = m_seg m n # gone'"
      using Cons.prems(3) True seg by (auto split: prod.splits)
    have nxt: "m_next m n = m_next m1 head"
      using queue_next [of m head "[]" n ns] queue_first [OF m1(2)] Cons.prems(1) by simp
    obtain gs rs m' where r: "ns = gs @ rs" "map (m_seg m1) gs = gone'" "map (m_seg m1) rs = rest"
      "una_loop head una (m_next m1 head) m1 ?k = Some (Inr (m', ?k\<lparr>kc_ackedlen := kc_ackedlen ?k + sum_list (map sg_len gone'),
          kc_nsnd_buf := kc_nsnd_buf ?k - word_of_nat (length gone')\<rparr>))"
      "queue_at m' head rs" "freed (set gs) (set (head # ns)) m1 m'"
      using Cons.IH [OF m1(2) live1 g(1)] by blast
    have "una_loop head una (m_next m head) m k = una_loop head una (m_next m1 head) m1 ?k"
      using n live True m1(1) nxt by (subst una_loop.simps) (simp add: seg_at_live)
    moreover have "freed (set (n # gs)) (set (head # n # ns)) m m'" by (rule freed_trans [OF m1(3) r(6)]) auto
    ultimately show ?thesis using r g seg
      by (intro exI [of _ "n # gs"] exI [of _ rs] exI [of _ m']) (simp add: algebra_simps)
  qed
qed

lemma ack_loop_spec:
  assumes "queue_at m head (xs @ ns)" and "\<forall>n\<in>set ns. m_live m n" and "ack_remove sn (map (m_seg m) ns) = (r, rest)"
  shows "\<exists>ys F m'. map (m_seg m) ys = rest \<and> set ns = set ys \<union> F \<and> F \<inter> set ys = {} \<and> distinct ys
    \<and> ack_loop head sn (hd (ns @ [head])) m k = Some (Inr (m', case r of None \<Rightarrow> k | Some seg \<Rightarrow>
        k\<lparr>kc_ackedlen := kc_ackedlen k + sg_len seg, kc_nsnd_buf := kc_nsnd_buf k - 1\<rparr>))
    \<and> queue_at m' head (xs @ ys) \<and> freed F (set (head # xs @ ns)) m m'"
  using assms
proof (induction ns arbitrary: xs rest)
  case Nil
  have "ack_loop head sn head m k = Some (Inr (m, k))" by (subst ack_loop.simps) simp
  then show ?case using Nil by (intro exI [of _ "[]"] exI [of _ "{}"] exI [of _ m]) (simp add: freed_none)
next
  case (Cons n ns)
  have q: "queue_at m head (xs @ n # ns)" using Cons.prems(1) by simp
  have n: "n \<noteq> head" "n \<notin> set ns" "distinct ns" using q by (auto simp: queue_at_def)
  have live: "m_live m n" using Cons.prems(2) by simp
  note step = ack_loop.simps [of head sn n m k]
  consider (hit) "sn = sg_sn (m_seg m n)" | (stop) "sn \<noteq> sg_sn (m_seg m n)" "itimediff sn (sg_sn (m_seg m n)) < 0"
    | (go) "sn \<noteq> sg_sn (m_seg m n)" "\<not> itimediff sn (sg_sn (m_seg m n)) < 0" by blast
  then show ?case
  proof cases
    case hit
    obtain m1 where m1: "ikcp_free n (iqueue_del n m) = Inr m1" "queue_at m1 head (xs @ ns)"
      "freed {n} (set (head # xs @ n # ns)) m m1" using del_free [OF q live] by blast
    then have "ack_loop head sn n m k = Some (Inr (m1, k\<lparr>kc_ackedlen := kc_ackedlen k + sg_len (m_seg m n), kc_nsnd_buf := kc_nsnd_buf k - 1\<rparr>))"
      unfolding step using hit n live by (simp add: seg_at_live)
    then show ?thesis using Cons.prems(3) hit m1 n
      by (intro exI [of _ ns] exI [of _ "{n}"] exI [of _ m1]) auto
  next
    case stop
    then have "ack_loop head sn n m k = Some (Inr (m, k))" using n live by (simp add: step seg_at_live)
    then show ?thesis using Cons.prems stop n
      by (intro exI [of _ "n # ns"] exI [of _ "{}"] exI [of _ m]) (auto simp: freed_none)
  next
    case go
    obtain rest' where rest': "ack_remove sn (map (m_seg m) ns) = (r, rest')" "rest = m_seg m n # rest'"
      using Cons.prems(3) go by (auto split: prod.splits)
    have q': "queue_at m head ((xs @ [n]) @ ns)" and l': "\<forall>x\<in>set ns. m_live m x" using q Cons.prems(2) by simp_all
    obtain ys F m' where r: "map (m_seg m) ys = rest'" "set ns = set ys \<union> F" "F \<inter> set ys = {}" "distinct ys"
      "ack_loop head sn (hd (ns @ [head])) m k = Some (Inr (m', case r of None \<Rightarrow> k | Some seg \<Rightarrow>
        k\<lparr>kc_ackedlen := kc_ackedlen k + sg_len seg, kc_nsnd_buf := kc_nsnd_buf k - 1\<rparr>))"
      "queue_at m' head ((xs @ [n]) @ ys)" "freed F (set (head # (xs @ [n]) @ ns)) m m'"
      using Cons.IH [OF q' l' rest'(1)] by blast
    have "m_next m n = hd (ns @ [head])" using queue_next [OF q] .
    then have "ack_loop head sn n m k = ack_loop head sn (hd (ns @ [head])) m k" using go n live by (simp add: step seg_at_live)
    then show ?thesis using r rest' n by (intro exI [of _ "n # ys"] exI [of _ F] exI [of _ m']) auto
  qed
qed

text \<open>The search from the tail stops after the part \<open>xs\<close> of the buffer.\<close>

lemma find_back_spec:
  assumes "queue_at m head (xs @ ys)" and "\<forall>n\<in>set xs. m_live m n"
  shows "\<exists>us vs. xs = us @ vs \<and> find_back head (sg_sn new) m (last (head # xs)) =
      Some (Inr (last (head # us), insert_back new (rev (map (m_seg m) xs)) = None))
    \<and> (\<forall>r. insert_back new (rev (map (m_seg m) xs)) = Some r \<longrightarrow> rev r = map (m_seg m) us @ new # map (m_seg m) vs)"
  using assms
proof (induction xs arbitrary: ys rule: rev_induct)
  case Nil
  have "find_back head (sg_sn new) m head = Some (Inr (head, False))" by (subst find_back.simps) simp
  then show ?case by simp
next
  case (snoc n xs)
  have q: "queue_at m head (xs @ n # ys)" using snoc.prems(1) by simp
  have n: "n \<noteq> head" "m_live m n" using q snoc.prems(2) by (auto simp: queue_at_def)
  note step = find_back.simps [of head "sg_sn new" m n]
  consider (hit) "sg_sn (m_seg m n) = sg_sn new"
    | (stop) "sg_sn (m_seg m n) \<noteq> sg_sn new" "itimediff (sg_sn new) (sg_sn (m_seg m n)) > 0"
    | (go) "sg_sn (m_seg m n) \<noteq> sg_sn new" "\<not> itimediff (sg_sn new) (sg_sn (m_seg m n)) > 0" by blast
  then show ?case
  proof cases
    case hit
    then have "find_back head (sg_sn new) m n = Some (Inr (n, True))" unfolding step using n by (simp add: seg_at_live)
    then show ?thesis using hit by (intro exI [of _ "xs @ [n]"] exI [of _ "[]"]) simp
  next
    case stop
    then have "find_back head (sg_sn new) m n = Some (Inr (n, False))" unfolding step using n by (simp add: seg_at_live)
    then show ?thesis using stop by (intro exI [of _ "xs @ [n]"] exI [of _ "[]"]) simp
  next
    case go
    have l: "\<forall>x\<in>set xs. m_live m x" using snoc.prems(2) by simp
    obtain us vs where r: "xs = us @ vs" "find_back head (sg_sn new) m (last (head # xs)) =
        Some (Inr (last (head # us), insert_back new (rev (map (m_seg m) xs)) = None))"
      "\<forall>r. insert_back new (rev (map (m_seg m) xs)) = Some r \<longrightarrow> rev r = map (m_seg m) us @ new # map (m_seg m) vs"
      using snoc.IH [OF q l] by blast
    let ?i = "insert_back new (rev (map (m_seg m) xs))"
    have f: "find_back head (sg_sn new) m n = Some (Inr (last (head # us), ?i = None))"
      unfolding step using go n queue_prev [OF q] r(2) by (simp add: seg_at_live del: last.simps)
    have i: "insert_back new (rev (map (m_seg m) (xs @ [n]))) = map_option (\<lambda>r. m_seg m n # r) ?i"
      using go by simp
    have l2: "last (head # xs @ [n]) = n" by simp
    show ?thesis
    proof (cases ?i)
      case None
      then show ?thesis using f r(1) unfolding i l2 by (intro exI [of _ us] exI [of _ "vs @ [n]"]) simp
    next
      case (Some z)
      then have "rev z = map (m_seg m) us @ new # map (m_seg m) vs" using r(3) by blast
      then show ?thesis using f r(1) Some unfolding i l2 by (intro exI [of _ us] exI [of _ "vs @ [n]"]) simp
    qed
  qed
qed

lemma release_queue_spec:
  assumes "queue_at m head ns" and "\<forall>n\<in>set ns. m_live m n"
  shows "\<exists>m'. release_queue head m = Some (Inr m') \<and> queue_at m' head [] \<and> freed (set ns) (set (head # ns)) m m'"
  using assms
proof (induction ns arbitrary: m)
  case Nil
  then have "release_queue head m = Some (Inr m)" using queue_is_empty [OF Nil(1)] by (subst release_queue.simps) simp
  then show ?case using Nil freed_none by auto
next
  case (Cons n ns)
  have n: "m_next m head = n" "n \<notin> set ns" using Cons.prems(1) by (auto simp: queue_at_def)
  obtain m1 where m1: "ikcp_free n (iqueue_del n m) = Inr m1" "queue_at m1 head ns" "freed {n} (set (head # n # ns)) m m1"
    using del_free [of m head "[]" n ns] Cons.prems by auto
  then have "\<forall>x\<in>set ns. m_live m1 x" using Cons.prems(2) n(2) by (auto simp: freed_def)
  from Cons.IH [OF m1(2) this] obtain m' where m': "release_queue head m1 = Some (Inr m')" "queue_at m' head []"
    "freed (set ns) (set (head # ns)) m1 m'" by blast
  have "release_queue head m = release_queue head m1"
    using queue_is_empty [OF Cons.prems(1)] m1(1) n(1) by (subst release_queue.simps) simp
  moreover have "freed (set (n # ns)) (set (head # n # ns)) m m'" by (rule freed_trans [OF m1(3) m'(3)]) auto
  ultimately show ?case using m' by (intro exI [of _ m']) simp
qed

subsection \<open>The control block in memory\<close>

text \<open>The four queues with their entries.  \<open>R\<close> are the allocated blocks that belong to others; every other
  allocated block is one of the control block's, exactly once.\<close>

definition heads :: "kcp_at \<Rightarrow> addr list" where
  "heads a = [ka_snd_queue a, ka_rcv_queue a, ka_snd_buf a, ka_rcv_buf a]"

definition own_blocks :: "kcp_at \<Rightarrow> addr list" where
  "own_blocks a = ka_self a # filter (\<lambda>p. p \<noteq> 0) [ka_buffer a, ka_acklist a]"

definition laid_out :: "addr set \<Rightarrow> memory \<Rightarrow> kcp_at \<Rightarrow> addr list \<Rightarrow> addr list \<Rightarrow> addr list \<Rightarrow> addr list \<Rightarrow> bool" where
  "laid_out R m a A B C D \<longleftrightarrow>
     queue_at m (ka_snd_queue a) A \<and> queue_at m (ka_rcv_queue a) B \<and> queue_at m (ka_snd_buf a) C \<and> queue_at m (ka_rcv_buf a) D
   \<and> distinct (heads a @ own_blocks a @ A @ B @ C @ D)
   \<and> R \<inter> set (heads a @ own_blocks a @ A @ B @ C @ D) = {} \<and> 0 \<notin> R
   \<and> (\<forall>x. m_live m x \<longleftrightarrow> x \<in> R \<or> x \<in> set (own_blocks a @ A @ B @ C @ D))"

definition with_queues :: "IKCPCB \<Rightarrow> memory \<Rightarrow> addr list \<Rightarrow> addr list \<Rightarrow> addr list \<Rightarrow> addr list \<Rightarrow> IKCPCB" where
  "with_queues k m A B C D = k\<lparr>kc_snd_queue := map (m_seg m) A, kc_rcv_queue := map (m_seg m) B,
     kc_snd_buf := map (m_seg m) C, kc_rcv_buf := map (m_seg m) D\<rparr>"

text \<open>Memory \<open>m\<close> with the block at \<open>a\<close> and the fields \<open>k\<close> represents the control block \<open>K\<close> of the other theories.\<close>

definition represents :: "addr set \<Rightarrow> memory \<Rightarrow> kcp_at \<Rightarrow> IKCPCB \<Rightarrow> IKCPCB \<Rightarrow> bool" where
  "represents R m a k K \<longleftrightarrow> (\<exists>A B C D. laid_out R m a A B C D \<and> K = with_queues k m A B C D)"

lemma representsI: "laid_out R m a A B C D \<Longrightarrow> K = with_queues k m A B C D \<Longrightarrow> represents R m a k K"
  unfolding represents_def by blast

lemma laid_out_live: "laid_out R m a A B C D \<Longrightarrow> \<forall>n\<in>set (A @ B @ C @ D). m_live m n"
  by (auto simp: laid_out_def)

text \<open>The queues are apart.\<close>

lemma laid_out_apart:
  assumes "laid_out R m a A B C D"
  shows "set (ka_snd_queue a # A) \<inter> (set (ka_rcv_buf a # D) \<union> set (ka_rcv_queue a # B)) = {}"
    and "set (ka_snd_buf a # C) \<inter> (set (ka_rcv_buf a # D) \<union> set (ka_rcv_queue a # B)) = {}"
    and "set (ka_rcv_buf a # D) \<inter> set (ka_rcv_queue a # B) = {}" and "set (ka_snd_queue a # A) \<inter> set (ka_snd_buf a # C) = {}"
  using assms by (auto simp: laid_out_def heads_def)

lemma laid_out_snd_buf:
  assumes l: "laid_out R m a A B C D" and f: "freed F (set (ka_snd_buf a # C)) m m'" and q: "queue_at m' (ka_snd_buf a) C'"
    and s: "set C = set C' \<union> F" "F \<inter> set C' = {}"
  shows "laid_out R m' a A B C' D"
proof -
  have sl: "same_links (set (ka_snd_buf a # C)) m m'" using f by (simp add: freed_def)
  have q0: "queue_at m (ka_snd_queue a) A" "queue_at m (ka_rcv_queue a) B" "queue_at m (ka_rcv_buf a) D" using l by (simp_all add: laid_out_def)
  have ap: "set (ka_snd_queue a # A) \<inter> set (ka_snd_buf a # C) = {}" "set (ka_rcv_queue a # B) \<inter> set (ka_snd_buf a # C) = {}"
    "set (ka_rcv_buf a # D) \<inter> set (ka_snd_buf a # C) = {}"
    using laid_out_apart [OF l] by blast+
  note other = queue_frame [OF q0(1) sl ap(1)] queue_frame [OF q0(2) sl ap(2)] queue_frame [OF q0(3) sl ap(3)]
  let ?old = "A @ B @ C @ D" and ?new = "A @ B @ C' @ D"
  have "distinct C'" using q by (simp add: queue_at_def)
  moreover have dist: "distinct (heads a @ own_blocks a @ ?old)" using l unfolding laid_out_def by (elim conjE)
  ultimately have d: "distinct (heads a @ own_blocks a @ ?new)" using s(1) by (simp add: Int_Un_distrib Int_Un_distrib2)
  have F: "F \<inter> set (heads a @ own_blocks a @ A @ B @ D) = {}"
    using dist s(1) by (simp add: Int_Un_distrib Int_Un_distrib2 Int_commute)
  have old: "set (own_blocks a @ ?old) = set (own_blocks a @ ?new) \<union> F" using s(1) by auto
  have r: "R \<inter> set (heads a @ own_blocks a @ ?old) = {}" "0 \<notin> R" using l unfolding laid_out_def by blast+
  then have r1: "R \<inter> set (heads a @ own_blocks a @ ?new) = {}" and RF: "R \<inter> F = {}" using s(1) by auto
  have "\<forall>x. m_live m x \<longleftrightarrow> x \<in> R \<or> x \<in> set (own_blocks a @ ?old)" using l unfolding laid_out_def by (elim conjE)
  then have "\<forall>x. m_live m' x \<longleftrightarrow> (x \<in> R \<or> x \<in> set (own_blocks a @ ?new) \<union> F) \<and> x \<notin> F" using f unfolding freed_def old by blast
  moreover have "set (own_blocks a @ ?new) \<inter> F = {}" using F s(2) by auto
  ultimately have lv: "\<forall>x. m_live m' x \<longleftrightarrow> x \<in> R \<or> x \<in> set (own_blocks a @ ?new)" using RF by blast
  show ?thesis unfolding laid_out_def by (intro conjI; (rule other q d r1 r(2) lv))
qed

lemma laid_out_free:
  assumes l: "laid_out R m a A B C D" and n: "n \<in> R"
  shows "\<exists>m'. ikcp_free n m = Inr m' \<and> laid_out (R - {n}) m' a A B C D \<and> m_seg m' = m_seg m"
proof -
  have "m_live m n" using l n by (simp add: laid_out_def)
  then have "ikcp_free n m = Inr (m\<lparr>m_live := (m_live m)(n := False)\<rparr>)" by (rule free_live)
  moreover have "n \<notin> set (own_blocks a @ A @ B @ C @ D)" using l n by (auto simp: laid_out_def)
  then have "laid_out (R - {n}) (m\<lparr>m_live := (m_live m)(n := False)\<rparr>) a A B C D"
    using l unfolding laid_out_def by auto
  ultimately show ?thesis by simp
qed

text \<open>A block that belonged to nobody becomes an entry of the receive buffer.\<close>

lemma laid_out_take:
  assumes l: "laid_out R m a A B C (us @ vs)" and n: "n \<in> R"
    and q2: "queue_at m2 (ka_rcv_buf a) (us @ n # vs)" and l2: "same_links (set (n # ka_rcv_buf a # us @ vs)) m m2"
    and lv0: "m_live m2 = m_live m"
  shows "laid_out (R - {n}) m2 a A B C (us @ n # vs)"
proof -
  let ?h = "ka_rcv_buf a"
  have nq: "n \<notin> set (heads a @ own_blocks a @ A @ B @ C @ us @ vs)" using l n unfolding laid_out_def by auto
  have q0: "queue_at m (ka_snd_queue a) A" "queue_at m (ka_rcv_queue a) B" "queue_at m (ka_snd_buf a) C" using l by (simp_all add: laid_out_def)
  have ap: "set (ka_snd_queue a # A) \<inter> set (n # ?h # us @ vs) = {}" "set (ka_rcv_queue a # B) \<inter> set (n # ?h # us @ vs) = {}"
    "set (ka_snd_buf a # C) \<inter> set (n # ?h # us @ vs) = {}"
    using laid_out_apart [OF l] nq by (auto simp: heads_def)
  note other = queue_frame [OF q0(1) l2 ap(1)] queue_frame [OF q0(2) l2 ap(2)] queue_frame [OF q0(3) l2 ap(3)]
  let ?old = "A @ B @ C @ (us @ vs)" and ?new = "A @ B @ C @ (us @ n # vs)"
  have "mset (heads a @ own_blocks a @ ?new) = mset (n # heads a @ own_blocks a @ ?old)" by simp
  then have "distinct (heads a @ own_blocks a @ ?new) \<longleftrightarrow> distinct (n # heads a @ own_blocks a @ ?old)" by (rule mset_eq_imp_distinct_iff)
  moreover have d0: "distinct (heads a @ own_blocks a @ ?old)" using l unfolding laid_out_def by (elim conjE)
  ultimately have d: "distinct (heads a @ own_blocks a @ ?new)" using nq by (simp only: distinct.simps simp_thms)
  have s: "set (heads a @ own_blocks a @ ?new) = insert n (set (heads a @ own_blocks a @ ?old))"
    "set (own_blocks a @ ?new) = insert n (set (own_blocks a @ ?old))" by auto
  have "R \<inter> set (heads a @ own_blocks a @ ?old) = {}" using l unfolding laid_out_def by (elim conjE)
  then have r1: "(R - {n}) \<inter> set (heads a @ own_blocks a @ ?new) = {}" unfolding s by blast
  have r2: "0 \<notin> R - {n}" using l unfolding laid_out_def by blast
  have "\<forall>x. m_live m x \<longleftrightarrow> x \<in> R \<or> x \<in> set (own_blocks a @ ?old)" using l unfolding laid_out_def by (elim conjE)
  then have lv: "\<forall>x. m_live m2 x \<longleftrightarrow> x \<in> R - {n} \<or> x \<in> set (own_blocks a @ ?new)" unfolding s lv0 using n by blast
  show ?thesis unfolding laid_out_def by (intro conjI; (rule other q2 d r1 r2 lv))
qed

lemma laid_out_fresh: "laid_out R m a A B C D \<Longrightarrow> n \<in> R \<Longrightarrow> n \<noteq> 0 \<and> n \<notin> set (heads a @ own_blocks a @ A @ B @ C @ D)"
  unfolding laid_out_def by auto

lemma laid_out_insert:
  assumes l: "laid_out R m a A B C (us @ vs)" and n: "n \<in> R"
  shows "laid_out (R - {n}) (iqueue_add n (last (ka_rcv_buf a # us)) (iqueue_init n m)) a A B C (us @ n # vs)"
proof -
  let ?h = "ka_rcv_buf a" let ?m1 = "iqueue_init n m" let ?m2 = "iqueue_add n (last (?h # us)) ?m1"
  have n0: "n \<noteq> 0" and n1: "n \<notin> set (?h # us @ vs)" using laid_out_fresh [OF l n] by (auto simp: heads_def)
  have l1: "same_links {n} m ?m1" by (simp add: same_links_def iqueue_init_def)
  have q: "queue_at m ?h (us @ vs)" using l by (simp add: laid_out_def)
  have q1: "queue_at ?m1 ?h (us @ vs)" by (rule queue_frame [OF q l1]) (use n1 in auto)
  have l2: "same_links (set (n # ?h # us @ vs)) m ?m2"
    by (rule same_links_trans [OF l1 links_add [OF q1 n1]]) auto
  show ?thesis by (rule laid_out_take [OF l n queue_add [OF q1 n1 n0] l2]) simp
qed

lemma laid_out_move:
  assumes l: "laid_out R m a A B C (ms @ D)"
    and sl: "same_links (set (ka_rcv_buf a # ms @ D) \<union> set (ka_rcv_queue a # B)) m m'" and lv0: "m_live m' = m_live m"
    and q: "queue_at m' (ka_rcv_queue a) (B @ ms)" "queue_at m' (ka_rcv_buf a) D"
  shows "laid_out R m' a A (B @ ms) C D"
proof -
  have q0: "queue_at m (ka_snd_queue a) A" "queue_at m (ka_snd_buf a) C" using l by (simp_all add: laid_out_def)
  have other: "queue_at m' (ka_snd_queue a) A" "queue_at m' (ka_snd_buf a) C"
    using queue_frame [OF q0(1) sl laid_out_apart(1) [OF l]] queue_frame [OF q0(2) sl laid_out_apart(2) [OF l]] by blast+
  let ?old = "A @ B @ C @ (ms @ D)" and ?new = "A @ (B @ ms) @ C @ D"
  have set: "set ?new = set ?old" by auto
  have "mset (heads a @ own_blocks a @ ?new) = mset (heads a @ own_blocks a @ ?old)"
    by (simp only: mset_append append_assoc add.commute add.left_commute)
  then have "distinct (heads a @ own_blocks a @ ?new) \<longleftrightarrow> distinct (heads a @ own_blocks a @ ?old)"
    by (rule mset_eq_imp_distinct_iff)
  then have d: "distinct (heads a @ own_blocks a @ ?new)" using l unfolding laid_out_def by (elim conjE) simp
  have s: "set (heads a @ own_blocks a @ ?new) = set (heads a @ own_blocks a @ ?old)" "set (own_blocks a @ ?new) = set (own_blocks a @ ?old)"
    using set by (simp_all only: set_append)
  have r1: "R \<inter> set (heads a @ own_blocks a @ ?new) = {}" unfolding s using l unfolding laid_out_def by (elim conjE)
  have r2: "0 \<notin> R" using l unfolding laid_out_def by (elim conjE)
  have "\<forall>x. m_live m x \<longleftrightarrow> x \<in> R \<or> x \<in> set (own_blocks a @ ?new)" unfolding s using l unfolding laid_out_def by (elim conjE)
  then have lv: "\<forall>x. m_live m' x \<longleftrightarrow> x \<in> R \<or> x \<in> set (own_blocks a @ ?new)" unfolding lv0 .
  show ?thesis unfolding laid_out_def by (intro conjI; (rule other q d r1 r2 lv))
qed

text \<open>The queues exchanged: what is shown for the receive side holds for the send side.\<close>

definition swapped :: "kcp_at \<Rightarrow> kcp_at" where
  "swapped a = a\<lparr>ka_snd_queue := ka_rcv_buf a, ka_rcv_queue := ka_snd_buf a, ka_snd_buf := ka_rcv_queue a, ka_rcv_buf := ka_snd_queue a\<rparr>"

lemma swapped_simps [simp]:
  "ka_snd_queue (swapped a) = ka_rcv_buf a" "ka_rcv_queue (swapped a) = ka_snd_buf a" "ka_snd_buf (swapped a) = ka_rcv_queue a"
  "ka_rcv_buf (swapped a) = ka_snd_queue a" "own_blocks (swapped a) = own_blocks a"
  by (simp_all add: swapped_def own_blocks_def)

lemma laid_out_swapped: "laid_out R m (swapped a) D C B A \<longleftrightarrow> laid_out R m a A B C D"
proof -
  have "mset (heads (swapped a) @ own_blocks a @ D @ C @ B @ A) = mset (heads a @ own_blocks a @ A @ B @ C @ D)"
    by (simp add: heads_def)
  then have d: "distinct (heads (swapped a) @ own_blocks a @ D @ C @ B @ A) \<longleftrightarrow> distinct (heads a @ own_blocks a @ A @ B @ C @ D)"
    by (rule mset_eq_imp_distinct_iff)
  have s: "set (heads (swapped a) @ own_blocks a @ D @ C @ B @ A) = set (heads a @ own_blocks a @ A @ B @ C @ D)"
    "set (own_blocks a @ D @ C @ B @ A) = set (own_blocks a @ A @ B @ C @ D)" by (auto simp: heads_def)
  show ?thesis unfolding laid_out_def swapped_simps d s by blast
qed

lemma move_loop_spec:
  assumes "queue_at m (ka_rcv_buf a) D" and "queue_at m (ka_rcv_queue a) B"
    and "set (ka_rcv_buf a # D) \<inter> set (ka_rcv_queue a # B) = {}" and "\<forall>n\<in>set D. m_live m n"
  shows "\<exists>ms D' m' k'. D = ms @ D' \<and> move_loop a m k = Some (Inr (m', k'))
    \<and> (\<forall>SA SB SC. move_rcv_buf (k\<lparr>kc_snd_queue := SA, kc_rcv_queue := SB, kc_snd_buf := SC, kc_rcv_buf := map (m_seg m) D\<rparr>)
        = k'\<lparr>kc_snd_queue := SA, kc_rcv_queue := SB @ map (m_seg m) ms, kc_snd_buf := SC, kc_rcv_buf := map (m_seg m) D'\<rparr>)
    \<and> queue_at m' (ka_rcv_buf a) D' \<and> queue_at m' (ka_rcv_queue a) (B @ ms)
    \<and> freed {} (set (ka_rcv_buf a # D) \<union> set (ka_rcv_queue a # B)) m m'"
  using assms
proof (induction D arbitrary: m k B)
  case Nil
  then have "move_loop a m k = Some (Inr (m, k))" using queue_is_empty [OF Nil(1)] by (subst move_loop.simps) simp
  then show ?case using Nil by (intro exI [of _ "[]"] exI [of _ m] exI [of _ k]) (simp add: freed_none move_rcv_buf.simps)
next
  case (Cons n D)
  let ?h = "ka_rcv_buf a" and ?r = "ka_rcv_queue a"
  have n: "m_next m ?h = n" "n \<notin> set D" "n \<noteq> 0" "n \<noteq> ?h" using Cons.prems(1) by (auto simp: queue_at_def)
  have live: "m_live m n" using Cons.prems(4) by simp
  have e: "\<not> iqueue_is_empty ?h m" using queue_is_empty [OF Cons.prems(1)] by simp
  show ?case
  proof (cases "sg_sn (m_seg m n) = kc_rcv_nxt k \<and> kc_nrcv_que k < kc_rcv_wnd k")
    case False
    then have "move_loop a m k = Some (Inr (m, k))"
      using e n(1) live by (subst move_loop.simps) (auto simp: seg_at_live)
    then show ?thesis using Cons.prems False
      by (intro exI [of _ "[]"] exI [of _ "n # D"] exI [of _ m] exI [of _ k]) (auto simp: freed_none move_rcv_buf.simps)
  next
    case True
    let ?m1 = "iqueue_del n m" let ?m2 = "iqueue_add_tail n ?r ?m1"
    let ?k = "k\<lparr>kc_nrcv_buf := kc_nrcv_buf k - 1, kc_nrcv_que := kc_nrcv_que k + 1, kc_rcv_nxt := kc_rcv_nxt k + 1\<rparr>"
    have q1: "queue_at ?m1 ?h D" using queue_del [of m ?h "[]" n D] Cons.prems(1) by simp
    have l1: "same_links (set (?h # n # D)) m ?m1" using links_del [of m ?h "[]" n D] Cons.prems(1) by simp
    have r1: "queue_at ?m1 ?r B" by (rule queue_frame [OF Cons.prems(2) l1]) (use Cons.prems(3) in auto)
    have nB: "n \<notin> set (?r # B)" using Cons.prems(3) by auto
    have r2: "queue_at ?m2 ?r (B @ [n])" by (rule queue_add_tail [OF r1 nB n(3)])
    have l2: "same_links (set (n # ?r # B)) ?m1 ?m2" by (rule links_add_tail [OF r1])
    have q2: "queue_at ?m2 ?h D" by (rule queue_frame [OF q1 l2]) (use Cons.prems(3) n in auto)
    have f2: "freed {} (set (?h # n # D) \<union> set (?r # B)) m ?m2"
      unfolding freed_def using same_links_trans [OF l1 l2, of "set (?h # n # D) \<union> set (?r # B)"] by auto
    have dis: "set (?h # D) \<inter> set (?r # (B @ [n])) = {}" using Cons.prems(3) n by auto
    have lv: "\<forall>x\<in>set D. m_live ?m2 x" using Cons.prems(4) by simp
    obtain ms D' m' k' where r: "D = ms @ D'" "move_loop a ?m2 ?k = Some (Inr (m', k'))"
      "\<forall>SA SB SC. move_rcv_buf (?k\<lparr>kc_snd_queue := SA, kc_rcv_queue := SB, kc_snd_buf := SC, kc_rcv_buf := map (m_seg ?m2) D\<rparr>)
        = k'\<lparr>kc_snd_queue := SA, kc_rcv_queue := SB @ map (m_seg ?m2) ms, kc_snd_buf := SC, kc_rcv_buf := map (m_seg ?m2) D'\<rparr>"
      "queue_at m' ?h D'" "queue_at m' ?r ((B @ [n]) @ ms)" "freed {} (set (?h # D) \<union> set (?r # (B @ [n]))) ?m2 m'"
      using Cons.IH [OF q2 r2 dis lv, of ?k] by blast
    have "move_loop a m k = move_loop a ?m2 ?k" using e n(1) live True by (subst move_loop.simps) (simp add: seg_at_live)
    moreover have "move_rcv_buf (k\<lparr>kc_snd_queue := SA, kc_rcv_queue := SB, kc_snd_buf := SC, kc_rcv_buf := map (m_seg m) (n # D)\<rparr>)
        = k'\<lparr>kc_snd_queue := SA, kc_rcv_queue := SB @ map (m_seg m) (n # ms), kc_snd_buf := SC, kc_rcv_buf := map (m_seg m) D'\<rparr>" for SA SB SC
    proof -
      let ?x = "k\<lparr>kc_snd_queue := SA, kc_snd_buf := SC, kc_rcv_buf := map (m_seg m) D, kc_nrcv_buf := kc_nrcv_buf k - 1,
          kc_rcv_queue := SB @ [m_seg m n], kc_nrcv_que := kc_nrcv_que k + 1, kc_rcv_nxt := kc_rcv_nxt k + 1\<rparr>"
      have "?x = ?k\<lparr>kc_snd_queue := SA, kc_rcv_queue := SB @ [m_seg m n], kc_snd_buf := SC, kc_rcv_buf := map (m_seg ?m2) D\<rparr>" by simp
      moreover have "move_rcv_buf (?k\<lparr>kc_snd_queue := SA, kc_rcv_queue := SB @ [m_seg m n], kc_snd_buf := SC, kc_rcv_buf := map (m_seg ?m2) D\<rparr>)
        = k'\<lparr>kc_snd_queue := SA, kc_rcv_queue := (SB @ [m_seg m n]) @ map (m_seg ?m2) ms, kc_snd_buf := SC, kc_rcv_buf := map (m_seg ?m2) D'\<rparr>"
        using r(3) by blast
      ultimately have "move_rcv_buf ?x = k'\<lparr>kc_snd_queue := SA, kc_rcv_queue := (SB @ [m_seg m n]) @ map (m_seg ?m2) ms, kc_snd_buf := SC,
          kc_rcv_buf := map (m_seg ?m2) D'\<rparr>" by (simp only:)
      then show ?thesis using True by (subst move_rcv_buf.simps) simp
    qed
    moreover have "freed {} (set (?h # n # D) \<union> set (?r # B)) m m'" by (rule freed_trans [OF f2 r(6)]) auto
    ultimately show ?thesis using r by (intro exI [of _ "n # ms"] exI [of _ D'] exI [of _ m'] exI [of _ k']) simp
  qed
qed

subsection \<open>The pointer code implements the list operations\<close>

lemma freed_seg: "freed F S m m' \<Longrightarrow> m_seg m' = m_seg m"
  by (simp add: freed_def)

lemma with_queues_seg: "m_seg m' = m_seg m \<Longrightarrow> with_queues k m' A B C D = with_queues k m A B C D"
  by (simp add: with_queues_def)

lemma parse_una_represents:
  assumes "represents R m a k K"
  shows "\<exists>m' k'. ptr_parse_una a una m k = Some (Inr (m', k')) \<and> represents R m' a k' (ikcp_parse_una K una)"
proof -
  obtain A B C D where l: "laid_out R m a A B C D" and K: "K = with_queues k m A B C D" using assms by (auto simp: represents_def)
  obtain gone rest where u: "una_remove una (map (m_seg m) C) = (gone, rest)" by (rule prod.exhaust)
  have q: "queue_at m (ka_snd_buf a) C" and lv: "\<forall>n\<in>set C. m_live m n" using l laid_out_live [OF l] by (auto simp: laid_out_def)
  obtain gs rs m' where r: "C = gs @ rs" "map (m_seg m) gs = gone" "map (m_seg m) rs = rest"
    "una_loop (ka_snd_buf a) una (m_next m (ka_snd_buf a)) m k = Some (Inr (m', k\<lparr>kc_ackedlen := kc_ackedlen k + sum_list (map sg_len gone),
        kc_nsnd_buf := kc_nsnd_buf k - word_of_nat (length gone)\<rparr>))" (is "_ = Some (Inr (m', ?k))")
    "queue_at m' (ka_snd_buf a) rs" "freed (set gs) (set (ka_snd_buf a # C)) m m'"
    using una_loop_spec [OF q lv u, of k] by blast
  have "set C = set rs \<union> set gs" "set gs \<inter> set rs = {}" using r(1) q by (auto simp: queue_at_def)
  with laid_out_snd_buf [OF l r(6,5)] have l': "laid_out R m' a A B rs D" by blast
  have "ikcp_parse_una K una = with_queues ?k m' A B rs D"
    using u r(3) freed_seg [OF r(6)] by (simp add: K ikcp_parse_una_def with_queues_def)
  with l' r(4) show ?thesis by (auto simp: ptr_parse_una_def represents_def)
qed

lemma parse_ack_represents:
  assumes "represents R m a k K"
  shows "\<exists>m' k'. ptr_parse_ack a sn m k = Some (Inr (m', k')) \<and> represents R m' a k' (ikcp_parse_ack K sn)"
proof -
  obtain A B C D where l: "laid_out R m a A B C D" and K: "K = with_queues k m A B C D" using assms by (auto simp: represents_def)
  have una: "kc_snd_una K = kc_snd_una k" "kc_snd_nxt K = kc_snd_nxt k" by (simp_all add: K with_queues_def)
  show ?thesis
  proof (cases "itimediff sn (kc_snd_una k) < 0 \<or> itimediff sn (kc_snd_nxt k) \<ge> 0")
    case True
    then have "ptr_parse_ack a sn m k = Some (Inr (m, k))" "ikcp_parse_ack K sn = K"
      by (simp_all only: ptr_parse_ack_def ikcp_parse_ack_def una if_True)
    with assms show ?thesis by simp
  next
    case False
    obtain r rest where u: "ack_remove sn (map (m_seg m) C) = (r, rest)" by (rule prod.exhaust)
    have q: "queue_at m (ka_snd_buf a) ([] @ C)" and lv: "\<forall>n\<in>set C. m_live m n" using l laid_out_live [OF l] by (auto simp: laid_out_def)
    obtain ys F m' where s: "map (m_seg m) ys = rest" "set C = set ys \<union> F" "F \<inter> set ys = {}"
      "ack_loop (ka_snd_buf a) sn (hd (C @ [ka_snd_buf a])) m k = Some (Inr (m', case r of None \<Rightarrow> k | Some seg \<Rightarrow>
        k\<lparr>kc_ackedlen := kc_ackedlen k + sg_len seg, kc_nsnd_buf := kc_nsnd_buf k - 1\<rparr>))" (is "_ = Some (Inr (m', ?k))")
      "queue_at m' (ka_snd_buf a) ([] @ ys)" "freed F (set (ka_snd_buf a # [] @ C)) m m'"
      using ack_loop_spec [OF q lv u, of k] by blast
    have f: "freed F (set (ka_snd_buf a # C)) m m'" and q': "queue_at m' (ka_snd_buf a) ys" using s(5,6) by simp_all
    have l': "laid_out R m' a A B ys D" by (rule laid_out_snd_buf [OF l f q' s(2,3)])
    have "ack_remove sn (kc_snd_buf K) = (r, rest)" using u by (simp add: K with_queues_def)
    moreover have "ack_remove sn (map (m_seg m) C) = (None, rest) \<Longrightarrow> rest = map (m_seg m) C" for rest
      by (induction C arbitrary: rest) (auto split: if_splits prod.splits)
    ultimately have "ikcp_parse_ack K sn = with_queues ?k m' A B ys D"
      using False u s(1) freed_seg [OF f] una by (cases r) (auto simp: K ikcp_parse_ack_def with_queues_def)
    moreover have "m_next m (ka_snd_buf a) = hd (C @ [ka_snd_buf a])" using queue_first [OF q] by simp
    ultimately show ?thesis using False l' s(4) by (auto simp: ptr_parse_ack_def represents_def)
  qed
qed

lemma move_represents:
  assumes "represents R m a k K"
  shows "\<exists>m' k'. move_loop a m k = Some (Inr (m', k')) \<and> represents R m' a k' (move_rcv_buf K)"
proof -
  obtain A B C D where l: "laid_out R m a A B C D" and K: "K = with_queues k m A B C D" using assms by (auto simp: represents_def)
  have q: "queue_at m (ka_rcv_buf a) D" "queue_at m (ka_rcv_queue a) B" and lv: "\<forall>n\<in>set D. m_live m n"
    using l laid_out_live [OF l] by (auto simp: laid_out_def)
  obtain ms D' m' k' where r: "D = ms @ D'" "move_loop a m k = Some (Inr (m', k'))"
    "\<forall>SA SB SC. move_rcv_buf (k\<lparr>kc_snd_queue := SA, kc_rcv_queue := SB, kc_snd_buf := SC, kc_rcv_buf := map (m_seg m) D\<rparr>)
        = k'\<lparr>kc_snd_queue := SA, kc_rcv_queue := SB @ map (m_seg m) ms, kc_snd_buf := SC, kc_rcv_buf := map (m_seg m) D'\<rparr>"
    "queue_at m' (ka_rcv_buf a) D'" "queue_at m' (ka_rcv_queue a) (B @ ms)"
    "freed {} (set (ka_rcv_buf a # D) \<union> set (ka_rcv_queue a # B)) m m'"
    using move_loop_spec [OF q laid_out_apart(3) [OF l] lv, of k] by blast
  have l': "laid_out R m' a A (B @ ms) C D'"
  proof (rule laid_out_move [OF l [unfolded r(1)] _ _ r(5,4)])
    show "same_links (set (ka_rcv_buf a # ms @ D') \<union> set (ka_rcv_queue a # B)) m m'" using r(6) unfolding freed_def r(1) by (elim conjE)
    show "m_live m' = m_live m" using r(6) by (auto simp: freed_def)
  qed
  have "move_rcv_buf K = with_queues k' m' A (B @ ms) C D'"
    using r(3) freed_seg [OF r(6)] by (simp add: K with_queues_def)
  with l' r(2) show ?thesis by (auto simp: represents_def)
qed

lemma ptr_parse_data_runs:
  assumes "m_live m n"
  shows "itimediff (sg_sn (m_seg m n)) (kc_rcv_nxt k + kc_rcv_wnd k) \<ge> 0 \<or> itimediff (sg_sn (m_seg m n)) (kc_rcv_nxt k) < 0 \<Longrightarrow>
      ikcp_free n m = Inr mf \<Longrightarrow> ptr_parse_data a n m k = Some (Inr (mf, k))"
    and "\<not> (itimediff (sg_sn (m_seg m n)) (kc_rcv_nxt k + kc_rcv_wnd k) \<ge> 0 \<or> itimediff (sg_sn (m_seg m n)) (kc_rcv_nxt k) < 0) \<Longrightarrow>
      find_back (ka_rcv_buf a) (sg_sn (m_seg m n)) m (m_prev m (ka_rcv_buf a)) = Some (Inr (p, repeated)) \<Longrightarrow>
      ptr_parse_data a n m k = (if repeated then bind_run (Some (ikcp_free n m)) (\<lambda>m'. move_loop a m' k)
         else move_loop a (iqueue_add n p (iqueue_init n m)) (k\<lparr>kc_nrcv_buf := kc_nrcv_buf k + 1\<rparr>))"
proof -
  let ?P = "itimediff (sg_sn (m_seg m n)) (kc_rcv_nxt k + kc_rcv_wnd k) \<ge> 0 \<or> itimediff (sg_sn (m_seg m n)) (kc_rcv_nxt k) < 0"
  note d = ptr_parse_data_def [of a n m k, unfolded seg_at_live [OF assms] bind_run_simps Let_def]
  show "?P \<Longrightarrow> ikcp_free n m = Inr mf \<Longrightarrow> ptr_parse_data a n m k = Some (Inr (mf, k))"
    unfolding d by (simp only: if_True bind_run_simps)
  show "\<not> ?P \<Longrightarrow> find_back (ka_rcv_buf a) (sg_sn (m_seg m n)) m (m_prev m (ka_rcv_buf a)) = Some (Inr (p, repeated)) \<Longrightarrow>
      ptr_parse_data a n m k = (if repeated then bind_run (Some (ikcp_free n m)) (\<lambda>m'. move_loop a m' k)
         else move_loop a (iqueue_add n p (iqueue_init n m)) (k\<lparr>kc_nrcv_buf := kc_nrcv_buf k + 1\<rparr>))"
    unfolding d by (simp only: if_False bind_run_simps prod.case)
qed

lemma parse_data_represents:
  assumes "represents R m a k K" and "n \<in> R"
  shows "\<exists>m' k'. ptr_parse_data a n m k = Some (Inr (m', k')) \<and> represents (R - {n}) m' a k' (ikcp_parse_data K (m_seg m n))"
proof -
  obtain A B C D where l: "laid_out R m a A B C D" and K: "K = with_queues k m A B C D" using assms by (auto simp: represents_def)
  let ?new = "m_seg m n" and ?h = "ka_rcv_buf a"
  have live: "m_live m n" using l assms(2) by (simp add: laid_out_def)
  have rcv: "kc_rcv_nxt K = kc_rcv_nxt k" "kc_rcv_wnd K = kc_rcv_wnd k" "kc_rcv_buf K = map (m_seg m) D" by (simp_all add: K with_queues_def)
  obtain mf where mf: "ikcp_free n m = Inr mf" "laid_out (R - {n}) mf a A B C D" "m_seg mf = m_seg m"
    using laid_out_free [OF l assms(2)] by blast
  have repf: "represents (R - {n}) mf a k K" by (rule representsI [OF mf(2)]) (simp add: K with_queues_seg [OF mf(3)])
  show ?thesis
  proof (cases "itimediff (sg_sn ?new) (kc_rcv_nxt k + kc_rcv_wnd k) \<ge> 0 \<or> itimediff (sg_sn ?new) (kc_rcv_nxt k) < 0")
    case True
    from ptr_parse_data_runs(1) [OF live this mf(1)] have "ptr_parse_data a n m k = Some (Inr (mf, k))" .
    moreover have "ikcp_parse_data K ?new = K" unfolding ikcp_parse_data_def rcv using True by (simp only: if_True)
    ultimately show ?thesis using repf by simp
  next
    case False
    have q: "queue_at m ?h (D @ [])" and lv: "\<forall>x\<in>set D. m_live m x" using l laid_out_live [OF l] by (auto simp: laid_out_def)
    obtain us vs where f: "D = us @ vs" "find_back ?h (sg_sn ?new) m (last (?h # D)) =
        Some (Inr (last (?h # us), insert_back ?new (rev (map (m_seg m) D)) = None))"
      "\<forall>r. insert_back ?new (rev (map (m_seg m) D)) = Some r \<longrightarrow> rev r = map (m_seg m) us @ ?new # map (m_seg m) vs"
      using find_back_spec [OF q lv] by blast
    have "m_prev m ?h = last (?h # D)" using queue_last [OF q] by (simp only: append_Nil2)
    then have fb: "find_back ?h (sg_sn ?new) m (m_prev m ?h) = Some (Inr (last (?h # us), insert_back ?new (rev (map (m_seg m) D)) = None))"
      using f(2) by (simp only:)
    note run = ptr_parse_data_runs(2) [OF live False fb]
    note data = ikcp_parse_data_def [of K ?new, unfolded rcv if_not_P [OF False] Let_def]
    show ?thesis
    proof (cases "insert_back ?new (rev (map (m_seg m) D))")
      case None
      have "ptr_parse_data a n m k = move_loop a mf k" unfolding run None mf(1) by simp
      moreover have "ikcp_parse_data K ?new = move_rcv_buf K" unfolding data None by simp
      ultimately show ?thesis using move_represents [OF repf] by simp
    next
      case (Some r)
      let ?m = "iqueue_add n (last (?h # us)) (iqueue_init n m)" and ?k = "k\<lparr>kc_nrcv_buf := kc_nrcv_buf k + 1\<rparr>"
      have "ptr_parse_data a n m k = move_loop a ?m ?k"
        unfolding run Some by (simp only: option.distinct if_False)
      moreover have "laid_out (R - {n}) ?m a A B C (us @ n # vs)" using l assms(2) unfolding f(1) by (rule laid_out_insert)
      then have "represents (R - {n}) ?m a ?k (with_queues ?k ?m A B C (us @ n # vs))" by (rule representsI) (rule refl)
      moreover have "rev r = map (m_seg m) us @ ?new # map (m_seg m) vs" using f(3) Some by blast
      then have "ikcp_parse_data K ?new = move_rcv_buf (with_queues ?k ?m A B C (us @ n # vs))"
        unfolding data Some option.case by - (rule arg_cong [of _ _ move_rcv_buf], simp add: K with_queues_def)
      ultimately show ?thesis using move_represents by simp
    qed
  qed
qed

subsection \<open>Release\<close>

text \<open>\<open>ikcp_release\<close> frees every block of the control block exactly once and nothing else.\<close>

lemma release_laid_out:
  assumes l: "laid_out R m a A B C D" and "ka_self a \<noteq> 0"
  shows "\<exists>m'. ikcp_release a m = Some (Inr m') \<and> (\<forall>x. m_live m' x \<longleftrightarrow> x \<in> R) \<and> same_links (set (heads a @ A @ B @ C @ D)) m m'"
proof -
  have q: "queue_at m (ka_snd_queue a) A" "queue_at m (ka_rcv_queue a) B" "queue_at m (ka_snd_buf a) C" "queue_at m (ka_rcv_buf a) D"
    using l by (simp_all add: laid_out_def)
  have lv: "\<forall>n\<in>set A. m_live m n" "\<forall>n\<in>set B. m_live m n" "\<forall>n\<in>set C. m_live m n" "\<forall>n\<in>set D. m_live m n"
    using laid_out_live [OF l] by simp_all
  note ap = laid_out_apart [OF l]
  have dis: "set A \<inter> set B = {}" "set A \<inter> set C = {}" "set A \<inter> set D = {}" "set B \<inter> set C = {}" "set B \<inter> set D = {}" "set C \<inter> set D = {}"
    using ap by auto
  obtain m1 where m1: "release_queue (ka_snd_buf a) m = Some (Inr m1)" "freed (set C) (set (ka_snd_buf a # C)) m m1"
    using release_queue_spec [OF q(3) lv(3)] by blast
  have s1: "same_links (set (ka_snd_buf a # C)) m m1" using m1(2) by (simp add: freed_def)
  have q1: "queue_at m1 (ka_rcv_buf a) D" "queue_at m1 (ka_snd_queue a) A" "queue_at m1 (ka_rcv_queue a) B"
    using queue_frame [OF q(4) s1] queue_frame [OF q(1) s1] queue_frame [OF q(2) s1] ap by auto
  have v1: "\<forall>n\<in>set D. m_live m1 n" "\<forall>n\<in>set A. m_live m1 n" "\<forall>n\<in>set B. m_live m1 n"
    using m1(2) lv dis by (auto simp: freed_def)
  obtain m2 where m2: "release_queue (ka_rcv_buf a) m1 = Some (Inr m2)" "freed (set D) (set (ka_rcv_buf a # D)) m1 m2"
    using release_queue_spec [OF q1(1) v1(1)] by blast
  have s2: "same_links (set (ka_rcv_buf a # D)) m1 m2" using m2(2) by (simp add: freed_def)
  have q2: "queue_at m2 (ka_snd_queue a) A" "queue_at m2 (ka_rcv_queue a) B"
    using queue_frame [OF q1(2) s2] queue_frame [OF q1(3) s2] ap by auto
  have v2: "\<forall>n\<in>set A. m_live m2 n" "\<forall>n\<in>set B. m_live m2 n" using m2(2) v1 dis by (auto simp: freed_def)
  obtain m3 where m3: "release_queue (ka_snd_queue a) m2 = Some (Inr m3)" "freed (set A) (set (ka_snd_queue a # A)) m2 m3"
    using release_queue_spec [OF q2(1) v2(1)] by blast
  have s3: "same_links (set (ka_snd_queue a # A)) m2 m3" using m3(2) by (simp add: freed_def)
  have q3: "queue_at m3 (ka_rcv_queue a) B" using queue_frame [OF q2(2) s3] ap by auto
  have v3: "\<forall>n\<in>set B. m_live m3 n" using m3(2) v2 dis by (auto simp: freed_def)
  obtain m4 where m4: "release_queue (ka_rcv_queue a) m3 = Some (Inr m4)" "freed (set B) (set (ka_rcv_queue a # B)) m3 m4"
    using release_queue_spec [OF q3 v3] by blast
  have "distinct (own_blocks a @ A @ B @ C @ D)" "R \<inter> set (own_blocks a @ A @ B @ C @ D) = {}"
    and "\<forall>x. m_live m x \<longleftrightarrow> x \<in> R \<or> x \<in> set (own_blocks a @ A @ B @ C @ D)" using l by (auto simp: laid_out_def)
  then have v4: "m_live m4 x \<longleftrightarrow> x \<in> R \<or> x \<in> set (own_blocks a)" for x
    using m1(2) m2(2) m3(2) m4(2) unfolding freed_def by auto
  have own: "distinct (own_blocks a)" "R \<inter> set (own_blocks a) = {}" using l by (auto simp: laid_out_def)
  let ?S = "set (heads a @ A @ B @ C @ D)"
  have sub: "set (ka_snd_buf a # C) \<subseteq> ?S" "set (ka_rcv_buf a # D) \<subseteq> ?S" "set (ka_snd_queue a # A) \<subseteq> ?S" "set (ka_rcv_queue a # B) \<subseteq> ?S"
    by (auto simp: heads_def)
  have s4: "same_links (set (ka_rcv_queue a # B)) m3 m4" using m4(2) by (simp add: freed_def)
  have "same_links ?S m m2" by (rule same_links_trans [OF s1 s2 sub(1,2)])
  moreover have "same_links ?S m2 m4" by (rule same_links_trans [OF s3 s4 sub(3,4)])
  ultimately have s: "same_links ?S m m4" by (rule same_links_trans) simp_all
  have "\<exists>m'. bind_run (free_if (ka_buffer a) m4) (\<lambda>m. bind_run (free_if (ka_acklist a) m) (\<lambda>m. Some (ikcp_free (ka_self a) m))) = Some (Inr m')
      \<and> (\<forall>x. m_live m' x \<longleftrightarrow> x \<in> R) \<and> m_next m' = m_next m4 \<and> m_prev m' = m_prev m4"
    using v4 own assms(2) by (cases "ka_buffer a = 0"; cases "ka_acklist a = 0") (auto simp: own_blocks_def free_if_def ikcp_free_def)
  then show ?thesis using s by (simp add: ikcp_release_def m1(1) m2(1) m3(1) m4(1)) (auto simp: same_links_def)
qed

end
