(* ===== verification/Kcp_Pointers.thy ===== *)
theory Kcp_Pointers
  imports Kcp_Memory
begin

text \<open>
  The remaining pointer code of \<^verbatim>\<open>ikcp.c\<close>: \<open>ikcp_peeksize\<close> and \<open>ikcp_recv\<close>, the move from the send queue to the send
  buffer in \<open>ikcp_flush\<close>, and \<open>ikcp_send\<close>.  A call of \<open>ikcp_malloc\<close> takes the next of the blocks \<open>news\<close>, which are
  allocated and belong to nobody; when there is none it returns \<open>NULL\<close>.  The asserts before the tests for \<open>NULL\<close>
  are left out, as in a release build; with them a failed allocation ends the program.
\<close>

subsection \<open>The code\<close>

partial_function (option) peek_loop :: "addr \<Rightarrow> memory \<Rightarrow> addr \<Rightarrow> u32 \<Rightarrow> u32 result option" where
  "peek_loop head m p len =
     (if p = head then Some (Inr len)
      else (case seg_at m p of
          Inl e \<Rightarrow> Some (Inl e)
        | Inr seg \<Rightarrow>
            if sg_frg seg = 0 then Some (Inr (len + sg_len seg))
            else peek_loop head m (m_next m p) (len + sg_len seg)))"

definition ptr_peeksize :: "kcp_at \<Rightarrow> memory \<Rightarrow> IKCPCB \<Rightarrow> int result option" where
  "ptr_peeksize a m k =
     (if iqueue_is_empty (ka_rcv_queue a) m then Some (Inr (- 1))
      else bind_run (Some (seg_at m (m_next m (ka_rcv_queue a)))) (\<lambda>seg.
        if sg_frg seg = 0 then Some (Inr (sint (sg_len seg)))
        else if kc_nrcv_que k < sg_frg seg + 1 then Some (Inr (- 1))
        else bind_run (peek_loop (ka_rcv_queue a) m (m_next m (ka_rcv_queue a)) 0) (\<lambda>len. Some (Inr (sint len)))))"

text \<open>The loop of \<open>ikcp_recv\<close> that merges the fragments: the bytes copied, their number, and what it leaves.\<close>

partial_function (option) merge_loop :: "addr \<Rightarrow> bool \<Rightarrow> addr \<Rightarrow> byte list \<Rightarrow> u32 \<Rightarrow> memory \<Rightarrow> IKCPCB
    \<Rightarrow> (byte list \<times> u32 \<times> memory \<times> IKCPCB) result option" where
  "merge_loop head ispeek p buffer len m k =
     (if p = head then Some (Inr (buffer, len, m, k))
      else (case seg_at m p of
          Inl e \<Rightarrow> Some (Inl e)
        | Inr seg \<Rightarrow>
            if ispeek
            then (if sg_frg seg = 0 then Some (Inr (buffer @ seg_bytes seg, len + sg_len seg, m, k))
                  else merge_loop head ispeek (m_next m p) (buffer @ seg_bytes seg) (len + sg_len seg) m k)
            else (case ikcp_free p (iqueue_del p m) of
                Inl e \<Rightarrow> Some (Inl e)
              | Inr m' \<Rightarrow>
                  if sg_frg seg = 0
                  then Some (Inr (buffer @ seg_bytes seg, len + sg_len seg, m', k\<lparr>kc_nrcv_que := kc_nrcv_que k - 1\<rparr>))
                  else merge_loop head ispeek (m_next m p) (buffer @ seg_bytes seg) (len + sg_len seg) m'
                    (k\<lparr>kc_nrcv_que := kc_nrcv_que k - 1\<rparr>))))"

definition ptr_recv :: "kcp_at \<Rightarrow> int \<Rightarrow> memory \<Rightarrow> IKCPCB \<Rightarrow> (int \<times> byte list \<times> memory \<times> IKCPCB) result option" where
  "ptr_recv a len0 m k =
     (if iqueue_is_empty (ka_rcv_queue a) m then Some (Inr (- 1, [], m, k))
      else
        let ispeek = (len0 < 0); len = (if len0 < 0 then - len0 else len0)
        in bind_run (ptr_peeksize a m k) (\<lambda>peeksize.
             if peeksize < 0 then Some (Inr (- 2, [], m, k))
             else if peeksize > len then Some (Inr (- 3, [], m, k))
             else
               let recover = (kc_nrcv_que k \<ge> kc_rcv_wnd k)
               in bind_run (merge_loop (ka_rcv_queue a) ispeek (m_next m (ka_rcv_queue a)) [] 0 m k) (\<lambda>(out, total, m1, k1).
                  bind_run (move_loop a m1 k1) (\<lambda>(m2, k2).
                    Some (Inr (sint total, out, m2,
                      if kc_nrcv_que k2 < kc_rcv_wnd k2 \<and> recover
                      then k2\<lparr>kc_probe := kc_probe k2 OR IKCP_ASK_TELL\<rparr> else k2))))))"

text \<open>The move of \<open>ikcp_flush\<close>.\<close>

partial_function (option) send_loop :: "kcp_at \<Rightarrow> u32 \<Rightarrow> u32 \<Rightarrow> memory \<Rightarrow> IKCPCB \<Rightarrow> (memory \<times> IKCPCB) result option" where
  "send_loop a cwnd wnd m k =
     (if itimediff (kc_snd_nxt k) (kc_snd_una k + cwnd) < 0
      then (if iqueue_is_empty (ka_snd_queue a) m then Some (Inr (m, k))
        else let p = m_next m (ka_snd_queue a); m1 = iqueue_add_tail p (ka_snd_buf a) (iqueue_del p m) in
          (case seg_at m1 p of
            Inl e \<Rightarrow> Some (Inl e)
          | Inr seg \<Rightarrow> send_loop a cwnd wnd (m1\<lparr>m_seg := (m_seg m1)(p := number_segment k wnd seg)\<rparr>)
              (k\<lparr>kc_nsnd_que := kc_nsnd_que k - 1, kc_nsnd_buf := kc_nsnd_buf k + 1, kc_snd_nxt := kc_snd_nxt k + 1\<rparr>)))
      else Some (Inr (m, k)))"

text \<open>\<open>ikcp_send\<close>: the extension of the last segment, and the fragments.  The results are the control block, the rest
  of the blocks and of the buffer; \<open>None\<close> in place of them is \<open>NULL\<close> from the allocator.\<close>

definition new_segment :: "addr \<Rightarrow> byte list \<Rightarrow> u32 \<Rightarrow> memory \<Rightarrow> memory" where
  "new_segment n bytes frg m = m\<lparr>m_seg := (m_seg m)(n := (ikcp_segment_new bytes)\<lparr>sg_frg := frg\<rparr>)\<rparr>"

definition ptr_extend :: "kcp_at \<Rightarrow> addr list \<Rightarrow> byte list \<Rightarrow> int \<Rightarrow> memory \<Rightarrow> IKCPCB
    \<Rightarrow> (memory \<times> addr list \<times> byte list \<times> int \<times> int) option result option" where
  "ptr_extend a news buffer len m k =
     (if kc_stream k \<noteq> 0 \<and> \<not> iqueue_is_empty (ka_snd_queue a) m
      then let p = m_prev m (ka_snd_queue a) in
        bind_run (Some (seg_at m p)) (\<lambda>old.
          if sg_len old < kc_mss k
          then (case news of
              [] \<Rightarrow> Some (Inr None)
            | n # rest \<Rightarrow>
                let capacity = sint (kc_mss k - sg_len old);
                    extend = (if len < capacity then len else capacity);
                    m1 = iqueue_add_tail n (ka_snd_queue a) m;
                    m2 = new_segment n (seg_bytes old @ take (nat extend) buffer) 0 m1
                in bind_run (Some (ikcp_free p (iqueue_del_init p m2))) (\<lambda>m3.
                     Some (Inr (Some (m3, rest, drop (nat extend) buffer, len - extend, extend)))))
          else Some (Inr (Some (m, news, buffer, len, 0))))
      else Some (Inr (Some (m, news, buffer, len, 0))))"

fun ptr_fragments :: "nat \<Rightarrow> kcp_at \<Rightarrow> addr list \<Rightarrow> byte list \<Rightarrow> int \<Rightarrow> int \<Rightarrow> memory \<Rightarrow> IKCPCB
    \<Rightarrow> int \<times> addr list \<times> memory \<times> IKCPCB" where
  "ptr_fragments 0 a news buffer len sent m k = (sent, news, m, k)"
| "ptr_fragments (Suc c) a [] buffer len sent m k = (- 2, [], m, k)"
| "ptr_fragments (Suc c) a (n # news) buffer len sent m k =
     (let size = (if len > sint (kc_mss k) then sint (kc_mss k) else len);
          m1 = new_segment n (take (nat size) buffer) (if kc_stream k = 0 then word_of_nat c else 0) m
      in ptr_fragments c a news (drop (nat size) buffer) (len - size) (sent + size)
           (iqueue_add_tail n (ka_snd_queue a) (iqueue_init n m1)) (k\<lparr>kc_nsnd_que := kc_nsnd_que k + 1\<rparr>))"

definition ptr_send :: "kcp_at \<Rightarrow> addr list \<Rightarrow> byte list \<Rightarrow> int \<Rightarrow> memory \<Rightarrow> IKCPCB
    \<Rightarrow> (int \<times> addr list \<times> memory \<times> IKCPCB) result option" where
  "ptr_send a news buffer0 len0 m k =
     (if len0 < 0 then Some (Inr (- 1, news, m, k))
      else bind_run (ptr_extend a news buffer0 len0 m k) (\<lambda>r. Some (Inr (
        case r of None \<Rightarrow> (- 2, news, m, k)
        | Some (m1, news1, buffer, len, sent) \<Rightarrow>
            if kc_stream k \<noteq> 0 \<and> len \<le> 0 then (sent, news1, m1, k)
            else let count = (if len \<le> sint (kc_mss k) then 1 else sint ((word_of_int len + kc_mss k - 1) div kc_mss k))
                 in if count \<ge> sint IKCP_WND_RCV
                    then (if kc_stream k \<noteq> 0 \<and> sent > 0 then (sent, news1, m1, k) else (- 2, news1, m1, k))
                    else ptr_fragments (nat (if count = 0 then 1 else count)) a news1 buffer len sent m1 k))))"

subsection \<open>Reading\<close>

lemma seg_write [simp]:
  "queue_at (m\<lparr>m_seg := f\<rparr>) head ns \<longleftrightarrow> queue_at m head ns" "iqueue_is_empty head (m\<lparr>m_seg := f\<rparr>) \<longleftrightarrow> iqueue_is_empty head m"
  "laid_out R (m\<lparr>m_seg := f\<rparr>) a A B C D \<longleftrightarrow> laid_out R m a A B C D" "same_links S m (m1\<lparr>m_seg := f\<rparr>) \<longleftrightarrow> same_links S m m1"
  for m m1 :: memory
proof -
  have c: "chain (m\<lparr>m_seg := f\<rparr>) b xs c \<longleftrightarrow> chain m b xs c" for b xs c by (induction xs arbitrary: b) auto
  then show q: "queue_at (m\<lparr>m_seg := f\<rparr>) head ns \<longleftrightarrow> queue_at m head ns" for head ns by (simp add: queue_at_def)
  show "iqueue_is_empty head (m\<lparr>m_seg := f\<rparr>) \<longleftrightarrow> iqueue_is_empty head m" by (simp add: iqueue_is_empty_def)
  show "laid_out R (m\<lparr>m_seg := f\<rparr>) a A B C D \<longleftrightarrow> laid_out R m a A B C D" by (simp add: laid_out_def q)
  show "same_links S m (m1\<lparr>m_seg := f\<rparr>) \<longleftrightarrow> same_links S m m1" by (simp add: same_links_def)
qed

lemma peek_loop_spec:
  assumes "queue_at m head (xs @ ns)" and "\<forall>n\<in>set ns. m_live m n"
  shows "peek_loop head m (hd (ns @ [head])) len = Some (Inr (peek_sum (map (m_seg m) ns) len))"
  using assms
proof (induction ns arbitrary: xs len)
  case Nil
  then show ?case by (subst peek_loop.simps) simp
next
  case (Cons n ns)
  have q: "queue_at m head (xs @ n # ns)" "queue_at m head ((xs @ [n]) @ ns)" and l: "m_live m n" "\<forall>x\<in>set ns. m_live m x" "n \<noteq> head"
    using Cons.prems by (auto simp: queue_at_def)
  from queue_next [OF q(1)] Cons.IH [OF q(2) l(2)] l show ?case
    by (subst peek_loop.simps) (simp add: seg_at_live)
qed

lemma peeksize_represents:
  assumes "laid_out R m a A B C D"
  shows "ptr_peeksize a m k = Some (Inr (ikcp_peeksize (with_queues k m A B C D)))"
proof -
  have q: "queue_at m (ka_rcv_queue a) ([] @ B)" and lv: "\<forall>n\<in>set B. m_live m n" using assms laid_out_live [OF assms] by (auto simp: laid_out_def)
  show ?thesis
  proof (cases B)
    case Nil
    then show ?thesis using queue_is_empty [OF q] by (simp add: ptr_peeksize_def ikcp_peeksize_def with_queues_def)
  next
    case (Cons n ns)
    then have "m_next m (ka_rcv_queue a) = n" "m_live m n" using queue_first [OF q] lv by simp_all
    then show ?thesis using queue_is_empty [OF q] Cons peek_loop_spec [OF q lv, of 0]
      by (simp add: ptr_peeksize_def ikcp_peeksize_def with_queues_def seg_at_live)
  qed
qed

lemma merge_peek_spec:
  assumes "queue_at m head (xs @ ns)" and "\<forall>n\<in>set ns. m_live m n" and "merge_fragment (map (m_seg m) ns) = (segs, rest)"
  shows "merge_loop head True (hd (ns @ [head])) buffer len m k =
    Some (Inr (buffer @ concat (map seg_bytes segs), len + sum_list (map sg_len segs), m, k))"
  using assms
proof (induction ns arbitrary: xs buffer len segs)
  case Nil
  then show ?case by (subst merge_loop.simps) simp
next
  case (Cons n ns)
  have q: "queue_at m head (xs @ n # ns)" "queue_at m head ((xs @ [n]) @ ns)" and l: "m_live m n" "\<forall>x\<in>set ns. m_live m x" "n \<noteq> head"
    using Cons.prems by (auto simp: queue_at_def)
  show ?case
  proof (cases "sg_frg (m_seg m n) = 0")
    case True
    then show ?thesis using Cons.prems(3) l by (subst merge_loop.simps) (auto simp: seg_at_live)
  next
    case False
    then obtain segs' where s: "merge_fragment (map (m_seg m) ns) = (segs', rest)" "segs = m_seg m n # segs'"
      using Cons.prems(3) by (auto split: prod.splits)
    show ?thesis using Cons.IH [OF q(2) l(2) s(1)] queue_next [OF q(1)] l False s(2)
      by (subst merge_loop.simps) (simp add: seg_at_live add.assoc)
  qed
qed

lemma merge_read_spec:
  assumes "queue_at m head ns" and "\<forall>n\<in>set ns. m_live m n" and "merge_fragment (map (m_seg m) ns) = (segs, rest)"
  shows "\<exists>gs rs m'. ns = gs @ rs \<and> map (m_seg m) gs = segs \<and> map (m_seg m) rs = rest
    \<and> merge_loop head False (m_next m head) buffer len m k =
        Some (Inr (buffer @ concat (map seg_bytes segs), len + sum_list (map sg_len segs), m',
          k\<lparr>kc_nrcv_que := kc_nrcv_que k - word_of_nat (length segs)\<rparr>))
    \<and> queue_at m' head rs \<and> freed (set gs) (set (head # ns)) m m'"
  using assms
proof (induction ns arbitrary: m buffer len segs k)
  case Nil
  then have "m_next m head = head" using queue_first by fastforce
  then have "merge_loop head False (m_next m head) buffer len m k = Some (Inr (buffer, len, m, k))" by (subst merge_loop.simps) simp
  then show ?case using Nil by (intro exI [of _ "[]"] exI [of _ m]) (auto simp: freed_none)
next
  case (Cons n ns)
  have n: "m_next m head = n" "n \<noteq> head" "n \<notin> set ns" using Cons.prems(1) by (auto simp: queue_at_def)
  have live: "m_live m n" using Cons.prems(2) by simp
  obtain m1 where m1: "ikcp_free n (iqueue_del n m) = Inr m1" "queue_at m1 head ns" "freed {n} (set (head # n # ns)) m m1"
    using del_free [of m head "[]" n ns] Cons.prems(1) live by auto
  let ?k = "k\<lparr>kc_nrcv_que := kc_nrcv_que k - 1\<rparr>" and ?s = "m_seg m n"
  show ?case
  proof (cases "sg_frg ?s = 0")
    case True
    then have "merge_loop head False (m_next m head) buffer len m k = Some (Inr (buffer @ seg_bytes ?s, len + sg_len ?s, m1, ?k))"
      using n live m1(1) by (subst merge_loop.simps) (simp add: seg_at_live)
    then show ?thesis using Cons.prems(3) True m1(2,3)
      by (intro exI [of _ "[n]"] exI [of _ ns] exI [of _ m1]) auto
  next
    case False
    have seg: "m_seg m1 = m_seg m" and live1: "\<forall>x\<in>set ns. m_live m1 x"
      using m1(3) Cons.prems(2) n(3) by (auto simp: freed_def)
    obtain segs' where s: "merge_fragment (map (m_seg m1) ns) = (segs', rest)" "segs = ?s # segs'"
      using Cons.prems(3) False seg by (auto split: prod.splits)
    have nxt: "m_next m n = m_next m1 head"
      using queue_next [of m head "[]" n ns] queue_first [OF m1(2)] Cons.prems(1) by simp
    obtain gs rs m' where r: "ns = gs @ rs" "map (m_seg m1) gs = segs'" "map (m_seg m1) rs = rest"
      "merge_loop head False (m_next m1 head) (buffer @ seg_bytes ?s) (len + sg_len ?s) m1 ?k =
        Some (Inr ((buffer @ seg_bytes ?s) @ concat (map seg_bytes segs'), len + sg_len ?s + sum_list (map sg_len segs'), m',
          ?k\<lparr>kc_nrcv_que := kc_nrcv_que ?k - word_of_nat (length segs')\<rparr>))"
      "queue_at m' head rs" "freed (set gs) (set (head # ns)) m1 m'"
      using Cons.IH [OF m1(2) live1 s(1)] by blast
    have "merge_loop head False (m_next m head) buffer len m k =
        merge_loop head False (m_next m1 head) (buffer @ seg_bytes ?s) (len + sg_len ?s) m1 ?k"
      using n live False m1(1) nxt by (subst merge_loop.simps) (simp add: seg_at_live)
    moreover have "freed (set (n # gs)) (set (head # n # ns)) m m'" by (rule freed_trans [OF m1(3) r(6)]) auto
    ultimately show ?thesis using r s seg
      by (intro exI [of _ "n # gs"] exI [of _ rs] exI [of _ m']) (simp add: algebra_simps)
  qed
qed

text \<open>The receive queue loses the blocks \<open>F\<close>.\<close>

lemma laid_out_rcv_queue:
  assumes l: "laid_out R m a A B C D" and f: "freed F (set (ka_rcv_queue a # B)) m m'" and q: "queue_at m' (ka_rcv_queue a) B'"
    and s: "set B = set B' \<union> F" "F \<inter> set B' = {}"
  shows "laid_out R m' a A B' C D"
proof -
  have "laid_out R m (swapped a) D C B A" using l by (simp only: laid_out_swapped)
  then have "laid_out R m' (swapped a) D C B' A"
    using f q by (intro laid_out_snd_buf [OF _ _ _ s]) (simp_all only: swapped_simps)
  then show ?thesis by (simp only: laid_out_swapped)
qed

lemma recv_represents:
  assumes "represents R m a k K" and K': "ikcp_recv K len0 = (ret, bs, K')"
  shows "\<exists>m' k'. ptr_recv a len0 m k = Some (Inr (ret, bs, m', k')) \<and> represents R m' a k' K'"
proof -
  obtain A B C D where l: "laid_out R m a A B C D" and K: "K = with_queues k m A B C D" using assms by (auto simp: represents_def)
  have q: "queue_at m (ka_rcv_queue a) B" and lv: "\<forall>n\<in>set B. m_live m n" using l laid_out_live [OF l] by (auto simp: laid_out_def)
  have scal: "kc_rcv_queue K = map (m_seg m) B" "kc_nrcv_que K = kc_nrcv_que k" "kc_rcv_wnd K = kc_rcv_wnd k"
    by (simp_all add: K with_queues_def)
  note peek = peeksize_represents [OF l, of k, folded K]
  let ?len = "if len0 < 0 then - len0 else len0"
  consider (empty) "B = []" | (early) "B \<noteq> []" "ikcp_peeksize K < 0 \<or> ikcp_peeksize K > ?len"
    | (go) "B \<noteq> []" "\<not> ikcp_peeksize K < 0" "\<not> ikcp_peeksize K > ?len" by blast
  then show ?thesis
  proof cases
    case empty
    then have "ptr_recv a len0 m k = Some (Inr (- 1, [], m, k))" using queue_is_empty [OF q] by (simp add: ptr_recv_def)
    then show ?thesis using K' assms(1) empty by (auto simp: ikcp_recv_def scal)
  next
    case early
    then have "ptr_recv a len0 m k = Some (Inr (if ikcp_peeksize K < 0 then - 2 else - 3, [], m, k))"
      using queue_is_empty [OF q] peek by (auto simp: ptr_recv_def)
    moreover have "(ret, bs, K') = (if ikcp_peeksize K < 0 then - 2 else - 3, [], K)"
      using K' early by (auto simp: ikcp_recv_def scal Let_def)
    ultimately show ?thesis using assms(1) by simp
  next
    case go
    obtain segs rest where s: "merge_fragment (map (m_seg m) B) = (segs, rest)" by (rule prod.exhaust)
    let ?K1 = "if len0 < 0 then K else K\<lparr>kc_rcv_queue := rest, kc_nrcv_que := kc_nrcv_que K - word_of_nat (length segs)\<rparr>"
    have merged: "\<exists>m1 k1. merge_loop (ka_rcv_queue a) (len0 < 0) (m_next m (ka_rcv_queue a)) [] 0 m k =
        Some (Inr (concat (map seg_bytes segs), sum_list (map sg_len segs), m1, k1)) \<and> represents R m1 a k1 ?K1"
    proof (cases "len0 < 0")
      case True
      have "queue_at m (ka_rcv_queue a) ([] @ B)" using q by simp
      from merge_peek_spec [OF this lv s, of "[]" 0 k] True queue_first [OF q] assms(1) show ?thesis by simp
    next
      case False
      obtain gs rs m1 where r: "B = gs @ rs" "map (m_seg m) gs = segs" "map (m_seg m) rs = rest"
        "merge_loop (ka_rcv_queue a) False (m_next m (ka_rcv_queue a)) [] 0 m k =
          Some (Inr ([] @ concat (map seg_bytes segs), 0 + sum_list (map sg_len segs), m1,
            k\<lparr>kc_nrcv_que := kc_nrcv_que k - word_of_nat (length segs)\<rparr>))"
        "queue_at m1 (ka_rcv_queue a) rs" "freed (set gs) (set (ka_rcv_queue a # B)) m m1"
        using merge_read_spec [OF q lv s, of "[]" 0 k] by blast
      have "set B = set rs \<union> set gs" "set gs \<inter> set rs = {}" using r(1) q by (auto simp: queue_at_def)
      from laid_out_rcv_queue [OF l r(6,5) this] have "laid_out R m1 a A rs C D" .
      then have "represents R m1 a (k\<lparr>kc_nrcv_que := kc_nrcv_que k - word_of_nat (length segs)\<rparr>) ?K1"
        by (rule representsI) (use False r(3) freed_seg [OF r(6)] in \<open>simp add: K with_queues_def\<close>)
      with r(4) False show ?thesis by simp
    qed
    then obtain m1 k1 where m1: "merge_loop (ka_rcv_queue a) (len0 < 0) (m_next m (ka_rcv_queue a)) [] 0 m k =
        Some (Inr (concat (map seg_bytes segs), sum_list (map sg_len segs), m1, k1))" "represents R m1 a k1 ?K1" by blast
    obtain m2 k2 where m2: "move_loop a m1 k1 = Some (Inr (m2, k2))" "represents R m2 a k2 (move_rcv_buf ?K1)"
      using move_represents [OF m1(2)] by blast
    obtain A2 B2 C2 D2 where l2: "laid_out R m2 a A2 B2 C2 D2" and K2: "move_rcv_buf ?K1 = with_queues k2 m2 A2 B2 C2 D2"
      using m2(2) by (auto simp: represents_def)
    have scal2: "kc_nrcv_que (move_rcv_buf ?K1) = kc_nrcv_que k2" "kc_rcv_wnd (move_rcv_buf ?K1) = kc_rcv_wnd k2"
      by (simp_all only: K2) (simp_all add: with_queues_def)
    let ?r = "kc_nrcv_que k2 < kc_rcv_wnd k2 \<and> kc_nrcv_que k \<ge> kc_rcv_wnd k"
    let ?k3 = "if ?r then k2\<lparr>kc_probe := kc_probe k2 OR IKCP_ASK_TELL\<rparr> else k2"
    let ?K3 = "if ?r then (move_rcv_buf ?K1)\<lparr>kc_probe := kc_probe (move_rcv_buf ?K1) OR IKCP_ASK_TELL\<rparr> else move_rcv_buf ?K1"
    have run: "ptr_recv a len0 m k = Some (Inr (sint (sum_list (map sg_len segs)), concat (map seg_bytes segs), m2, ?k3))"
      using go queue_is_empty [OF q] peek m1(1) m2(1) by (simp add: ptr_recv_def Let_def)
    have "kc_rcv_queue K \<noteq> []" using go(1) scal(1) by simp
    then have "ikcp_recv K len0 = (sint (sum_list (map sg_len segs)), concat (map seg_bytes segs), ?K3)"
      using go(2,3) s by (simp add: ikcp_recv_def scal scal2 Let_def split del: if_split)
    moreover have "represents R m2 a ?k3 ?K3" by (rule representsI [OF l2]) (simp add: K2 with_queues_def)
    ultimately show ?thesis using run K' by auto
  qed
qed

subsection \<open>Moving to the send buffer\<close>

lemma send_loop_spec:
  assumes "queue_at m (ka_snd_queue a) A" and "queue_at m (ka_snd_buf a) C"
    and "set (ka_snd_queue a # A) \<inter> set (ka_snd_buf a # C) = {}" and "\<forall>n\<in>set A. m_live m n"
  shows "\<exists>ms A' m' k'. A = ms @ A' \<and> send_loop a cwnd wnd m k = Some (Inr (m', k'))
    \<and> (\<forall>SB SC SD. move_snd_queue cwnd wnd (k\<lparr>kc_snd_queue := map (m_seg m) A, kc_rcv_queue := SB, kc_snd_buf := SC, kc_rcv_buf := SD\<rparr>)
        = k'\<lparr>kc_snd_queue := map (m_seg m) A', kc_rcv_queue := SB, kc_snd_buf := SC @ map (m_seg m') ms, kc_rcv_buf := SD\<rparr>)
    \<and> queue_at m' (ka_snd_queue a) A' \<and> queue_at m' (ka_snd_buf a) (C @ ms)
    \<and> same_links (set (ka_snd_queue a # A) \<union> set (ka_snd_buf a # C)) m m' \<and> m_live m' = m_live m
    \<and> (\<forall>x. x \<notin> set ms \<longrightarrow> m_seg m' x = m_seg m x)"
  using assms
proof (induction A arbitrary: m k C)
  case Nil
  have "move_snd_queue cwnd wnd (k\<lparr>kc_snd_queue := [], kc_rcv_queue := SB, kc_snd_buf := SC, kc_rcv_buf := SD\<rparr>)
      = k\<lparr>kc_snd_queue := [], kc_rcv_queue := SB, kc_snd_buf := SC, kc_rcv_buf := SD\<rparr>" for SB SC SD
    by (subst move_snd_queue.simps) simp
  moreover have "send_loop a cwnd wnd m k = Some (Inr (m, k))" using queue_is_empty [OF Nil(1)] by (subst send_loop.simps) simp
  ultimately show ?case using Nil by (intro exI [of _ "[]"] exI [of _ m] exI [of _ k]) (simp add: same_links_refl)
next
  case (Cons n A)
  let ?q = "ka_snd_queue a" and ?b = "ka_snd_buf a"
  have n: "m_next m ?q = n" "n \<notin> set A" "n \<noteq> 0" "n \<noteq> ?q" using Cons.prems(1) by (auto simp: queue_at_def)
  have live: "m_live m n" using Cons.prems(4) by simp
  have e: "\<not> iqueue_is_empty ?q m" using queue_is_empty [OF Cons.prems(1)] by simp
  show ?case
  proof (cases "itimediff (kc_snd_nxt k) (kc_snd_una k + cwnd) < 0")
    case False
    then have "send_loop a cwnd wnd m k = Some (Inr (m, k))" by (subst send_loop.simps) simp
    moreover have "move_snd_queue cwnd wnd (k\<lparr>kc_snd_queue := map (m_seg m) (n # A), kc_rcv_queue := SB, kc_snd_buf := SC, kc_rcv_buf := SD\<rparr>)
      = k\<lparr>kc_snd_queue := map (m_seg m) (n # A), kc_rcv_queue := SB, kc_snd_buf := SC, kc_rcv_buf := SD\<rparr>" for SB SC SD
      using False by (subst move_snd_queue.simps) simp
    ultimately show ?thesis using Cons.prems
      by (intro exI [of _ "[]"] exI [of _ "n # A"] exI [of _ m] exI [of _ k]) (simp add: same_links_refl)
  next
    case True
    let ?s = "number_segment k wnd (m_seg m n)"
    let ?m1 = "iqueue_del n m" let ?m2 = "iqueue_add_tail n ?b ?m1" let ?m3 = "?m2\<lparr>m_seg := (m_seg m)(n := ?s)\<rparr>"
    let ?k = "k\<lparr>kc_nsnd_que := kc_nsnd_que k - 1, kc_nsnd_buf := kc_nsnd_buf k + 1, kc_snd_nxt := kc_snd_nxt k + 1\<rparr>"
    have q1: "queue_at ?m1 ?q A" using queue_del [of m ?q "[]" n A] Cons.prems(1) by simp
    have l1: "same_links (set (?q # n # A)) m ?m1" using links_del [of m ?q "[]" n A] Cons.prems(1) by simp
    have r1: "queue_at ?m1 ?b C" by (rule queue_frame [OF Cons.prems(2) l1]) (use Cons.prems(3) in auto)
    have nC: "n \<notin> set (?b # C)" using Cons.prems(3) by auto
    have r2: "queue_at ?m2 ?b (C @ [n])" by (rule queue_add_tail [OF r1 nC n(3)])
    have l2: "same_links (set (n # ?b # C)) ?m1 ?m2" by (rule links_add_tail [OF r1])
    have q2: "queue_at ?m2 ?q A" by (rule queue_frame [OF q1 l2]) (use Cons.prems(3) n in auto)
    have l3: "same_links (set (?q # n # A) \<union> set (?b # C)) m ?m3"
      using same_links_trans [OF l1 l2, of "set (?q # n # A) \<union> set (?b # C)"] by auto
    have dis: "set (?q # A) \<inter> set (?b # (C @ [n])) = {}" using Cons.prems(3) n by auto
    have lv: "\<forall>x\<in>set A. m_live ?m3 x" using Cons.prems(4) by simp
    have q3: "queue_at ?m3 ?q A" "queue_at ?m3 ?b (C @ [n])" using q2 r2 by simp_all
    obtain ms A' m' k' where r: "A = ms @ A'" "send_loop a cwnd wnd ?m3 ?k = Some (Inr (m', k'))"
      "\<forall>SB SC SD. move_snd_queue cwnd wnd (?k\<lparr>kc_snd_queue := map (m_seg ?m3) A, kc_rcv_queue := SB, kc_snd_buf := SC, kc_rcv_buf := SD\<rparr>)
        = k'\<lparr>kc_snd_queue := map (m_seg ?m3) A', kc_rcv_queue := SB, kc_snd_buf := SC @ map (m_seg m') ms, kc_rcv_buf := SD\<rparr>"
      "queue_at m' ?q A'" "queue_at m' ?b ((C @ [n]) @ ms)"
      "same_links (set (?q # A) \<union> set (?b # (C @ [n]))) ?m3 m'" "m_live m' = m_live ?m3"
      "\<forall>x. x \<notin> set ms \<longrightarrow> m_seg m' x = m_seg ?m3 x"
      using Cons.IH [OF q3 dis lv, of ?k] by blast
    have mA: "map (m_seg ?m3) A = map (m_seg m) A" "map (m_seg ?m3) A' = map (m_seg m) A'" "m_seg m' n = ?s"
      using n(2) r(1,8) by auto
    have "send_loop a cwnd wnd m k = send_loop a cwnd wnd ?m3 ?k" using e n(1) live True by (subst send_loop.simps) (simp add: seg_at_live)
    with r(2) have run: "send_loop a cwnd wnd m k = Some (Inr (m', k'))" by (simp only:)
    have mv: "move_snd_queue cwnd wnd (k\<lparr>kc_snd_queue := map (m_seg m) (n # A), kc_rcv_queue := SB, kc_snd_buf := SC, kc_rcv_buf := SD\<rparr>)
        = k'\<lparr>kc_snd_queue := map (m_seg m) A', kc_rcv_queue := SB, kc_snd_buf := SC @ map (m_seg m') (n # ms), kc_rcv_buf := SD\<rparr>" for SB SC SD
    proof -
      let ?x = "k\<lparr>kc_rcv_queue := SB, kc_rcv_buf := SD, kc_snd_queue := map (m_seg m) A, kc_snd_buf := SC @ [?s], kc_nsnd_que := kc_nsnd_que k - 1,
          kc_nsnd_buf := kc_nsnd_buf k + 1, kc_snd_nxt := kc_snd_nxt k + 1\<rparr>"
      have "?x = ?k\<lparr>kc_snd_queue := map (m_seg ?m3) A, kc_rcv_queue := SB, kc_snd_buf := SC @ [?s], kc_rcv_buf := SD\<rparr>"
        unfolding mA(1) by simp
      moreover have "move_snd_queue cwnd wnd (?k\<lparr>kc_snd_queue := map (m_seg ?m3) A, kc_rcv_queue := SB, kc_snd_buf := SC @ [?s], kc_rcv_buf := SD\<rparr>)
        = k'\<lparr>kc_snd_queue := map (m_seg ?m3) A', kc_rcv_queue := SB, kc_snd_buf := (SC @ [?s]) @ map (m_seg m') ms, kc_rcv_buf := SD\<rparr>"
        using r(3) by blast
      ultimately have "move_snd_queue cwnd wnd ?x = k'\<lparr>kc_snd_queue := map (m_seg ?m3) A', kc_rcv_queue := SB,
          kc_snd_buf := (SC @ [?s]) @ map (m_seg m') ms, kc_rcv_buf := SD\<rparr>" by (simp only:)
      then show ?thesis using True unfolding mA(2) by (subst move_snd_queue.simps) (simp add: mA(3) number_segment_def)
    qed
    have sl: "same_links (set (?q # n # A) \<union> set (?b # C)) m m'" by (rule same_links_trans [OF l3 r(6)]) auto
    have sg: "\<forall>x. x \<notin> set (n # ms) \<longrightarrow> m_seg m' x = m_seg m x" using r(8) by simp
    have lv': "m_live m' = m_live m" using r(7) by simp
    have q': "queue_at m' ?b (C @ (n # ms))" using r(5) by simp
    have A: "n # A = (n # ms) @ A'" using r(1) by simp
    show ?thesis
      by (rule exI [of _ "n # ms"], rule exI [of _ A'], rule exI [of _ m'], rule exI [of _ k'])
        (intro conjI allI impI A run mv r(4) q' sl lv' sg [rule_format])
  qed
qed

lemma send_loop_represents:
  assumes "represents R m a k K"
  shows "\<exists>m' k'. send_loop a cwnd wnd m k = Some (Inr (m', k')) \<and> represents R m' a k' (move_snd_queue cwnd wnd K)"
proof -
  obtain A B C D where l: "laid_out R m a A B C D" and K: "K = with_queues k m A B C D" using assms by (auto simp: represents_def)
  have q: "queue_at m (ka_snd_queue a) A" "queue_at m (ka_snd_buf a) C" and lv: "\<forall>n\<in>set A. m_live m n"
    using l laid_out_live [OF l] by (auto simp: laid_out_def)
  obtain ms A' m' k' where r: "A = ms @ A'" "send_loop a cwnd wnd m k = Some (Inr (m', k'))"
    "\<forall>SB SC SD. move_snd_queue cwnd wnd (k\<lparr>kc_snd_queue := map (m_seg m) A, kc_rcv_queue := SB, kc_snd_buf := SC, kc_rcv_buf := SD\<rparr>)
        = k'\<lparr>kc_snd_queue := map (m_seg m) A', kc_rcv_queue := SB, kc_snd_buf := SC @ map (m_seg m') ms, kc_rcv_buf := SD\<rparr>"
    "queue_at m' (ka_snd_queue a) A'" "queue_at m' (ka_snd_buf a) (C @ ms)"
    "same_links (set (ka_snd_queue a # A) \<union> set (ka_snd_buf a # C)) m m'" "m_live m' = m_live m"
    "\<forall>x. x \<notin> set ms \<longrightarrow> m_seg m' x = m_seg m x"
    using send_loop_spec [OF q laid_out_apart(4) [OF l] lv, of cwnd wnd k] by (elim exE conjE) (rule that, assumption+)
  have "laid_out R m' (swapped a) D (C @ ms) B A'"
  proof (rule laid_out_move)
    show "laid_out R m (swapped a) D C B (ms @ A')" using l unfolding r(1) laid_out_swapped .
    show "same_links (set (ka_rcv_buf (swapped a) # ms @ A') \<union> set (ka_rcv_queue (swapped a) # C)) m m'"
      using r(6) unfolding r(1) swapped_simps .
  qed (use r(4,5,7) in simp_all)
  then have l': "laid_out R m' a A' B (C @ ms) D" by (simp only: laid_out_swapped)
  have dis: "set ms \<inter> set (A' @ B @ C @ D) = {}" using l unfolding r(1) by (auto simp: laid_out_def)
  have same: "map (m_seg m') A' = map (m_seg m) A'" "map (m_seg m') B = map (m_seg m) B"
    "map (m_seg m') C = map (m_seg m) C" "map (m_seg m') D = map (m_seg m) D"
    using r(8) dis by auto
  have "move_snd_queue cwnd wnd K = with_queues k' m' A' B (C @ ms) D"
    unfolding K with_queues_def map_append same using r(3) by blast
  with r(2) representsI [OF l' this] show ?thesis by blast
qed

subsection \<open>Sending\<close>

definition crossed :: "kcp_at \<Rightarrow> kcp_at" where
  "crossed a = a\<lparr>ka_snd_queue := ka_snd_buf a, ka_snd_buf := ka_snd_queue a\<rparr>"

lemma laid_out_crossed: "laid_out R m (crossed a) C B A D \<longleftrightarrow> laid_out R m a A B C D"
proof -
  have own: "own_blocks (crossed a) = own_blocks a" by (simp add: crossed_def own_blocks_def)
  have "mset (heads (crossed a) @ own_blocks a @ C @ B @ A @ D) = mset (heads a @ own_blocks a @ A @ B @ C @ D)"
    by (simp add: heads_def crossed_def)
  then have d: "distinct (heads (crossed a) @ own_blocks a @ C @ B @ A @ D) \<longleftrightarrow> distinct (heads a @ own_blocks a @ A @ B @ C @ D)"
    by (rule mset_eq_imp_distinct_iff)
  have s: "set (heads (crossed a) @ own_blocks a @ C @ B @ A @ D) = set (heads a @ own_blocks a @ A @ B @ C @ D)"
    "set (own_blocks a @ C @ B @ A @ D) = set (own_blocks a @ A @ B @ C @ D)" by (auto simp: heads_def crossed_def)
  have h: "ka_snd_queue (crossed a) = ka_snd_buf a" "ka_rcv_queue (crossed a) = ka_rcv_queue a"
    "ka_snd_buf (crossed a) = ka_snd_queue a" "ka_rcv_buf (crossed a) = ka_rcv_buf a" by (simp_all add: crossed_def)
  show ?thesis unfolding laid_out_def own h d s by blast
qed

text \<open>A fresh block at the end of the send queue.\<close>

lemma laid_out_add_tail:
  assumes l: "laid_out R m a A B C D" and n: "n \<in> R"
  shows "laid_out (R - {n}) (iqueue_add_tail n (ka_snd_queue a) m) a (A @ [n]) B C D"
proof -
  let ?h = "ka_snd_queue a"
  have n0: "n \<noteq> 0" and n1: "n \<notin> set (?h # A)" using laid_out_fresh [OF l n] by (auto simp: heads_def)
  have q: "queue_at m ?h A" using l by (simp add: laid_out_def)
  have ls: "laid_out R m (swapped a) D C B (A @ [])" using l by (simp only: laid_out_swapped append_Nil2)
  have "laid_out (R - {n}) (iqueue_add_tail n ?h m) (swapped a) D C B (A @ [n])"
    by (rule laid_out_take [OF ls n]) (use queue_add_tail [OF q n1 n0] links_add_tail [OF q, of n] in simp_all)
  then show ?thesis by (simp only: laid_out_swapped)
qed

lemma del_init_free:
  assumes "queue_at m head (xs @ p # ys)" and "m_live m p"
  shows "\<exists>m'. ikcp_free p (iqueue_del_init p m) = Inr m' \<and> queue_at m' head (xs @ ys) \<and> freed {p} (set (head # xs @ p # ys)) m m'"
proof -
  have l: "m_live (iqueue_del_init p m) = m_live m" "m_seg (iqueue_del_init p m) = m_seg m" by (simp_all add: iqueue_del_init_def)
  have "same_links (set (head # xs @ p # ys)) m (iqueue_del_init p m)"
    unfolding iqueue_del_init_def
    by (rule same_links_trans [OF links_del [OF assms(1)], of "{p}"]) (auto simp: same_links_def iqueue_init_def)
  moreover have "same_links S m m1 \<Longrightarrow> same_links S m (m1\<lparr>m_live := f\<rparr>)" for S f and m1 :: memory by (simp add: same_links_def)
  ultimately show ?thesis using queue_del_init [OF assms(1)] assms(2) l
    by (simp add: free_live freed_def fun_upd_def)
qed

lemma extend_represents:
  assumes "represents R m a k K" and "set (take 1 news) \<subseteq> R" and "news \<noteq> []" and e: "send_extend K buffer len = (K1, buf1, len1, ext)"
  shows "\<exists>m1 used. ptr_extend a news buffer len m k = Some (Inr (Some (m1, drop used news, buf1, len1, ext)))
    \<and> used \<le> 1 \<and> represents (R - set (take used news)) m1 a k K1"
proof -
  obtain A B C D where l: "laid_out R m a A B C D" and K: "K = with_queues k m A B C D" using assms by (auto simp: represents_def)
  have q: "queue_at m (ka_snd_queue a) A" and lv: "\<forall>n\<in>set A. m_live m n" using l laid_out_live [OF l] by (auto simp: laid_out_def)
  have scal: "kc_stream K = kc_stream k" "kc_mss K = kc_mss k" "kc_snd_queue K = map (m_seg m) A" by (simp_all add: K with_queues_def)
  show ?thesis
  proof (cases "kc_stream k \<noteq> 0 \<and> A \<noteq> [] \<and> sg_len (m_seg m (last A)) < kc_mss k")
    case False
    have "send_extend K buffer len = (K, buffer, len, 0)" using False by (auto simp: send_extend_def scal last_map)
    moreover have "ptr_extend a news buffer len m k = Some (Inr (Some (m, news, buffer, len, 0)))"
    proof (cases "A = []")
      case True
      then show ?thesis using queue_is_empty [OF q] by (simp add: ptr_extend_def)
    next
      case ne: False
      then have "m_prev m (ka_snd_queue a) = last A" "m_live m (last A)" using queue_last [OF q] lv by auto
      then show ?thesis using False ne queue_is_empty [OF q] by (auto simp: ptr_extend_def seg_at_live)
    qed
    ultimately show ?thesis using assms(1) e by (intro exI [of _ m] exI [of _ 0]) simp
  next
    case True
    then obtain A0 p where A: "A = A0 @ [p]" by (metis rev_exhaust)
    obtain n rest where news: "news = n # rest" using assms(3) by (cases news) auto
    have nR: "n \<in> R" using assms(2) news by simp
    let ?old = "m_seg m p" and ?h = "ka_snd_queue a"
    let ?ext = "if len < sint (kc_mss k - sg_len ?old) then len else sint (kc_mss k - sg_len ?old)"
    let ?new = "ikcp_segment_new (seg_bytes ?old @ take (nat ?ext) buffer)"
    have p: "m_prev m ?h = p" "m_live m p" using queue_last [OF q] lv A by simp_all
    let ?m1 = "iqueue_add_tail n ?h m" let ?m2 = "new_segment n (seg_bytes ?old @ take (nat ?ext) buffer) 0 ?m1"
    have l1: "laid_out (R - {n}) ?m1 a ((A0 @ [p]) @ [n]) B C D" using laid_out_add_tail [OF l nR] unfolding A .
    have l2: "laid_out (R - {n}) ?m2 a (A0 @ p # [n]) B C D" using l1 by (simp add: new_segment_def)
    have q2: "queue_at ?m2 ?h (A0 @ p # [n])" using l2 by (simp add: laid_out_def)
    have lp: "m_live ?m2 p" using p(2) by (simp add: new_segment_def)
    obtain m3 where m3: "ikcp_free p (iqueue_del_init p ?m2) = Inr m3" "queue_at m3 ?h (A0 @ [n])"
      "freed {p} (set (?h # A0 @ p # [n])) ?m2 m3" using del_init_free [OF q2 lp] by blast
    have "p \<noteq> n" "p \<notin> set A0" using q2 by (auto simp: queue_at_def)
    then have sets: "set (A0 @ p # [n]) = set (A0 @ [n]) \<union> {p}" "{p} \<inter> set (A0 @ [n]) = {}" by auto
    have h: "ka_snd_buf (crossed a) = ?h" by (simp add: crossed_def)
    have "laid_out (R - {n}) ?m2 (crossed a) C B (A0 @ p # [n]) D" using l2 by (simp only: laid_out_crossed)
    then have "laid_out (R - {n}) m3 (crossed a) C B (A0 @ [n]) D"
      by (rule laid_out_snd_buf [OF _ _ _ sets]) (simp_all only: h m3(2,3))
    then have l3: "laid_out (R - {n}) m3 a (A0 @ [n]) B C D" by (simp only: laid_out_crossed)
    have run: "ptr_extend a news buffer len m k = Some (Inr (Some (m3, rest, drop (nat ?ext) buffer, len - ?ext, ?ext)))"
      using True queue_is_empty [OF q] p m3(1) by (simp add: ptr_extend_def news seg_at_live A Let_def)
    have n: "n \<notin> set (A0 @ B @ C @ D)" using laid_out_fresh [OF l nR] A by simp
    have "m_seg m3 = (m_seg m)(n := ?new\<lparr>sg_frg := 0\<rparr>)" using freed_seg [OF m3(3)] by (simp add: new_segment_def)
    then have seg: "m_seg m3 = (m_seg m)(n := ?new)" by (simp add: ikcp_segment_new_def)
    have same: "map (m_seg m3) A0 = map (m_seg m) A0" "map (m_seg m3) B = map (m_seg m) B" "map (m_seg m3) C = map (m_seg m) C"
      "map (m_seg m3) D = map (m_seg m) D" "map (m_seg m3) [n] = [?new]"
      unfolding seg using n by auto
    have K3: "K\<lparr>kc_snd_queue := butlast (kc_snd_queue K) @ [?new]\<rparr> = with_queues k m3 (A0 @ [n]) B C D"
      unfolding with_queues_def map_append same by (simp add: K with_queues_def A)
    have "send_extend K buffer len = (K\<lparr>kc_snd_queue := butlast (kc_snd_queue K) @ [?new]\<rparr>, drop (nat ?ext) buffer, len - ?ext, ?ext)"
      using True by (simp add: send_extend_def scal A Let_def)
    then have "(K1, buf1, len1, ext) = (K\<lparr>kc_snd_queue := butlast (kc_snd_queue K) @ [?new]\<rparr>, drop (nat ?ext) buffer, len - ?ext, ?ext)"
      unfolding e by simp
    then have eqs: "K1 = K\<lparr>kc_snd_queue := butlast (kc_snd_queue K) @ [?new]\<rparr>" "buf1 = drop (nat ?ext) buffer" "len1 = len - ?ext" "ext = ?ext"
      unfolding prod.inject by blast+
    have "represents (R - {n}) m3 a k K1" unfolding eqs(1) by (rule representsI [OF l3 K3])
    moreover have "drop 1 news = rest" "set (take 1 news) = {n}" by (simp_all add: news)
    ultimately show ?thesis using run unfolding eqs(2-4) by (intro exI [of _ m3] exI [of _ 1]) (simp only: simp_thms le_refl)
  qed
qed

lemma laid_out_init:
  assumes l: "laid_out R m a A B C D" and n: "n \<in> R"
  shows "laid_out R (iqueue_init n m) a A B C D"
proof -
  have nq: "n \<notin> set (heads a @ own_blocks a @ A @ B @ C @ D)" using laid_out_fresh [OF l n] by blast
  have sl: "same_links {n} m (iqueue_init n m)" by (simp add: same_links_def iqueue_init_def)
  have q0: "queue_at m (ka_snd_queue a) A" "queue_at m (ka_rcv_queue a) B" "queue_at m (ka_snd_buf a) C" "queue_at m (ka_rcv_buf a) D"
    using l by (simp_all add: laid_out_def)
  have ap: "set (ka_snd_queue a # A) \<inter> {n} = {}" "set (ka_rcv_queue a # B) \<inter> {n} = {}" "set (ka_snd_buf a # C) \<inter> {n} = {}"
    "set (ka_rcv_buf a # D) \<inter> {n} = {}" using nq by (auto simp: heads_def)
  have "queue_at (iqueue_init n m) (ka_snd_queue a) A" "queue_at (iqueue_init n m) (ka_rcv_queue a) B"
    "queue_at (iqueue_init n m) (ka_snd_buf a) C" "queue_at (iqueue_init n m) (ka_rcv_buf a) D"
    using queue_frame [OF q0(1) sl ap(1)] queue_frame [OF q0(2) sl ap(2)] queue_frame [OF q0(3) sl ap(3)] queue_frame [OF q0(4) sl ap(4)] .
  then show ?thesis using l unfolding laid_out_def links_keep by blast
qed

lemma fragments_represents:
  assumes "represents R m a k K" and "distinct news" and "set news \<subseteq> R" and "c \<le> length news"
    and "send_fragments c K buffer len sent = (ret, K')"
  shows "\<exists>m' k'. ptr_fragments c a news buffer len sent m k = (ret, drop c news, m', k') \<and> represents (R - set (take c news)) m' a k' K'"
  using assms
proof (induction c arbitrary: R m k K news buffer len sent)
  case 0
  then show ?case by simp
next
  case (Suc c)
  obtain n rest where news: "news = n # rest" using Suc.prems(4) by (cases news) auto
  have nR: "n \<in> R" "n \<notin> set rest" "distinct rest" using Suc.prems(2,3) news by auto
  obtain A B C D where l: "laid_out R m a A B C D" and K: "K = with_queues k m A B C D" using Suc.prems(1) by (auto simp: represents_def)
  let ?size = "if len > sint (kc_mss k) then sint (kc_mss k) else len"
  let ?frg = "if kc_stream k = 0 then word_of_nat c else 0 :: u32"
  let ?seg = "(ikcp_segment_new (take (nat ?size) buffer))\<lparr>sg_frg := ?frg\<rparr>"
  let ?m1 = "new_segment n (take (nat ?size) buffer) ?frg m" let ?m2 = "iqueue_add_tail n (ka_snd_queue a) (iqueue_init n ?m1)"
  let ?k = "k\<lparr>kc_nsnd_que := kc_nsnd_que k + 1\<rparr>"
  have "laid_out R ?m1 a A B C D" using l by (simp only: new_segment_def seg_write)
  from laid_out_add_tail [OF laid_out_init [OF this nR(1)] nR(1)] have l2: "laid_out (R - {n}) ?m2 a (A @ [n]) B C D" .
  have seg: "m_seg ?m2 = (m_seg m)(n := ?seg)" by (simp add: new_segment_def)
  have fresh: "n \<notin> set (A @ B @ C @ D)" using laid_out_fresh [OF l nR(1)] by simp
  have same: "map (m_seg ?m2) A = map (m_seg m) A" "map (m_seg ?m2) B = map (m_seg m) B" "map (m_seg ?m2) C = map (m_seg m) C"
    "map (m_seg ?m2) D = map (m_seg m) D" "map (m_seg ?m2) [n] = [?seg]"
    unfolding seg using fresh by auto
  let ?K = "K\<lparr>kc_snd_queue := kc_snd_queue K @ [?seg], kc_nsnd_que := kc_nsnd_que K + 1\<rparr>"
  have "?K = with_queues ?k ?m2 (A @ [n]) B C D"
    unfolding with_queues_def map_append same by (simp add: K with_queues_def)
  then have rep: "represents (R - {n}) ?m2 a ?k ?K" by (rule representsI [OF l2])
  have scal: "kc_mss K = kc_mss k" "kc_stream K = kc_stream k" by (simp_all add: K with_queues_def)
  have run: "send_fragments c ?K (drop (nat ?size) buffer) (len - ?size) (sent + ?size) = (ret, K')"
    using Suc.prems(5) by (simp only: send_fragments.simps Let_def scal)
  have sub: "set rest \<subseteq> R - {n}" "c \<le> length rest" using Suc.prems(3,4) nR news by auto
  obtain m' k' where r: "ptr_fragments c a rest (drop (nat ?size) buffer) (len - ?size) (sent + ?size) ?m2 ?k = (ret, drop c rest, m', k')"
    "represents (R - {n} - set (take c rest)) m' a k' K'"
    using Suc.IH [OF rep nR(3) sub run] by blast
  have "R - {n} - set (take c rest) = R - set (take (Suc c) news)" by (auto simp: news)
  with r show ?case by (intro exI [of _ m'] exI [of _ k']) (simp add: news Let_def)
qed

lemma send_represents:
  assumes rep: "represents R m a k K" and news: "distinct news" "set news \<subseteq> R" "unat IKCP_WND_RCV \<le> length news"
    and send: "ikcp_send K buffer len = (ret, K')"
  shows "\<exists>m' k' used. ptr_send a news buffer len m k = Some (Inr (ret, drop used news, m', k'))
    \<and> represents (R - set (take used news)) m' a k' K'"
proof (cases "len < 0")
  case True
  then show ?thesis using rep send by (intro exI [of _ m] exI [of _ k] exI [of _ 0]) (simp add: ptr_send_def ikcp_send_def)
next
  case False
  obtain K1 buf1 len1 ext where e: "send_extend K buffer len = (K1, buf1, len1, ext)" by (rule prod_cases4)
  have ne: "news \<noteq> []" and sub: "set (take 1 news) \<subseteq> R" using news(2,3) by (auto simp: IKCP_WND_RCV_def dest: in_set_takeD)
  obtain m1 used where x: "ptr_extend a news buffer len m k = Some (Inr (Some (m1, drop used news, buf1, len1, ext)))"
    "used \<le> 1" "represents (R - set (take used news)) m1 a k K1"
    using extend_represents [OF rep sub ne e] by blast
  have scal: "kc_stream K1 = kc_stream k" "kc_mss K1 = kc_mss k"
    using x(3) by (auto simp: represents_def with_queues_def)
  define cnt where "cnt = (if len1 \<le> sint (kc_mss k) then 1 else sint ((word_of_int len1 + kc_mss k - 1) div kc_mss k))"
  define c where "c = nat (if cnt = 0 then 1 else cnt)"
  have S: "ikcp_send K buffer len = (if kc_stream k \<noteq> 0 \<and> len1 \<le> 0 then (ext, K1)
      else if cnt \<ge> sint IKCP_WND_RCV then (if kc_stream k \<noteq> 0 \<and> ext > 0 then (ext, K1) else (- 2, K1))
      else send_fragments c K1 buf1 len1 ext)"
    using False by (simp only: ikcp_send_def e prod.case scal Let_def if_False cnt_def c_def)
  have P: "ptr_send a news buffer len m k = Some (Inr (if kc_stream k \<noteq> 0 \<and> len1 \<le> 0 then (ext, drop used news, m1, k)
      else if cnt \<ge> sint IKCP_WND_RCV then (if kc_stream k \<noteq> 0 \<and> ext > 0 then (ext, drop used news, m1, k) else (- 2, drop used news, m1, k))
      else ptr_fragments c a (drop used news) buf1 len1 ext m1 k))"
    using False by (simp only: ptr_send_def x(1) bind_run_simps option.case prod.case Let_def if_False cnt_def c_def)
  consider (all) "kc_stream k \<noteq> 0 \<and> len1 \<le> 0" | (full) "\<not> (kc_stream k \<noteq> 0 \<and> len1 \<le> 0)" "cnt \<ge> sint IKCP_WND_RCV"
    | (go) "\<not> (kc_stream k \<noteq> 0 \<and> len1 \<le> 0)" "\<not> cnt \<ge> sint IKCP_WND_RCV" by blast
  then show ?thesis
  proof cases
    case all
    then have "(ret, K') = (ext, K1)" "ptr_send a news buffer len m k = Some (Inr (ext, drop used news, m1, k))"
      using S P send all by simp_all
    then show ?thesis using x(3) by blast
  next
    case full
    let ?r = "if kc_stream k \<noteq> 0 \<and> ext > 0 then ext else - 2"
    have "(ret, K') = (?r, K1)" "ptr_send a news buffer len m k = Some (Inr (?r, drop used news, m1, k))"
      using S P send full by simp_all
    then show ?thesis using x(3) by blast
  next
    case go
    have "c \<le> 127" using go(2) by (auto simp: c_def nat_le_iff)
    then have c: "c \<le> length (drop used news)" using news(3) x(2) by (simp add: IKCP_WND_RCV_def)
    have d: "distinct (drop used news)" using news(1) by simp
    have "set (take used news) \<inter> set (drop used news) = {}" using news(1) by (simp add: set_take_disj_set_drop_if_distinct)
    then have s: "set (drop used news) \<subseteq> R - set (take used news)" using news(2) by (auto dest: in_set_dropD)
    have f: "send_fragments c K1 buf1 len1 ext = (ret, K')" using S send go by simp
    obtain m' k' where r: "ptr_fragments c a (drop used news) buf1 len1 ext m1 k = (ret, drop c (drop used news), m', k')"
      "represents (R - set (take used news) - set (take c (drop used news))) m' a k' K'"
      using fragments_represents [OF x(3) d s c f] by blast
    have P': "ptr_send a news buffer len m k = Some (Inr (ret, drop (used + c) news, m', k'))"
      using P go r(1) by (simp only: if_False drop_drop add.commute)
    have "R - set (take used news) - set (take c (drop used news)) = R - set (take (used + c) news)"
      by (simp only: take_add set_append) blast
    with r(2) have "represents (R - set (take (used + c) news)) m' a k' K'" by (simp only:)
    with P' show ?thesis by blast
  qed
qed

subsection \<open>Creation, the datagram buffer and the acknowledgement list\<close>

text \<open>The queue heads lie in the block of the control block, behind 33 fields of 4 bytes and 4 bytes of padding
  (64-bit pointers).\<close>

definition kcp_layout :: "addr \<Rightarrow> addr \<Rightarrow> kcp_at" where
  "kcp_layout p b = \<lparr>ka_self = p, ka_snd_queue = p + 136, ka_rcv_queue = p + 152, ka_snd_buf = p + 168, ka_rcv_buf = p + 184,
     ka_buffer = b, ka_acklist = 0\<rparr>"

text \<open>\<open>ikcp_create\<close> when the two calls of the allocator return \<open>p\<close> and \<open>b\<close>; \<open>None\<close> is \<open>NULL\<close>.\<close>

definition ptr_create :: "u32 \<Rightarrow> addr \<Rightarrow> addr \<Rightarrow> memory \<Rightarrow> ((kcp_at \<times> IKCPCB) option \<times> memory) result" where
  "ptr_create conv p b m =
     (if p = 0 then Inr (None, m)
      else if b = 0 then bind_result (ikcp_free p m) (\<lambda>m'. Inr (None, m'))
      else let a = kcp_layout p b
           in Inr (Some (a, ikcp_create conv), iqueue_init (ka_rcv_buf a) (iqueue_init (ka_snd_buf a)
                (iqueue_init (ka_rcv_queue a) (iqueue_init (ka_snd_queue a) m)))))"

definition ptr_setmtu :: "kcp_at \<Rightarrow> addr \<Rightarrow> int \<Rightarrow> memory \<Rightarrow> IKCPCB \<Rightarrow> (int \<times> kcp_at \<times> memory \<times> IKCPCB) result" where
  "ptr_setmtu a b mtu m k =
     (if mtu < 50 \<or> mtu < sint IKCP_OVERHEAD then Inr (- 1, a, m, k)
      else if b = 0 then Inr (- 2, a, m, k)
      else bind_result (ikcp_free (ka_buffer a) m) (\<lambda>m'. Inr (0, a\<lparr>ka_buffer := b\<rparr>, m', snd (ikcp_setmtu k mtu))))"

text \<open>\<open>ikcp_ack_push\<close>: a full list is replaced by a larger block; when the allocator returns 0, \<open>abort\<close> is called.\<close>

definition ptr_ack_push :: "kcp_at \<Rightarrow> addr \<Rightarrow> u32 \<Rightarrow> u32 \<Rightarrow> memory \<Rightarrow> IKCPCB \<Rightarrow> (kcp_at \<times> memory \<times> IKCPCB) result" where
  "ptr_ack_push a b sn ts m k =
     (if kc_ackcount k + 1 > kc_ackblock k
      then if b = 0 then Inl BrokenPrecondition
           else bind_result (if ka_acklist a \<noteq> 0 then ikcp_free (ka_acklist a) m else Inr m)
             (\<lambda>m'. Inr (a\<lparr>ka_acklist := b\<rparr>, m', ikcp_ack_push k sn ts))
      else Inr (a, m, ikcp_ack_push k sn ts))"

lemma created_represents:
  assumes live: "\<forall>x. m_live m x \<longleftrightarrow> x \<in> R" and blocks: "p \<in> R" "b \<in> R" "p \<noteq> b" "p \<noteq> 0" "b \<noteq> 0" "0 \<notin> R"
    and heads: "R \<inter> set (heads (kcp_layout p b)) = {}"
  shows "\<exists>m'. ptr_create conv p b m = Inr (Some (kcp_layout p b, ikcp_create conv), m')
    \<and> represents (R - {p, b}) m' (kcp_layout p b) (ikcp_create conv) (ikcp_create conv)"
proof -
  let ?a = "kcp_layout p b"
  let ?m = "iqueue_init (ka_rcv_buf ?a) (iqueue_init (ka_snd_buf ?a) (iqueue_init (ka_rcv_queue ?a) (iqueue_init (ka_snd_queue ?a) m)))"
  have q: "queue_at ?m (ka_snd_queue ?a) []" "queue_at ?m (ka_rcv_queue ?a) []" "queue_at ?m (ka_snd_buf ?a) []" "queue_at ?m (ka_rcv_buf ?a) []"
    by (simp_all add: kcp_layout_def queue_at_def iqueue_init_def)
  have "distinct (heads ?a @ own_blocks ?a @ [] @ [] @ [] @ [])"
    using blocks heads by (auto simp: heads_def own_blocks_def kcp_layout_def)
  moreover have "(R - {p, b}) \<inter> set (heads ?a @ own_blocks ?a @ [] @ [] @ [] @ []) = {}"
    using heads by (auto simp: own_blocks_def kcp_layout_def)
  moreover have "\<forall>x. m_live ?m x \<longleftrightarrow> x \<in> R - {p, b} \<or> x \<in> set (own_blocks ?a @ [] @ [] @ [] @ [])"
    using live blocks by (auto simp: own_blocks_def kcp_layout_def)
  ultimately have "laid_out (R - {p, b}) ?m ?a [] [] [] []" using q blocks(6) unfolding laid_out_def by blast
  then have "represents (R - {p, b}) ?m ?a (ikcp_create conv) (ikcp_create conv)"
    by (rule representsI) (simp add: with_queues_def ikcp_create_def)
  then show ?thesis using blocks(4,5) by (simp add: ptr_create_def Let_def)
qed

text \<open>A block of the control block is exchanged for a fresh one.\<close>

lemma laid_out_reblock:
  assumes l: "laid_out R m a A B C D" and b: "b \<in> R" and heads: "heads a' = heads a"
    and own: "mset (own_blocks a) = mset old + mset rest" "mset (own_blocks a') = add_mset b (mset rest)"
    and sl: "same_links {} m m'" and live: "\<forall>x. m_live m' x \<longleftrightarrow> m_live m x \<and> x \<notin> set old"
  shows "laid_out (R - {b}) m' a' A B C D"
proof -
  let ?N = "A @ B @ C @ D"
  have o: "set (own_blocks a) = set old \<union> set rest" "set (own_blocks a') = insert b (set rest)"
    using own by (metis set_mset_mset set_mset_union, metis set_mset_add_mset_insert set_mset_mset)
  have fresh: "b \<notin> set (heads a @ own_blocks a @ ?N)" using laid_out_fresh [OF l b] by blast
  have dist: "distinct (heads a @ own_blocks a @ ?N)" using l unfolding laid_out_def by (elim conjE)
  have "mset (heads a @ own_blocks a @ ?N) = mset (old @ heads a @ rest @ ?N)" using own(1) by (simp add: ac_simps)
  then have d1: "distinct (old @ heads a @ rest @ ?N)" using dist by (blast dest: mset_eq_imp_distinct_iff)
  have "mset (heads a' @ own_blocks a' @ ?N) = mset (b # heads a @ rest @ ?N)" using own(2) heads by simp
  then have "distinct (heads a' @ own_blocks a' @ ?N) \<longleftrightarrow> distinct (b # heads a @ rest @ ?N)" by (rule mset_eq_imp_distinct_iff)
  moreover have br: "b \<notin> set (heads a @ rest @ ?N)" "b \<notin> set old" using fresh o(1) by auto
  ultimately have d: "distinct (heads a' @ own_blocks a' @ ?N)" using d1 by simp
  have r: "R \<inter> set (heads a @ own_blocks a @ ?N) = {}" "0 \<notin> R"
    and lv: "\<forall>x. m_live m x \<longleftrightarrow> x \<in> R \<or> x \<in> set (own_blocks a @ ?N)" using l unfolding laid_out_def by blast+
  have r1: "(R - {b}) \<inter> set (heads a' @ own_blocks a' @ ?N) = {}" using r(1) unfolding set_append heads o by blast
  have "set old \<inter> set (rest @ ?N) = {}" "set old \<inter> R = {}" using d1 r(1) o(1) by auto
  then have lv': "\<forall>x. m_live m' x \<longleftrightarrow> x \<in> R - {b} \<or> x \<in> set (own_blocks a' @ ?N)"
    unfolding live [rule_format] lv [rule_format] set_append o using br b by blast
  have h: "ka_snd_queue a' = ka_snd_queue a" "ka_rcv_queue a' = ka_rcv_queue a" "ka_snd_buf a' = ka_snd_buf a" "ka_rcv_buf a' = ka_rcv_buf a"
    using heads by (simp_all add: heads_def)
  have q: "queue_at m' (ka_snd_queue a') A" "queue_at m' (ka_rcv_queue a') B" "queue_at m' (ka_snd_buf a') C" "queue_at m' (ka_rcv_buf a') D"
    using l unfolding h laid_out_def by (auto intro: queue_frame [OF _ sl])
  have "0 \<notin> R - {b}" using r(2) by blast
  then show ?thesis unfolding laid_out_def by (intro conjI q d r1 lv')
qed

lemma setmtu_represents:
  assumes rep: "represents R m a k K" and b: "b \<in> R" and old: "ka_buffer a \<noteq> 0"
  shows "\<exists>a' m' k'. ptr_setmtu a b mtu m k = Inr (fst (ikcp_setmtu K mtu), a', m', k')
    \<and> represents (if mtu < 50 then R else R - {b}) m' a' k' (snd (ikcp_setmtu K mtu))"
proof (cases "mtu < 50")
  case True
  then show ?thesis using rep by (simp add: ptr_setmtu_def ikcp_setmtu_def)
next
  case False
  obtain A B C D where l: "laid_out R m a A B C D" and K: "K = with_queues k m A B C D" using rep by (auto simp: represents_def)
  have ov: "\<not> mtu < sint IKCP_OVERHEAD" using False by (simp add: IKCP_OVERHEAD_def)
  have b0: "b \<noteq> 0" using laid_out_fresh [OF l b] by blast
  have "m_live m (ka_buffer a)" using l old by (auto simp: laid_out_def own_blocks_def)
  then have f: "ikcp_free (ka_buffer a) m = Inr (m\<lparr>m_live := (m_live m)(ka_buffer a := False)\<rparr>)" (is "_ = Inr ?m") by (rule free_live)
  let ?a = "a\<lparr>ka_buffer := b\<rparr>"
  have "laid_out (R - {b}) ?m ?a A B C D"
    by (rule laid_out_reblock [OF l b, of _ "[ka_buffer a]" "ka_self a # filter (\<lambda>p. p \<noteq> 0) [ka_acklist a]"])
      (use old b0 in \<open>auto simp: heads_def own_blocks_def same_links_def\<close>)
  then have "represents (R - {b}) ?m ?a (snd (ikcp_setmtu k mtu)) (snd (ikcp_setmtu K mtu))"
    by (rule representsI) (use False ov in \<open>simp add: K with_queues_def ikcp_setmtu_def\<close>)
  moreover have "ptr_setmtu a b mtu m k = Inr (fst (ikcp_setmtu K mtu), ?a, ?m, snd (ikcp_setmtu k mtu))"
    using False ov b0 f by (simp add: ptr_setmtu_def ikcp_setmtu_def)
  ultimately show ?thesis using False by auto
qed

lemma ack_push_represents:
  assumes rep: "represents R m a k K" and b: "b \<in> R"
  shows "\<exists>a' m' k'. ptr_ack_push a b sn ts m k = Inr (a', m', k')
    \<and> represents (if kc_ackcount K + 1 > kc_ackblock K then R - {b} else R) m' a' k' (ikcp_ack_push K sn ts)"
proof -
  obtain A B C D where l: "laid_out R m a A B C D" and K: "K = with_queues k m A B C D" using rep by (auto simp: represents_def)
  have scal: "kc_ackcount K = kc_ackcount k" "kc_ackblock K = kc_ackblock k" by (simp_all add: K with_queues_def)
  have push: "ikcp_ack_push K sn ts = with_queues (ikcp_ack_push k sn ts) m A B C D"
    by (simp add: K with_queues_def ikcp_ack_push_def Let_def)
  show ?thesis
  proof (cases "kc_ackcount k + 1 > kc_ackblock k")
    case False
    then show ?thesis using representsI [OF l push] by (auto simp: ptr_ack_push_def scal)
  next
    case True
    have b0: "b \<noteq> 0" using laid_out_fresh [OF l b] by blast
    let ?a = "a\<lparr>ka_acklist := b\<rparr>" and ?old = "filter (\<lambda>p. p \<noteq> 0) [ka_acklist a]"
    let ?m = "if ka_acklist a \<noteq> 0 then m\<lparr>m_live := (m_live m)(ka_acklist a := False)\<rparr> else m"
    have "ka_acklist a \<noteq> 0 \<Longrightarrow> m_live m (ka_acklist a)" using l by (auto simp: laid_out_def own_blocks_def)
    then have f: "(if ka_acklist a \<noteq> 0 then ikcp_free (ka_acklist a) m else Inr m) = Inr ?m" by (simp add: free_live)
    have "laid_out (R - {b}) ?m ?a A B C D"
      by (rule laid_out_reblock [OF l b, of _ ?old "ka_self a # filter (\<lambda>p. p \<noteq> 0) [ka_buffer a]"])
        (use b0 in \<open>auto simp: heads_def own_blocks_def same_links_def\<close>)
    then have "represents (R - {b}) ?m ?a (ikcp_ack_push k sn ts) (ikcp_ack_push K sn ts)"
      by (rule representsI) (simp add: push with_queues_def)
    moreover have "ptr_ack_push a b sn ts m k = Inr (?a, ?m, ikcp_ack_push k sn ts)"
      using True b0 unfolding ptr_ack_push_def f by simp
    ultimately show ?thesis using True by (auto simp: scal)
  qed
qed

subsection \<open>Properties\<close>

text \<open>C10: the pointer code implements the list operations.  On a memory that represents a control block, acknowledgement
  processing, the insertion of a received segment, reading, sending, and the move to the send buffer
  return; they read no freed segment and free no block twice; they compute what the operations on lists
  compute; and the memory they leave represents the resulting control block, with every block
  accounted for: a segment that leaves the queues has been given back to the allocator, a segment that was
  taken from it is in a queue.\<close>

theorem pointer_code_refines_lists:
  assumes "represents R m a k K" and "n \<in> R"
    and "distinct news" and "set news \<subseteq> R" and "unat IKCP_WND_RCV \<le> length news"
  shows "(\<exists>m' k'. ptr_parse_ack a sn m k = Some (Inr (m', k')) \<and> represents R m' a k' (ikcp_parse_ack K sn))
    \<and> (\<exists>m' k'. ptr_parse_una a una m k = Some (Inr (m', k')) \<and> represents R m' a k' (ikcp_parse_una K una))
    \<and> (\<exists>m' k'. ptr_parse_data a n m k = Some (Inr (m', k')) \<and> represents (R - {n}) m' a k' (ikcp_parse_data K (m_seg m n)))
    \<and> (\<exists>m' k'. ptr_recv a len m k = Some (Inr (fst (ikcp_recv K len), fst (snd (ikcp_recv K len)), m', k'))
        \<and> represents R m' a k' (snd (snd (ikcp_recv K len))))
    \<and> (\<exists>m' k' used. ptr_send a news buffer sz m k = Some (Inr (fst (ikcp_send K buffer sz), drop used news, m', k'))
        \<and> represents (R - set (take used news)) m' a k' (snd (ikcp_send K buffer sz)))
    \<and> (\<exists>m' k'. send_loop a cwnd wnd m k = Some (Inr (m', k')) \<and> represents R m' a k' (move_snd_queue cwnd wnd K))"
  using parse_ack_represents [OF assms(1), of sn] parse_una_represents [OF assms(1), of una] parse_data_represents [OF assms(1,2)]
    recv_represents [OF assms(1), of len "fst (ikcp_recv K len)" "fst (snd (ikcp_recv K len))" "snd (snd (ikcp_recv K len))"]
    send_represents [OF assms(1,3-5), of buffer sz "fst (ikcp_send K buffer sz)" "snd (ikcp_send K buffer sz)"]
    send_loop_represents [OF assms(1), of cwnd wnd]
  unfolding prod.collapse by (intro conjI; simp only: simp_thms)

text \<open>A new control block in a memory with 200 free blocks, to which three bytes are sent.\<close>

definition block_pool :: memory where
  "block_pool = \<lparr>m_next = (\<lambda>a. 0), m_prev = (\<lambda>a. 0), m_seg = (\<lambda>a. ikcp_segment_new []),
     m_live = (\<lambda>x. x \<in> {1000, 2000} \<union> {3000..<3200})\<rparr>"

theorem pointer_code_refines_lists_witness:
  "\<exists>m m' k' used. ptr_create 7 1000 2000 block_pool = Inr (Some (kcp_layout 1000 2000, ikcp_create 7), m)
    \<and> ptr_send (kcp_layout 1000 2000) [3000..<3128] [1, 2, 3] 3 m (ikcp_create 7) = Some (Inr (3, drop used [3000..<3128], m', k'))
    \<and> represents ({3000..<3200} - set (take used [3000..<3128])) m' (kcp_layout 1000 2000) k' (snd (ikcp_send (ikcp_create 7) [1, 2, 3] 3))"
proof -
  let ?R = "{1000, 2000} \<union> {3000..<3200} :: nat set"
  have R: "?R - {1000, 2000} = {3000..<3200}" by auto
  obtain m where m: "ptr_create 7 1000 2000 block_pool = Inr (Some (kcp_layout 1000 2000, ikcp_create 7), m)"
    "represents {3000..<3200} m (kcp_layout 1000 2000) (ikcp_create 7) (ikcp_create 7)"
    using created_represents [of block_pool ?R 1000 2000 7] unfolding R by (auto simp: block_pool_def heads_def kcp_layout_def)
  have n: "3000 \<in> {3000..<3200 :: nat}" and news: "distinct [3000..<3128 :: nat]" "set [3000..<3128] \<subseteq> {3000..<3200 :: nat}"
    "unat IKCP_WND_RCV \<le> length [3000..<3128 :: nat]" by (auto simp: IKCP_WND_RCV_def)
  have "fst (ikcp_send (ikcp_create 7) [1, 2, 3] 3) = 3"
    by (simp add: ikcp_send_def send_extend_def ikcp_create_def IKCP_MTU_DEF_def IKCP_OVERHEAD_def numeral_eq_Suc)
  then show ?thesis
    using pointer_code_refines_lists [OF m(2) n news, of 0 0 0 "[1, 2, 3]" 3 0 0] m(1) by (elim conjE exE) fastforce
qed
end
