(* ===== verification/Kcp_Machine.thy ===== *)
theory Kcp_Machine
  imports Kcp_Pointers
begin

text \<open>
  The pointer code of \<^verbatim>\<open>ikcp.c\<close> put together: taking in a datagram, flushing and updating on the memory of
  \<^theory_text>\<open>Kcp_Memory\<close>, and a control block that serves any sequence of calls.  Whatever is called, the pointer code
  gives the same results as the operations on lists, and between the calls only the blocks of the control block
  are allocated.
\<close>

subsection \<open>The code\<close>

text \<open>The blocks the allocator will hand out are a list; when it is empty \<open>ikcp_malloc\<close> returns \<open>NULL\<close>.\<close>

definition ikcp_malloc :: "addr list \<Rightarrow> addr \<times> addr list" where
  "ikcp_malloc news = (case news of [] \<Rightarrow> (0, []) | n # rest \<Rightarrow> (n, rest))"

partial_function (option) fastack_run :: "addr \<Rightarrow> u32 \<Rightarrow> u32 \<Rightarrow> addr \<Rightarrow> memory \<Rightarrow> memory result option" where
  "fastack_run head sn ts p m =
     (if p = head then Some (Inr m)
      else (case seg_at m p of
          Inl e \<Rightarrow> Some (Inl e)
        | Inr seg \<Rightarrow>
            if itimediff sn (sg_sn seg) < 0 then Some (Inr m)
            else fastack_run head sn ts (m_next m p)
              (if sn \<noteq> sg_sn seg \<and> itimediff ts (sg_ts seg) \<ge> 0
               then m\<lparr>m_seg := (m_seg m)(p := seg\<lparr>sg_fastack := sg_fastack seg + 1\<rparr>)\<rparr> else m)))"

definition ptr_parse_fastack :: "kcp_at \<Rightarrow> u32 \<Rightarrow> u32 \<Rightarrow> memory \<Rightarrow> IKCPCB \<Rightarrow> memory result option" where
  "ptr_parse_fastack a sn ts m k =
     (if itimediff sn (kc_snd_una k) < 0 \<or> itimediff sn (kc_snd_nxt k) \<ge> 0 then Some (Inr m)
      else fastack_run (ka_snd_buf a) sn ts (m_next m (ka_snd_buf a)) m)"

definition ptr_shrink_buf :: "kcp_at \<Rightarrow> memory \<Rightarrow> IKCPCB \<Rightarrow> IKCPCB result" where
  "ptr_shrink_buf a m k =
     (let p = m_next m (ka_snd_buf a)
      in if p \<noteq> ka_snd_buf a then bind_result (seg_at m p) (\<lambda>seg. Inr (k\<lparr>kc_snd_una := sg_sn seg\<rparr>))
         else Inr (k\<lparr>kc_snd_una := kc_snd_nxt k\<rparr>))"

text \<open>The state the processing of a datagram changes: the addresses (a larger acknowledgement list), the
  blocks left, the memory and the control block.  The result of the second \<open>ikcp_malloc\<close> is not checked:
  \<open>NULL\<close> is written through.\<close>

type_synonym machine = "kcp_at \<times> addr list \<times> memory \<times> IKCPCB"

definition ptr_push :: "kcp_at \<Rightarrow> addr list \<Rightarrow> seg_header \<Rightarrow> byte list \<Rightarrow> memory \<Rightarrow> IKCPCB \<Rightarrow> machine result option" where
  "ptr_push a news h bytes m k =
     (if itimediff (h_sn h) (kc_rcv_nxt k + kc_rcv_wnd k) < 0
      then
        let (b, news1) = (if kc_ackcount k + 1 > kc_ackblock k then ikcp_malloc news else (0, news))
        in bind_run (Some (ptr_ack_push a b (h_sn h) (h_ts h) m k)) (\<lambda>(a1, m1, k1).
             if itimediff (h_sn h) (kc_rcv_nxt k1) \<ge> 0
             then let (n, news2) = ikcp_malloc news1
                  in if n = 0 then Some (Inl OutOfBounds)
                     else bind_run (ptr_parse_data a1 n (m1\<lparr>m_seg := (m_seg m1)(n := new_push h bytes)\<rparr>) k1)
                            (\<lambda>(m2, k2). Some (Inr (a1, news2, m2, k2)))
             else Some (Inr (a1, news1, m1, k1)))
      else Some (Inr (a, news, m, k)))"

definition ptr_segment :: "seg_header \<Rightarrow> byte list \<Rightarrow> machine \<times> ack_seen \<Rightarrow> (machine \<times> ack_seen) result option" where
  "ptr_segment h bytes st =
     (case st of ((a, news, m, k), acc) \<Rightarrow>
        bind_run (ptr_parse_una a (h_una h) m (k\<lparr>kc_rmt_wnd := ucast (h_wnd h)\<rparr>)) (\<lambda>(m1, k1).
        bind_run (Some (ptr_shrink_buf a m1 k1)) (\<lambda>k2.
          if ucast (h_cmd h) = IKCP_CMD_ACK
          then let rtt = itimediff (kc_current k2) (h_ts h);
                   k3 = (if rtt \<ge> 0 then ikcp_update_ack k2 rtt else k2)
               in bind_run (ptr_parse_ack a (h_sn h) m1 k3) (\<lambda>(m2, k4).
                  bind_run (Some (ptr_shrink_buf a m2 k4)) (\<lambda>k5.
                    Some (Inr ((a, news, m2, k5), note_ack (h_sn h) (h_ts h) acc))))
          else if ucast (h_cmd h) = IKCP_CMD_PUSH
          then bind_run (ptr_push a news h bytes m1 k2) (\<lambda>r. Some (Inr (r, acc)))
          else if ucast (h_cmd h) = IKCP_CMD_WASK
          then Some (Inr ((a, news, m1, k2\<lparr>kc_probe := kc_probe k2 OR IKCP_ASK_TELL\<rparr>), acc))
          else Some (Inr ((a, news, m1, k2), acc)))))"

function ptr_input_loop :: "byte list \<Rightarrow> machine \<times> ack_seen \<Rightarrow> (int \<times> machine \<times> ack_seen) result option" where
  "ptr_input_loop data st =
     (if int (length data) < sint IKCP_OVERHEAD then Some (Inr (0, st))
      else let (h, data1) = decode_header data
           in if h_conv h \<noteq> kc_conv (snd (snd (snd (fst st)))) then Some (Inr (-1, st))
              else if int (length data1) < sint (h_len h) \<or> sint (h_len h) < 0 then Some (Inr (-2, st))
              else if \<not> known_cmd (h_cmd h) then Some (Inr (-3, st))
              else bind_run (ptr_segment h (take (unat (h_len h)) data1) st)
                     (\<lambda>st'. ptr_input_loop (drop (unat (h_len h)) data1) st'))"
  by pat_completeness auto
termination
  by (relation "measure (\<lambda>(data, st). length data)")
    (auto simp: IKCP_OVERHEAD_def decode_header_def ikcp_decode8u_def ikcp_decode16u_def
      ikcp_decode32u_def Let_def)

declare ptr_input_loop.simps [simp del]

definition ptr_input :: "kcp_at \<Rightarrow> addr list \<Rightarrow> byte list \<Rightarrow> memory \<Rightarrow> IKCPCB \<Rightarrow> (int \<times> machine) result option" where
  "ptr_input a news data m k =
     (let prev_una = kc_snd_una k; k0 = k\<lparr>kc_ackedlen := 0\<rparr>
      in if int (length data) < sint IKCP_OVERHEAD then Some (Inr (-1, a, news, m, k0))
         else bind_run (ptr_input_loop data ((a, news, m, k0), (False, 0, 0)))
           (\<lambda>(ret, (a1, news1, m1, k1), (flag, maxack, latest_ts)).
             if ret \<noteq> 0 then Some (Inr (ret, a1, news1, m1, k1))
             else bind_run (if flag then ptr_parse_fastack a1 maxack latest_ts m1 k1 else Some (Inr m1)) (\<lambda>m2.
               Some (Inr (0, a1, news1, m2, if itimediff (kc_snd_una k1) prev_una > 0 then grow_cwnd k1 else k1)))))"

text \<open>\<open>ikcp_flush\<close>: the loop over the send buffer writes the segments in place.\<close>

partial_function (option) flush_loop :: "addr \<Rightarrow> u32 \<Rightarrow> addr \<Rightarrow> bool \<Rightarrow> bool \<Rightarrow> memory \<Rightarrow> IKCPCB \<Rightarrow> out_acc
    \<Rightarrow> (bool \<times> bool \<times> memory \<times> IKCPCB \<times> out_acc) result option" where
  "flush_loop head wnd p change lost m k acc =
     (if p = head then Some (Inr (change, lost, m, k, acc))
      else (case seg_at m p of
          Inl e \<Rightarrow> Some (Inl e)
        | Inr segment \<Rightarrow>
            let kind = transmit_kind k segment;
                seg1 = schedule k segment;
                k1 = (if kind = Timeout_Send then k\<lparr>kc_xmit := kc_xmit k + 1\<rparr> else k);
                seg2 = (if kind = No_Send then seg1 else stamp k wnd seg1);
                acc1 = (if kind = No_Send then acc else put_data k seg2 acc);
                k2 = (if kind \<noteq> No_Send \<and> sg_xmit seg2 \<ge> kc_dead_link k then k1\<lparr>kc_state := - 1\<rparr> else k1)
            in flush_loop head wnd (m_next m p) (change \<or> kind = Fast_Send) (lost \<or> kind = Timeout_Send)
                 (m\<lparr>m_seg := (m_seg m)(p := seg2)\<rparr>) k2 acc1))"

definition ptr_flush :: "kcp_at \<Rightarrow> memory \<Rightarrow> IKCPCB \<Rightarrow> (byte list list \<times> memory \<times> IKCPCB) result option" where
  "ptr_flush a m k =
     (if kc_updated k = 0 then Some (Inr ([], m, k))
      else
        let (seg, acc1) = flush_acks k [0..<nat (sint (kc_ackcount k))] (ack_segment k, ([], []));
            k1 = probe_timer (k\<lparr>kc_ackcount := 0\<rparr>);
            acc2 = flush_probes k1 seg acc1;
            k2 = k1\<lparr>kc_probe := 0\<rparr>
        in bind_run (send_loop a (send_window k2) (sg_wnd seg) m k2) (\<lambda>(m1, k3).
           bind_run (flush_loop (ka_snd_buf a) (sg_wnd seg) (m_next m1 (ka_snd_buf a)) False False m1 k3 acc2)
             (\<lambda>(change, lost, m2, k4, (outs, buf)).
               Some (Inr (ikcp_output buf outs, m2, flush_cwnd (kc_cwnd k) change lost k4)))))"

definition ptr_update :: "kcp_at \<Rightarrow> u32 \<Rightarrow> memory \<Rightarrow> IKCPCB \<Rightarrow> (byte list list \<times> memory \<times> IKCPCB) result option" where
  "ptr_update a current m k =
     (let (slap, k3) = update_clock k current
      in if slap \<ge> 0
         then let next = kc_ts_flush k3 + kc_interval k3
              in ptr_flush a m (k3\<lparr>kc_ts_flush :=
                   (if itimediff current next \<ge> 0 then current + kc_interval k3 else next)\<rparr>)
         else Some (Inr ([], m, k3)))"

subsection \<open>The queues in the list model\<close>

text \<open>The code that does not walk a queue neither reads nor writes the queues.\<close>

definition set_queues :: "IKCPSEG list \<Rightarrow> IKCPSEG list \<Rightarrow> IKCPSEG list \<Rightarrow> IKCPSEG list \<Rightarrow> IKCPCB \<Rightarrow> IKCPCB" where
  "set_queues A B C D k = k\<lparr>kc_snd_queue := A, kc_rcv_queue := B, kc_snd_buf := C, kc_rcv_buf := D\<rparr>"

lemma with_queues_set: "with_queues k m A B C D = set_queues (map (m_seg m) A) (map (m_seg m) B) (map (m_seg m) C) (map (m_seg m) D) k"
  by (simp add: with_queues_def set_queues_def)

lemma set_queues_sel [simp]:
  "kc_snd_queue (set_queues A B C D k) = A" "kc_rcv_queue (set_queues A B C D k) = B" "kc_snd_buf (set_queues A B C D k) = C"
  "kc_rcv_buf (set_queues A B C D k) = D" "kc_conv (set_queues A B C D k) = kc_conv k" "kc_mtu (set_queues A B C D k) = kc_mtu k"
  "kc_mss (set_queues A B C D k) = kc_mss k" "kc_state (set_queues A B C D k) = kc_state k" "kc_snd_una (set_queues A B C D k) = kc_snd_una k"
  "kc_snd_nxt (set_queues A B C D k) = kc_snd_nxt k" "kc_rcv_nxt (set_queues A B C D k) = kc_rcv_nxt k"
  "kc_ssthresh (set_queues A B C D k) = kc_ssthresh k" "kc_rx_rttval (set_queues A B C D k) = kc_rx_rttval k"
  "kc_rx_srtt (set_queues A B C D k) = kc_rx_srtt k" "kc_rx_rto (set_queues A B C D k) = kc_rx_rto k"
  "kc_rx_minrto (set_queues A B C D k) = kc_rx_minrto k" "kc_snd_wnd (set_queues A B C D k) = kc_snd_wnd k"
  "kc_rcv_wnd (set_queues A B C D k) = kc_rcv_wnd k" "kc_rmt_wnd (set_queues A B C D k) = kc_rmt_wnd k"
  "kc_cwnd (set_queues A B C D k) = kc_cwnd k" "kc_probe (set_queues A B C D k) = kc_probe k" "kc_current (set_queues A B C D k) = kc_current k"
  "kc_interval (set_queues A B C D k) = kc_interval k" "kc_ts_flush (set_queues A B C D k) = kc_ts_flush k"
  "kc_xmit (set_queues A B C D k) = kc_xmit k" "kc_nrcv_buf (set_queues A B C D k) = kc_nrcv_buf k"
  "kc_nsnd_buf (set_queues A B C D k) = kc_nsnd_buf k" "kc_nrcv_que (set_queues A B C D k) = kc_nrcv_que k"
  "kc_nsnd_que (set_queues A B C D k) = kc_nsnd_que k" "kc_nodelay (set_queues A B C D k) = kc_nodelay k"
  "kc_updated (set_queues A B C D k) = kc_updated k" "kc_ts_probe (set_queues A B C D k) = kc_ts_probe k"
  "kc_probe_wait (set_queues A B C D k) = kc_probe_wait k" "kc_dead_link (set_queues A B C D k) = kc_dead_link k"
  "kc_incr (set_queues A B C D k) = kc_incr k" "kc_ackedlen (set_queues A B C D k) = kc_ackedlen k" "kc_acklist (set_queues A B C D k) = kc_acklist k"
  "kc_ackcount (set_queues A B C D k) = kc_ackcount k" "kc_ackblock (set_queues A B C D k) = kc_ackblock k"
  "kc_fastresend (set_queues A B C D k) = kc_fastresend k" "kc_fastlimit (set_queues A B C D k) = kc_fastlimit k"
  "kc_nocwnd (set_queues A B C D k) = kc_nocwnd k" "kc_stream (set_queues A B C D k) = kc_stream k"
  by (simp_all add: set_queues_def)

lemma transmit_queues [simp]:
  "transmit_kind (set_queues A B C D k) s = transmit_kind k s" "schedule (set_queues A B C D k) s = schedule k s"
  "stamp (set_queues A B C D k) w s = stamp k w s" "put_data (set_queues A B C D k) s acc = put_data k s acc"
  "put_control (set_queues A B C D k) s acc = put_control k s acc"
proof -
  show tk: "transmit_kind (set_queues A B C D k) s = transmit_kind k s"
    by (simp only: transmit_kind_def resent_limit_def set_queues_sel)
  show "schedule (set_queues A B C D k) s = schedule k s"
    by (simp only: schedule_def tk set_queues_sel rto_min_def backoff_rto_def)
  show "stamp (set_queues A B C D k) w s = stamp k w s" "put_data (set_queues A B C D k) s acc = put_data k s acc"
    "put_control (set_queues A B C D k) s acc = put_control k s acc"
    by (simp_all only: stamp_def put_data_def put_control_def make_room_def set_queues_sel)
qed

lemma set_queues_upd:
  "(set_queues A B C D k)\<lparr>kc_xmit := v\<rparr> = set_queues A B C D (k\<lparr>kc_xmit := v\<rparr>)"
  "(set_queues A B C D k)\<lparr>kc_state := u\<rparr> = set_queues A B C D (k\<lparr>kc_state := u\<rparr>)"
  "(set_queues A B C D k)\<lparr>kc_ackcount := w\<rparr> = set_queues A B C D (k\<lparr>kc_ackcount := w\<rparr>)"
  "(set_queues A B C D k)\<lparr>kc_probe := w\<rparr> = set_queues A B C D (k\<lparr>kc_probe := w\<rparr>)"
  "(set_queues A B C D k)\<lparr>kc_ts_flush := w\<rparr> = set_queues A B C D (k\<lparr>kc_ts_flush := w\<rparr>)"
  "(set_queues A B C D k)\<lparr>kc_rmt_wnd := w\<rparr> = set_queues A B C D (k\<lparr>kc_rmt_wnd := w\<rparr>)"
  "(set_queues A B C D k)\<lparr>kc_snd_una := w\<rparr> = set_queues A B C D (k\<lparr>kc_snd_una := w\<rparr>)"
  "(set_queues A B C D k)\<lparr>kc_ackedlen := w\<rparr> = set_queues A B C D (k\<lparr>kc_ackedlen := w\<rparr>)"
  "(set_queues A B C D k)\<lparr>kc_snd_buf := C'\<rparr> = set_queues A B C' D k"
  by (simp_all add: set_queues_def)

lemma flush_data_queues:
  "flush_data wnd segs (ch, lo, set_queues A B C D k, acc)
   = (case flush_data wnd segs (ch, lo, k, acc) of (segs', ch', lo', k', acc') \<Rightarrow> (segs', ch', lo', set_queues A B C D k', acc'))"
proof (induction segs arbitrary: ch lo k acc)
  case (Cons s segs)
  have k: "(if P then set_queues A B C D x else set_queues A B C D y) = set_queues A B C D (if P then x else y)" for P x y by simp
  show ?case unfolding flush_data.simps Let_def transmit_queues set_queues_sel set_queues_upd k Cons.IH by (simp split: prod.splits)
qed simp

lemma flush_parts_queues:
  "flush_acks (set_queues A B C D k) is (seg, acc) = flush_acks k is (seg, acc)"
  "ack_segment (set_queues A B C D k) = ack_segment k"
  "probe_timer (set_queues A B C D k) = set_queues A B C D (probe_timer k)"
  "flush_probes (set_queues A B C D k) seg acc = flush_probes k seg acc"
  "send_window (set_queues A B C D k) = send_window k"
  "flush_cwnd c ch lo (set_queues A B C D k) = set_queues A B C D (flush_cwnd c ch lo k)"
  "update_clock (set_queues A B C D k) current = map_prod id (set_queues A B C D) (update_clock k current)"
proof -
  show "flush_acks (set_queues A B C D k) is (seg, acc) = flush_acks k is (seg, acc)"
    by (induction "is" arbitrary: seg acc) (simp_all add: ikcp_ack_get_def split: prod.splits)
  show "ack_segment (set_queues A B C D k) = ack_segment k" "send_window (set_queues A B C D k) = send_window k"
    "flush_probes (set_queues A B C D k) seg acc = flush_probes k seg acc"
    by (simp_all only: ack_segment_def ikcp_wnd_unused_def send_window_def flush_probes_def set_queues_sel transmit_queues)
  show "probe_timer (set_queues A B C D k) = set_queues A B C D (probe_timer k)"
    by (simp add: probe_timer_def set_queues_def Let_def)
  show "flush_cwnd c ch lo (set_queues A B C D k) = set_queues A B C D (flush_cwnd c ch lo k)"
    by (simp add: flush_cwnd_def after_change_def after_loss_def resent_limit_def set_queues_def Let_def)
  show "update_clock (set_queues A B C D k) current = map_prod id (set_queues A B C D) (update_clock k current)"
    by (simp add: update_clock_def set_queues_def Let_def)
qed

subsection \<open>Loops that write the send buffer in place\<close>

lemma fastack_run_spec:
  assumes "queue_at m head (xs @ ns)" and "\<forall>n\<in>set ns. m_live m n"
  shows "\<exists>f. fastack_run head sn ts (hd (ns @ [head])) m = Some (Inr (m\<lparr>m_seg := f\<rparr>))
    \<and> fastack_loop sn ts (map (m_seg m) ns) = map f ns \<and> (\<forall>x. x \<notin> set ns \<longrightarrow> f x = m_seg m x)"
  using assms
proof (induction ns arbitrary: m xs)
  case Nil
  then show ?case by (subst fastack_run.simps) (simp add: exI [of _ "m_seg m"])
next
  case (Cons n ns)
  have q: "queue_at m head (xs @ n # ns)" "queue_at m head ((xs @ [n]) @ ns)" and l: "m_live m n" "\<forall>x\<in>set ns. m_live m x"
    and n: "n \<noteq> head" "n \<notin> set ns" using Cons.prems by (auto simp: queue_at_def)
  let ?s = "m_seg m n"
  let ?s' = "if sn \<noteq> sg_sn ?s \<and> itimediff ts (sg_ts ?s) \<ge> 0 then ?s\<lparr>sg_fastack := sg_fastack ?s + 1\<rparr> else ?s"
  note step = fastack_run.simps [of head sn ts n m]
  show ?case
  proof (cases "itimediff sn (sg_sn ?s) < 0")
    case True
    then have "fastack_run head sn ts n m = Some (Inr (m\<lparr>m_seg := m_seg m\<rparr>))" using n l unfolding step by (simp add: seg_at_live)
    then show ?thesis using True by (intro exI [of _ "m_seg m"]) simp
  next
    case False
    let ?m = "m\<lparr>m_seg := (m_seg m)(n := ?s')\<rparr>"
    have "queue_at ?m head ((xs @ [n]) @ ns)" "\<forall>x\<in>set ns. m_live ?m x" using q(2) l(2) by simp_all
    then obtain f where f: "fastack_run head sn ts (hd (ns @ [head])) ?m = Some (Inr (?m\<lparr>m_seg := f\<rparr>))"
      "fastack_loop sn ts (map (m_seg ?m) ns) = map f ns" "\<forall>x. x \<notin> set ns \<longrightarrow> f x = m_seg ?m x"
      using Cons.IH by blast
    have "(if sn \<noteq> sg_sn ?s \<and> itimediff ts (sg_ts ?s) \<ge> 0 then ?m else m) = ?m" by auto
    then have "fastack_run head sn ts n m = fastack_run head sn ts (hd (ns @ [head])) ?m"
      using n l False queue_next [OF q(1)] unfolding step by (auto simp: seg_at_live)
    moreover have "map (m_seg ?m) ns = map (m_seg m) ns" using n by auto
    ultimately show ?thesis using f n False by (intro exI [of _ f]) auto
  qed
qed

lemma flush_loop_spec:
  assumes "queue_at m head (xs @ ns)" and "\<forall>n\<in>set ns. m_live m n"
  shows "\<exists>f ch' lo' k' acc'. flush_loop head wnd (hd (ns @ [head])) ch lo m k acc = Some (Inr (ch', lo', m\<lparr>m_seg := f\<rparr>, k', acc'))
    \<and> flush_data wnd (map (m_seg m) ns) (ch, lo, k, acc) = (map f ns, ch', lo', k', acc') \<and> (\<forall>x. x \<notin> set ns \<longrightarrow> f x = m_seg m x)"
  using assms
proof (induction ns arbitrary: m xs ch lo k acc)
  case Nil
  then show ?case by (subst flush_loop.simps) (simp add: exI [of _ "m_seg m"])
next
  case (Cons n ns)
  have q: "queue_at m head (xs @ n # ns)" "queue_at m head ((xs @ [n]) @ ns)" and l: "m_live m n" "\<forall>x\<in>set ns. m_live m x"
    and n: "n \<noteq> head" "n \<notin> set ns" using Cons.prems by (auto simp: queue_at_def)
  let ?s = "m_seg m n"
  let ?kind = "transmit_kind k ?s"
  let ?k1 = "if ?kind = Timeout_Send then k\<lparr>kc_xmit := kc_xmit k + 1\<rparr> else k"
  let ?s2 = "if ?kind = No_Send then schedule k ?s else stamp k wnd (schedule k ?s)"
  let ?acc1 = "if ?kind = No_Send then acc else put_data k ?s2 acc"
  let ?k2 = "if ?kind \<noteq> No_Send \<and> sg_xmit ?s2 \<ge> kc_dead_link k then ?k1\<lparr>kc_state := - 1\<rparr> else ?k1"
  let ?m = "m\<lparr>m_seg := (m_seg m)(n := ?s2)\<rparr>"
  have "queue_at ?m head ((xs @ [n]) @ ns)" "\<forall>x\<in>set ns. m_live ?m x" using q(2) l(2) by simp_all
  then obtain f ch' lo' k' acc' where f:
    "flush_loop head wnd (hd (ns @ [head])) (ch \<or> ?kind = Fast_Send) (lo \<or> ?kind = Timeout_Send) ?m ?k2 ?acc1
      = Some (Inr (ch', lo', ?m\<lparr>m_seg := f\<rparr>, k', acc'))"
    "flush_data wnd (map (m_seg ?m) ns) (ch \<or> ?kind = Fast_Send, lo \<or> ?kind = Timeout_Send, ?k2, ?acc1) = (map f ns, ch', lo', k', acc')"
    "\<forall>x. x \<notin> set ns \<longrightarrow> f x = m_seg ?m x"
    using Cons.IH by blast
  have "flush_loop head wnd n ch lo m k acc
      = flush_loop head wnd (hd (ns @ [head])) (ch \<or> ?kind = Fast_Send) (lo \<or> ?kind = Timeout_Send) ?m ?k2 ?acc1"
    unfolding flush_loop.simps [of head wnd n] if_not_P [OF n(1)] seg_at_live [OF l(1)] sum.case Let_def queue_next [OF q(1)] by (rule refl)
  then have run: "flush_loop head wnd (hd ((n # ns) @ [head])) ch lo m k acc = Some (Inr (ch', lo', m\<lparr>m_seg := f\<rparr>, k', acc'))"
    using f(1) by simp
  have m: "map (m_seg ?m) ns = map (m_seg m) ns" using n by auto
  have fn: "f n = ?s2" using f(3) n(2) by simp
  have "flush_data wnd (map (m_seg m) (n # ns)) (ch, lo, k, acc) = (map f (n # ns), ch', lo', k', acc')"
    unfolding list.map flush_data.simps Let_def f(2) [unfolded m] prod.case fn by (rule refl)
  with run show ?case using f(3) by (intro exI [of _ f] exI [of _ ch'] exI [of _ lo'] exI [of _ k'] exI [of _ acc']) auto
qed

text \<open>New contents for the segments of the send buffer.\<close>

lemma represents_snd_buf:
  assumes l: "laid_out R m a A B C D" and f: "\<forall>x. x \<notin> set C \<longrightarrow> f x = m_seg m x"
  shows "laid_out R (m\<lparr>m_seg := f\<rparr>) a A B C D"
    and "with_queues k (m\<lparr>m_seg := f\<rparr>) A B C D = set_queues (map (m_seg m) A) (map (m_seg m) B) (map f C) (map (m_seg m) D) k"
proof -
  have seg: "m_seg (m\<lparr>m_seg := f\<rparr>) = f" by simp
  have "set C \<inter> set (A @ B @ D) = {}" using l by (auto simp: laid_out_def)
  then have "map f A = map (m_seg m) A" "map f B = map (m_seg m) B" "map f D = map (m_seg m) D" using f by auto
  then show "with_queues k (m\<lparr>m_seg := f\<rparr>) A B C D = set_queues (map (m_seg m) A) (map (m_seg m) B) (map f C) (map (m_seg m) D) k"
    unfolding with_queues_set seg by (simp only:)
  show "laid_out R (m\<lparr>m_seg := f\<rparr>) a A B C D" using l by simp
qed

lemma snd_buf_queue:
  assumes "laid_out R m a A B C D"
  shows "queue_at m (ka_snd_buf a) ([] @ C)" "\<forall>n\<in>set C. m_live m n" "m_next m (ka_snd_buf a) = hd (C @ [ka_snd_buf a])"
proof -
  show q: "queue_at m (ka_snd_buf a) ([] @ C)" and "\<forall>n\<in>set C. m_live m n" using assms laid_out_live [OF assms] by (auto simp: laid_out_def)
  show "m_next m (ka_snd_buf a) = hd (C @ [ka_snd_buf a])" using queue_first [OF q] by simp
qed

lemma parse_fastack_represents:
  assumes "represents R m a k K"
  shows "\<exists>m'. ptr_parse_fastack a sn ts m k = Some (Inr m') \<and> represents R m' a k (ikcp_parse_fastack K sn ts)"
proof -
  obtain A B C D where l: "laid_out R m a A B C D" and K: "K = with_queues k m A B C D" using assms by (auto simp: represents_def)
  have una: "kc_snd_una K = kc_snd_una k" "kc_snd_nxt K = kc_snd_nxt k" "kc_snd_buf K = map (m_seg m) C" by (simp_all add: K with_queues_set)
  show ?thesis
  proof (cases "itimediff sn (kc_snd_una k) < 0 \<or> itimediff sn (kc_snd_nxt k) \<ge> 0")
    case True
    then have "ptr_parse_fastack a sn ts m k = Some (Inr m)" "ikcp_parse_fastack K sn ts = K"
      by (simp_all only: ptr_parse_fastack_def ikcp_parse_fastack_def una if_True)
    with assms show ?thesis by simp
  next
    case False
    obtain f where f: "fastack_run (ka_snd_buf a) sn ts (m_next m (ka_snd_buf a)) m = Some (Inr (m\<lparr>m_seg := f\<rparr>))"
      "fastack_loop sn ts (map (m_seg m) C) = map f C" "\<forall>x. x \<notin> set C \<longrightarrow> f x = m_seg m x"
      using fastack_run_spec [OF snd_buf_queue(1,2) [OF l]] unfolding snd_buf_queue(3) [OF l] by blast
    have "ikcp_parse_fastack K sn ts = K\<lparr>kc_snd_buf := map f C\<rparr>"
      unfolding ikcp_parse_fastack_def una if_not_P [OF False] f(2) by (rule refl)
    also have "\<dots> = with_queues k (m\<lparr>m_seg := f\<rparr>) A B C D"
      unfolding represents_snd_buf(2) [OF l f(3)] unfolding K with_queues_set set_queues_upd by (rule refl)
    finally have "represents R (m\<lparr>m_seg := f\<rparr>) a k (ikcp_parse_fastack K sn ts)" by (rule representsI [OF represents_snd_buf(1) [OF l f(3)]])
    moreover have "ptr_parse_fastack a sn ts m k = Some (Inr (m\<lparr>m_seg := f\<rparr>))"
      unfolding ptr_parse_fastack_def if_not_P [OF False] f(1) by (rule refl)
    ultimately show ?thesis by blast
  qed
qed

lemma shrink_represents:
  assumes "represents R m a k K"
  shows "\<exists>k'. ptr_shrink_buf a m k = Inr k' \<and> represents R m a k' (ikcp_shrink_buf K)"
proof -
  obtain A B C D where l: "laid_out R m a A B C D" and K: "K = with_queues k m A B C D" using assms by (auto simp: represents_def)
  let ?v = "case C of [] \<Rightarrow> kc_snd_nxt k | n # _ \<Rightarrow> sg_sn (m_seg m n)"
  have "ptr_shrink_buf a m k = Inr (k\<lparr>kc_snd_una := ?v\<rparr>)"
    using snd_buf_queue [OF l] by (cases C) (auto simp: ptr_shrink_buf_def queue_at_def seg_at_live)
  moreover have "ikcp_shrink_buf K = with_queues (k\<lparr>kc_snd_una := ?v\<rparr>) m A B C D"
    by (cases C) (simp_all add: K ikcp_shrink_buf_def with_queues_set set_queues_upd)
  ultimately show ?thesis using representsI [OF l] by blast
qed

subsection \<open>Flushing\<close>

lemma flush_represents:
  assumes "represents R m a k K"
  shows "\<exists>m' k'. ptr_flush a m k = Some (Inr (fst (ikcp_flush K), m', k')) \<and> represents R m' a k' (snd (ikcp_flush K))"
proof -
  obtain A B C D where l: "laid_out R m a A B C D" and "K = with_queues k m A B C D" using assms by (auto simp: represents_def)
  define Q where "Q = set_queues (map (m_seg m) A) (map (m_seg m) B) (map (m_seg m) C) (map (m_seg m) D)"
  then have K: "K = Q k" by (simp add: \<open>K = with_queues k m A B C D\<close> with_queues_set)
  note qp = flush_parts_queues [where A = "map (m_seg m) A" and B = "map (m_seg m) B" and C = "map (m_seg m) C" and D = "map (m_seg m) D", folded Q_def]
    and qs = set_queues_sel [where A = "map (m_seg m) A" and B = "map (m_seg m) B" and C = "map (m_seg m) C" and D = "map (m_seg m) D", folded Q_def]
    and qu = set_queues_upd [where A = "map (m_seg m) A" and B = "map (m_seg m) B" and C = "map (m_seg m) C" and D = "map (m_seg m) D", folded Q_def]
  show ?thesis
  proof (cases "kc_updated k = 0")
    case True
    then have "ptr_flush a m k = Some (Inr ([], m, k))" "ikcp_flush K = ([], K)" by (simp_all add: ptr_flush_def ikcp_flush_def K qs)
    with assms show ?thesis by simp
  next
    case False
    obtain seg acc1 where s: "flush_acks k [0..<nat (sint (kc_ackcount k))] (ack_segment k, ([], [])) = (seg, acc1)" by (rule prod.exhaust)
    let ?k1 = "probe_timer (k\<lparr>kc_ackcount := 0\<rparr>)"
    let ?acc2 = "flush_probes ?k1 seg acc1" and ?k2 = "?k1\<lparr>kc_probe := 0\<rparr>"
    have "represents R m a ?k2 (Q ?k2)" by (rule representsI [OF l]) (simp add: Q_def with_queues_set)
    then obtain m1 k3 where m1: "send_loop a (send_window ?k2) (sg_wnd seg) m ?k2 = Some (Inr (m1, k3))"
      "represents R m1 a k3 (move_snd_queue (send_window ?k2) (sg_wnd seg) (Q ?k2))"
      using send_loop_represents by blast
    then obtain A1 B1 C1 D1 where l1: "laid_out R m1 a A1 B1 C1 D1"
      and mv: "move_snd_queue (send_window ?k2) (sg_wnd seg) (Q ?k2) = with_queues k3 m1 A1 B1 C1 D1"
      by (auto simp: represents_def)
    obtain f ch lo k4 outs buf where f: "flush_loop (ka_snd_buf a) (sg_wnd seg) (m_next m1 (ka_snd_buf a)) False False m1 k3 ?acc2
        = Some (Inr (ch, lo, m1\<lparr>m_seg := f\<rparr>, k4, (outs, buf)))"
      "flush_data (sg_wnd seg) (map (m_seg m1) C1) (False, False, k3, ?acc2) = (map f C1, ch, lo, k4, (outs, buf))"
      "\<forall>x. x \<notin> set C1 \<longrightarrow> f x = m_seg m1 x"
      using flush_loop_spec [OF snd_buf_queue(1,2) [OF l1]] unfolding snd_buf_queue(3) [OF l1] by (metis prod.collapse)
    let ?k5 = "flush_cwnd (kc_cwnd k) ch lo k4"
    have "ptr_flush a m k = Some (Inr (ikcp_output buf outs, m1\<lparr>m_seg := f\<rparr>, ?k5))"
      unfolding ptr_flush_def if_not_P [OF False] s Let_def prod.case m1(1) bind_run_simps f(1) by (rule refl)
    moreover have "ikcp_flush K = (ikcp_output buf outs, with_queues ?k5 (m1\<lparr>m_seg := f\<rparr>) A1 B1 C1 D1)"
    proof -
      have fd: "flush_data (sg_wnd seg) (kc_snd_buf (with_queues k3 m1 A1 B1 C1 D1)) (False, False, with_queues k3 m1 A1 B1 C1 D1, ?acc2)
          = (map f C1, ch, lo, with_queues k4 m1 A1 B1 C1 D1, (outs, buf))"
        unfolding with_queues_set set_queues_sel flush_data_queues f(2) prod.case by (rule refl)
      show ?thesis
        unfolding represents_snd_buf(2) [OF l1 f(3)] ikcp_flush_def K qs if_not_P [OF False] qp qu s Let_def prod.case mv fd
        unfolding with_queues_set set_queues_upd flush_parts_queues by (rule refl)
    qed
    ultimately show ?thesis using representsI [OF represents_snd_buf(1) [OF l1 f(3)]] by simp
  qed
qed

lemma update_represents:
  assumes "represents R m a k K"
  shows "\<exists>m' k'. ptr_update a current m k = Some (Inr (fst (ikcp_update K current), m', k')) \<and> represents R m' a k' (snd (ikcp_update K current))"
proof -
  obtain A B C D where l: "laid_out R m a A B C D" and K: "K = with_queues k m A B C D" using assms by (auto simp: represents_def)
  obtain slap k3 where u: "update_clock k current = (slap, k3)" by (rule prod.exhaust)
  then have uK: "update_clock K current = (slap, with_queues k3 m A B C D)" by (simp add: K with_queues_set flush_parts_queues)
  have r: "represents R m a x (with_queues x m A B C D)" for x by (rule representsI [OF l refl])
  show ?thesis
  proof (cases "slap \<ge> 0")
    case True
    let ?t = "if itimediff current (kc_ts_flush k3 + kc_interval k3) \<ge> 0 then current + kc_interval k3 else kc_ts_flush k3 + kc_interval k3"
    have "ptr_update a current m k = ptr_flush a m (k3\<lparr>kc_ts_flush := ?t\<rparr>)" using True by (simp add: ptr_update_def u Let_def)
    moreover have "ikcp_update K current = ikcp_flush (with_queues (k3\<lparr>kc_ts_flush := ?t\<rparr>) m A B C D)"
      using True by (simp add: ikcp_update_def uK Let_def) (simp add: with_queues_set set_queues_upd)
    ultimately show ?thesis using flush_represents [OF r] by simp
  next
    case False
    then show ?thesis using r by (simp add: ptr_update_def ikcp_update_def u uK)
  qed
qed

subsection \<open>Taking in a datagram\<close>

lemma represents_map:
  assumes "represents R m a k K" and "\<And>A B C D k. h (set_queues A B C D k) = set_queues A B C D (h k)"
  shows "represents R m a (h k) (h K)"
proof -
  obtain A B C D where l: "laid_out R m a A B C D" and K: "K = with_queues k m A B C D" using assms(1) by (auto simp: represents_def)
  show ?thesis by (rule representsI [OF l]) (simp add: K with_queues_set assms(2))
qed

lemma represents_scalars: "represents R m a k K \<Longrightarrow> \<exists>A B C D. K = set_queues A B C D k"
  by (auto simp: represents_def with_queues_set)

lemma input_parts_queues:
  "ikcp_update_ack (set_queues A B C D k) rtt = set_queues A B C D (ikcp_update_ack k rtt)"
  "grow_cwnd (set_queues A B C D k) = set_queues A B C D (grow_cwnd k)"
proof -
  show "grow_cwnd (set_queues A B C D k) = set_queues A B C D (grow_cwnd k)"
    by (simp add: grow_cwnd_def Let_def) (simp add: set_queues_def)
  show "ikcp_update_ack (set_queues A B C D k) rtt = set_queues A B C D (ikcp_update_ack k rtt)"
    by (simp add: ikcp_update_ack_def Let_def) (simp add: set_queues_def)
qed

text \<open>Writing a segment that is in no queue.\<close>

lemma represents_fill:
  assumes "represents R m a k K" and "n \<in> R"
  shows "represents R (m\<lparr>m_seg := (m_seg m)(n := s)\<rparr>) a k K"
proof -
  obtain A B C D where l: "laid_out R m a A B C D" and K: "K = with_queues k m A B C D" using assms by (auto simp: represents_def)
  have "n \<notin> set (A @ B @ C @ D)" using laid_out_fresh [OF l assms(2)] by auto
  then have "with_queues k (m\<lparr>m_seg := (m_seg m)(n := s)\<rparr>) A B C D = K"
    unfolding K with_queues_def by (intro IKCPCB.equality) (auto simp: map_eq_conv)
  moreover have "laid_out R (m\<lparr>m_seg := (m_seg m)(n := s)\<rparr>) a A B C D" using l by simp
  ultimately show ?thesis using representsI by metis
qed

text \<open>A machine: the control block, and the blocks the allocator is about to hand out.\<close>

definition machine_ok :: "addr set \<Rightarrow> machine \<Rightarrow> IKCPCB \<Rightarrow> bool" where
  "machine_ok R st K \<longleftrightarrow> (case st of (a, news, m, k) \<Rightarrow>
     represents (R \<union> set news) m a k K \<and> distinct news \<and> R \<inter> set news = {} \<and> ka_self a \<noteq> 0)"

lemma machine_okI: "represents (R \<union> set news) m a k K \<Longrightarrow> ka_self a \<noteq> 0 \<Longrightarrow> distinct news \<Longrightarrow> R \<inter> set news = {} \<Longrightarrow> machine_ok R (a, news, m, k) K"
  by (simp add: machine_ok_def)

lemma represents_nonzero: "represents R m a k K \<Longrightarrow> 0 \<notin> R"
  by (auto simp: represents_def laid_out_def)

lemma malloc_ok:
  assumes "machine_ok R (a, n # rest, m, k) K"
  shows "n \<in> R \<union> set (n # rest)" "n \<noteq> 0" "R \<union> set (n # rest) - {n} = R \<union> set rest"
    and "represents (R \<union> set rest) m' a' k' K' \<Longrightarrow> ka_self a' \<noteq> 0 \<Longrightarrow> machine_ok R (a', rest, m', k') K'"
proof -
  have "0 \<notin> R \<union> set (n # rest)" using assms represents_nonzero by (simp only: machine_ok_def prod.case) blast
  then show "n \<noteq> 0" by auto
  show "R \<union> set (n # rest) - {n} = R \<union> set rest" using assms by (auto simp: machine_ok_def)
  show "represents (R \<union> set rest) m' a' k' K' \<Longrightarrow> ka_self a' \<noteq> 0 \<Longrightarrow> machine_ok R (a', rest, m', k') K'"
    using assms by (auto simp: machine_ok_def)
qed simp

lemma push_ok:
  assumes ok: "machine_ok R (a, news, m, k) K" and enough: "2 \<le> length news"
  shows "\<exists>used a' m' k'. ptr_push a news h bytes m k = Some (Inr (a', drop used news, m', k')) \<and> used \<le> 2
    \<and> machine_ok R (a', drop used news, m', k') (input_push K h bytes)"
proof -
  have rep: "represents (R \<union> set news) m a k K" using ok by (simp add: machine_ok_def)
  obtain A B C D where K: "K = set_queues A B C D k" using represents_scalars [OF rep] by blast
  obtain b rest where news: "news = b # rest" "rest \<noteq> []" using enough by (cases news) (auto simp: Suc_le_eq)
  note b = malloc_ok [OF ok [unfolded news(1)]]
  show ?thesis
  proof (cases "itimediff (h_sn h) (kc_rcv_nxt k + kc_rcv_wnd k) < 0")
    case False
    then have "ptr_push a news h bytes m k = Some (Inr (a, drop 0 news, m, k))" "input_push K h bytes = K"
      by (simp_all add: ptr_push_def input_push_def K)
    with ok show ?thesis by (intro exI [of _ 0]) auto
  next
    case True
    let ?full = "kc_ackcount k + 1 > kc_ackblock k"
    let ?b = "if ?full then b else 0" and ?u = "if ?full then 1 else 0 :: nat"
    have malloc: "(if ?full then ikcp_malloc news else (0, news)) = (?b, drop ?u news)" by (simp add: ikcp_malloc_def news(1))
    obtain a1 m1 k1 where a: "ptr_ack_push a b (h_sn h) (h_ts h) m k = Inr (a1, m1, k1)"
      "represents (if ?full then R \<union> set news - {b} else R \<union> set news) m1 a1 k1 (ikcp_ack_push K (h_sn h) (h_ts h))"
      using ack_push_represents [OF rep b(1) [folded news(1)], of "h_sn h" "h_ts h"] by (auto simp: K)
    have "ptr_ack_push a ?b (h_sn h) (h_ts h) m k = ptr_ack_push a b (h_sn h) (h_ts h) m k" by (simp add: ptr_ack_push_def)
    then have push: "ptr_ack_push a ?b (h_sn h) (h_ts h) m k = Inr (a1, m1, k1)" using a(1) by simp
    have rep1: "represents (R \<union> set (drop ?u news)) m1 a1 k1 (ikcp_ack_push K (h_sn h) (h_ts h))"
      using a(2) b(3) by (simp add: news(1) split: if_splits)
    have "ka_self a1 = ka_self a" using push by (auto simp: ptr_ack_push_def bind_result_Inr_iff split: if_splits)
    with rep1 have ok1: "machine_ok R (a1, drop ?u news, m1, k1) (ikcp_ack_push K (h_sn h) (h_ts h))"
      using ok by (intro machine_okI) (auto simp: machine_ok_def news(1))
    have nxt: "kc_rcv_nxt (ikcp_ack_push K (h_sn h) (h_ts h)) = kc_rcv_nxt k1"
      using represents_scalars [OF rep1] by auto
    have P: "ptr_push a news h bytes m k = (if itimediff (h_sn h) (kc_rcv_nxt k1) \<ge> 0
             then let (n, news2) = ikcp_malloc (drop ?u news)
                  in if n = 0 then Some (Inl OutOfBounds)
                     else bind_run (ptr_parse_data a1 n (m1\<lparr>m_seg := (m_seg m1)(n := new_push h bytes)\<rparr>) k1)
                            (\<lambda>(m2, k2). Some (Inr (a1, news2, m2, k2)))
             else Some (Inr (a1, drop ?u news, m1, k1)))"
      unfolding ptr_push_def if_P [OF True] malloc Let_def prod.case push bind_run_simps by (rule refl)
    have I: "input_push K h bytes = (if itimediff (h_sn h) (kc_rcv_nxt k1) \<ge> 0
        then ikcp_parse_data (ikcp_ack_push K (h_sn h) (h_ts h)) (new_push h bytes) else ikcp_ack_push K (h_sn h) (h_ts h))"
      using True by (simp add: input_push_def K [symmetric] nxt Let_def) (simp add: K)
    show ?thesis
    proof (cases "itimediff (h_sn h) (kc_rcv_nxt k1) \<ge> 0")
      case False
      then show ?thesis unfolding P I if_not_P [OF False] using ok1 by (intro exI [of _ ?u]) auto
    next
      case True
      obtain n news2 where n: "drop ?u news = n # news2" using enough by (cases "drop ?u news") (auto split: if_splits)
      note mn = malloc_ok [OF ok1 [unfolded n]]
      let ?m = "m1\<lparr>m_seg := (m_seg m1)(n := new_push h bytes)\<rparr>"
      have filled: "represents (R \<union> set (n # news2)) ?m a1 k1 (ikcp_ack_push K (h_sn h) (h_ts h))"
        by (rule represents_fill [OF rep1 [unfolded n] mn(1)])
      have sn: "m_seg ?m n = new_push h bytes" by simp
      obtain m2 k2 where m2: "ptr_parse_data a1 n ?m k1 = Some (Inr (m2, k2))"
        "represents (R \<union> set news2) m2 a1 k2 (ikcp_parse_data (ikcp_ack_push K (h_sn h) (h_ts h)) (new_push h bytes))"
        using parse_data_represents [OF filled mn(1)] unfolding mn(3) sn by blast
      have "ptr_push a news h bytes m k = Some (Inr (a1, news2, m2, k2))"
        unfolding P if_P [OF True] using mn(2) by (simp add: n ikcp_malloc_def m2(1))
      moreover have "machine_ok R (a1, news2, m2, k2) (input_push K h bytes)" unfolding I if_P [OF True] by (rule mn(4) [OF m2(2)]) (use ok1 in \<open>simp add: machine_ok_def\<close>)
      moreover have "news2 = drop (Suc ?u) news" using n by (metis drop_Suc list.sel(3) tl_drop)
      ultimately show ?thesis by (intro exI [of _ "Suc ?u"]) auto
    qed
  qed
qed

lemma segment_ok:
  assumes ok: "machine_ok R (a, news, m, k) K" and enough: "2 \<le> length news"
  shows "\<exists>used a' m' k'. ptr_segment h bytes ((a, news, m, k), acc)
      = Some (Inr ((a', drop used news, m', k'), snd (input_segment h bytes (K, acc)))) \<and> used \<le> 2
    \<and> machine_ok R (a', drop used news, m', k') (fst (input_segment h bytes (K, acc)))"
proof -
  have rep: "represents (R \<union> set news) m a k K" and dis: "ka_self a \<noteq> 0" "distinct news" "R \<inter> set news = {}" using ok by (simp_all add: machine_ok_def)
  note okI = machine_okI [OF _ dis]
  let ?k0 = "k\<lparr>kc_rmt_wnd := ucast (h_wnd h)\<rparr>" and ?K0 = "K\<lparr>kc_rmt_wnd := ucast (h_wnd h)\<rparr>"
  have "represents (R \<union> set news) m a ?k0 ?K0"
    by (rule represents_map [OF rep, where h = "\<lambda>k. k\<lparr>kc_rmt_wnd := ucast (h_wnd h)\<rparr>"]) (rule set_queues_upd)
  then obtain m1 k1 where u: "ptr_parse_una a (h_una h) m ?k0 = Some (Inr (m1, k1))"
    "represents (R \<union> set news) m1 a k1 (ikcp_parse_una ?K0 (h_una h))" using parse_una_represents by blast
  let ?K2 = "ikcp_shrink_buf (ikcp_parse_una ?K0 (h_una h))"
  obtain k2 where s: "ptr_shrink_buf a m1 k1 = Inr k2" "represents (R \<union> set news) m1 a k2 ?K2"
    using shrink_represents [OF u(2)] by blast
  note run = ptr_segment_def [of h bytes "((a, news, m, k), acc)", unfolded prod.case u(1) bind_run_simps s(1)]
    and spec = input_segment_def [of h bytes "(K, acc)", unfolded prod.case Let_def]
  consider (ack) "ucast (h_cmd h) = IKCP_CMD_ACK" | (push) "ucast (h_cmd h) \<noteq> IKCP_CMD_ACK" "ucast (h_cmd h) = IKCP_CMD_PUSH"
    | (wask) "ucast (h_cmd h) \<noteq> IKCP_CMD_ACK" "ucast (h_cmd h) \<noteq> IKCP_CMD_PUSH" "ucast (h_cmd h) = IKCP_CMD_WASK"
    | (other) "ucast (h_cmd h) \<noteq> IKCP_CMD_ACK" "ucast (h_cmd h) \<noteq> IKCP_CMD_PUSH" "ucast (h_cmd h) \<noteq> IKCP_CMD_WASK" by blast
  then show ?thesis
  proof cases
    case ack
    obtain A B C D where K2: "?K2 = set_queues A B C D k2" using represents_scalars [OF s(2)] by blast
    let ?rtt = "itimediff (kc_current k2) (h_ts h)"
    let ?upd = "\<lambda>k. if ?rtt \<ge> 0 then ikcp_update_ack k ?rtt else k"
    have "represents (R \<union> set news) m1 a (?upd k2) (?upd ?K2)"
      by (rule represents_map [OF s(2), where h = ?upd]) (simp add: input_parts_queues)
    then obtain m2 k4 where p: "ptr_parse_ack a (h_sn h) m1 (?upd k2) = Some (Inr (m2, k4))"
      "represents (R \<union> set news) m2 a k4 (ikcp_parse_ack (?upd ?K2) (h_sn h))" using parse_ack_represents by blast
    obtain k5 where s2: "ptr_shrink_buf a m2 k4 = Inr k5" "represents (R \<union> set news) m2 a k5 (ikcp_shrink_buf (ikcp_parse_ack (?upd ?K2) (h_sn h)))"
      using shrink_represents [OF p(2)] by blast
    have "ptr_segment h bytes ((a, news, m, k), acc) = Some (Inr ((a, news, m2, k5), note_ack (h_sn h) (h_ts h) acc))"
      unfolding run if_P [OF ack] Let_def p(1) bind_run_simps prod.case s2(1) by (rule refl)
    moreover have "input_segment h bytes (K, acc) = (ikcp_shrink_buf (ikcp_parse_ack (?upd ?K2) (h_sn h)), note_ack (h_sn h) (h_ts h) acc)"
      unfolding spec if_P [OF ack] input_ack_def Let_def by (simp only: K2 set_queues_sel)
    ultimately show ?thesis using okI [OF s2(2)] by (intro exI [of _ 0]) auto
  next
    case push
    obtain used a' m' k' where p: "ptr_push a news h bytes m1 k2 = Some (Inr (a', drop used news, m', k'))" "used \<le> 2"
      "machine_ok R (a', drop used news, m', k') (input_push ?K2 h bytes)" using push_ok [OF okI [OF s(2)] enough] by blast
    have "ptr_segment h bytes ((a, news, m, k), acc) = Some (Inr ((a', drop used news, m', k'), acc))"
      unfolding run if_not_P [OF push(1)] if_P [OF push(2)] p(1) bind_run_simps by (rule refl)
    moreover have "input_segment h bytes (K, acc) = (input_push ?K2 h bytes, acc)"
      unfolding spec if_not_P [OF push(1)] if_P [OF push(2)] by (rule refl)
    ultimately show ?thesis using p(2,3) by (intro exI [of _ used]) auto
  next
    case wask
    let ?ask = "\<lambda>k. k\<lparr>kc_probe := kc_probe k OR IKCP_ASK_TELL\<rparr>"
    have "represents (R \<union> set news) m1 a (?ask k2) (?ask ?K2)"
      by (rule represents_map [OF s(2), where h = ?ask]) (simp only: set_queues_sel set_queues_upd)
    moreover have "ptr_segment h bytes ((a, news, m, k), acc) = Some (Inr ((a, news, m1, ?ask k2), acc))"
      unfolding run if_not_P [OF wask(1)] if_not_P [OF wask(2)] if_P [OF wask(3)] by (rule refl)
    moreover have "input_segment h bytes (K, acc) = (?ask ?K2, acc)"
      unfolding spec if_not_P [OF wask(1)] if_not_P [OF wask(2)] if_P [OF wask(3)] by (rule refl)
    ultimately show ?thesis using okI by (intro exI [of _ 0]) auto
  next
    case other
    have "ptr_segment h bytes ((a, news, m, k), acc) = Some (Inr ((a, news, m1, k2), acc))"
      unfolding run if_not_P [OF other(1)] if_not_P [OF other(2)] if_not_P [OF other(3)] by (rule refl)
    moreover have "input_segment h bytes (K, acc) = (?K2, acc)"
      unfolding spec if_not_P [OF other(1)] if_not_P [OF other(2)] if_not_P [OF other(3)] by (rule refl)
    ultimately show ?thesis using okI [OF s(2)] by (intro exI [of _ 0]) auto
  qed
qed

lemma decode_header_shorter: "decode_header data = (h, data1) \<Longrightarrow> length data1 = length data - 24"
  by (auto simp: decode_header_def ikcp_decode8u_def ikcp_decode16u_def ikcp_decode32u_def Let_def)

lemma input_loop_ok:
  assumes "machine_ok R (a, news, m, k) K" and "length data \<le> 12 * length news"
  shows "\<exists>used a' m' k'. ptr_input_loop data ((a, news, m, k), acc)
      = Some (Inr (fst (input_loop data (K, acc)), (a', drop used news, m', k'), snd (snd (input_loop data (K, acc)))))
    \<and> machine_ok R (a', drop used news, m', k') (fst (snd (input_loop data (K, acc))))"
  using assms
proof (induction "length data" arbitrary: data a news m k K acc rule: less_induct)
  case less
  note run = ptr_input_loop.simps [of data "((a, news, m, k), acc)"] and spec = input_loop.simps [of data "(K, acc)"]
  have stop: ?case if "ptr_input_loop data ((a, news, m, k), acc) = Some (Inr (r, ((a, news, m, k), acc)))" "input_loop data (K, acc) = (r, (K, acc))" for r
    using that less.prems(1) by (intro exI [of _ 0]) auto
  show ?case
  proof (cases "int (length data) < sint IKCP_OVERHEAD")
    case True
    show ?thesis by (rule stop; subst run spec; simp only: if_P [OF True])
  next
    case big: False
    obtain h data1 where d: "decode_header data = (h, data1)" by (rule prod.exhaust)
    have len: "24 \<le> length data" "length data1 = length data - 24" using big decode_header_shorter [OF d] by (simp_all add: IKCP_OVERHEAD_def)
    have "represents (R \<union> set news) m a k K" using less.prems(1) by (simp add: machine_ok_def)
    then have conv: "kc_conv K = kc_conv k" using represents_scalars by fastforce
    have run': "ptr_input_loop data ((a, news, m, k), acc) = (if h_conv h \<noteq> kc_conv k then Some (Inr (-1, ((a, news, m, k), acc)))
              else if int (length data1) < sint (h_len h) \<or> sint (h_len h) < 0 then Some (Inr (-2, ((a, news, m, k), acc)))
              else if \<not> known_cmd (h_cmd h) then Some (Inr (-3, ((a, news, m, k), acc)))
              else bind_run (ptr_segment h (take (unat (h_len h)) data1) ((a, news, m, k), acc))
                     (\<lambda>st'. ptr_input_loop (drop (unat (h_len h)) data1) st'))"
      unfolding run if_not_P [OF big] d Let_def prod.case fst_conv snd_conv by (rule refl)
    have spec': "input_loop data (K, acc) = (if h_conv h \<noteq> kc_conv k then (-1, (K, acc))
              else if int (length data1) < sint (h_len h) \<or> sint (h_len h) < 0 then (-2, (K, acc))
              else if \<not> known_cmd (h_cmd h) then (-3, (K, acc))
              else input_loop (drop (unat (h_len h)) data1) (input_segment h (take (unat (h_len h)) data1) (K, acc)))"
      unfolding spec if_not_P [OF big] d Let_def prod.case fst_conv conv by (rule refl)
    consider "h_conv h \<noteq> kc_conv k" | "h_conv h = kc_conv k" "int (length data1) < sint (h_len h) \<or> sint (h_len h) < 0"
      | "h_conv h = kc_conv k" "\<not> (int (length data1) < sint (h_len h) \<or> sint (h_len h) < 0)" "\<not> known_cmd (h_cmd h)"
      | (go) "h_conv h = kc_conv k" "\<not> (int (length data1) < sint (h_len h) \<or> sint (h_len h) < 0)" "known_cmd (h_cmd h)" by blast
    then show ?thesis
    proof cases
      case go
      let ?bytes = "take (unat (h_len h)) data1" and ?rest = "drop (unat (h_len h)) data1"
      obtain K1 acc1 where i: "input_segment h ?bytes (K, acc) = (K1, acc1)" by (rule prod.exhaust)
      have "2 \<le> length news" using len(1) less.prems(2) by simp
      then obtain used a1 m1 k1 where s: "ptr_segment h ?bytes ((a, news, m, k), acc) = Some (Inr ((a1, drop used news, m1, k1), acc1))"
        "used \<le> 2" "machine_ok R (a1, drop used news, m1, k1) K1"
        using segment_ok [OF less.prems(1), of h ?bytes acc] unfolding i fst_conv snd_conv by blast
      have "length ?rest \<le> 12 * length (drop used news)" "length ?rest < length data" using len less.prems(2) s(2) by simp_all
      then obtain used' a' m' k' where r: "ptr_input_loop ?rest ((a1, drop used news, m1, k1), acc1)
          = Some (Inr (fst (input_loop ?rest (K1, acc1)), (a', drop used' (drop used news), m', k'), snd (snd (input_loop ?rest (K1, acc1)))))"
        "machine_ok R (a', drop used' (drop used news), m', k') (fst (snd (input_loop ?rest (K1, acc1))))"
        using less.hyps [OF _ s(3)] by blast
      have "ptr_input_loop data ((a, news, m, k), acc) = ptr_input_loop ?rest ((a1, drop used news, m1, k1), acc1)"
        "input_loop data (K, acc) = input_loop ?rest (K1, acc1)"
        using go unfolding run' spec' s(1) i by simp_all
      then show ?thesis using r by (intro exI [of _ "used' + used"]) (auto simp: drop_drop)
    qed (rule stop; simp add: run' spec')+
  qed
qed

lemma input_ok:
  assumes "machine_ok R (a, news, m, k) K" and "length data \<le> 12 * length news"
  shows "\<exists>used a' m' k'. ptr_input a news data m k = Some (Inr (fst (ikcp_input K data), a', drop used news, m', k'))
    \<and> machine_ok R (a', drop used news, m', k') (snd (ikcp_input K data))"
proof -
  let ?z = "\<lambda>k. k\<lparr>kc_ackedlen := 0\<rparr>"
  have rep: "represents (R \<union> set news) m a k K" and dis: "ka_self a \<noteq> 0" "distinct news" "R \<inter> set news = {}" using assms(1) by (simp_all add: machine_ok_def)
  have "represents (R \<union> set news) m a (?z k) (?z K)" by (rule represents_map [OF rep, where h = ?z]) (rule set_queues_upd)
  then have ok0: "machine_ok R (a, news, m, ?z k) (?z K)" by (rule machine_okI [OF _ dis])
  have una: "kc_snd_una K = kc_snd_una k" using represents_scalars [OF rep] by auto
  show ?thesis
  proof (cases "int (length data) < sint IKCP_OVERHEAD")
    case True
    then have "ptr_input a news data m k = Some (Inr (-1, a, news, m, ?z k))" "ikcp_input K data = (-1, ?z K)"
      by (simp_all add: ptr_input_def ikcp_input_def)
    with ok0 show ?thesis by (intro exI [of _ 0]) auto
  next
    case False
    obtain ret K1 flag maxack latest where i: "input_loop data (?z K, (False, 0, 0)) = (ret, K1, (flag, maxack, latest))" by (metis prod.collapse)
    obtain used a1 m1 k1 where r: "ptr_input_loop data ((a, news, m, ?z k), (False, 0, 0)) = Some (Inr (ret, (a1, drop used news, m1, k1), (flag, maxack, latest)))"
      "machine_ok R (a1, drop used news, m1, k1) K1"
      using input_loop_ok [OF ok0 assms(2), of "(False, 0, 0)"] unfolding i fst_conv snd_conv by blast
    have rep1: "represents (R \<union> set (drop used news)) m1 a1 k1 K1" and dis1: "ka_self a1 \<noteq> 0" "distinct (drop used news)" "R \<inter> set (drop used news) = {}"
      using r(2) by (simp_all add: machine_ok_def)
    note P = ptr_input_def [of a news data m k, unfolded Let_def if_not_P [OF False] r(1) bind_run_simps prod.case]
      and S = ikcp_input_def [of K data, unfolded Let_def if_not_P [OF False] i prod.case]
    show ?thesis
    proof (cases "ret = 0")
      case False
      then have "ptr_input a news data m k = Some (Inr (ret, a1, drop used news, m1, k1))" "ikcp_input K data = (ret, K1)" by (simp_all add: P S)
      with r(2) show ?thesis by auto
    next
      case True
      let ?fa = "\<lambda>K. if flag then ikcp_parse_fastack K maxack latest else K"
      obtain m2 where m2: "(if flag then ptr_parse_fastack a1 maxack latest m1 k1 else Some (Inr m1)) = Some (Inr m2)"
        "represents (R \<union> set (drop used news)) m2 a1 k1 (?fa K1)"
        using parse_fastack_represents [OF rep1, of maxack latest] rep1 by (cases flag) auto
      let ?g = "\<lambda>k. if itimediff (kc_snd_una k) (kc_snd_una K) > 0 then grow_cwnd k else k"
      have "represents (R \<union> set (drop used news)) m2 a1 (?g k1) (?g (?fa K1))"
        by (rule represents_map [OF m2(2), where h = ?g]) (simp add: input_parts_queues)
      then have "machine_ok R (a1, drop used news, m2, ?g k1) (?g (?fa K1))" by (rule machine_okI [OF _ dis1])
      moreover have "ptr_input a news data m k = Some (Inr (0, a1, drop used news, m2, ?g k1))"
        using True unfolding P m2(1) una by simp
      moreover have "ikcp_input K data = (0, ?g (?fa K1))" using True unfolding S by simp
      ultimately show ?thesis by auto
    qed
  qed
qed

subsection \<open>Any sequence of calls\<close>

text \<open>A call with its answer: the return value, the bytes copied to the caller's buffer, and the datagrams handed to the
  output callback.\<close>

datatype kcp_call = Call_Send "byte list" | Call_Recv int | Call_Input "byte list" | Call_Flush | Call_Update u32

type_synonym answer = "int \<times> byte list \<times> byte list list"

fun list_call :: "kcp_call \<Rightarrow> IKCPCB \<Rightarrow> answer \<times> IKCPCB" where
  "list_call (Call_Send buffer) k = (let (ret, k') = ikcp_send k buffer (int (length buffer)) in ((ret, [], []), k'))"
| "list_call (Call_Recv len) k = (let (ret, bs, k') = ikcp_recv k len in ((ret, bs, []), k'))"
| "list_call (Call_Input data) k = (let (ret, k') = ikcp_input k data in ((ret, [], []), k'))"
| "list_call Call_Flush k = (let (outs, k') = ikcp_flush k in ((0, [], outs), k'))"
| "list_call (Call_Update current) k = (let (outs, k') = ikcp_update k current in ((0, [], outs), k'))"

fun ptr_call :: "kcp_call \<Rightarrow> machine \<Rightarrow> (answer \<times> machine) result option" where
  "ptr_call (Call_Send buffer) (a, news, m, k) =
     bind_run (ptr_send a news buffer (int (length buffer)) m k) (\<lambda>(ret, rest, m', k'). Some (Inr ((ret, [], []), (a, rest, m', k'))))"
| "ptr_call (Call_Recv len) (a, news, m, k) =
     bind_run (ptr_recv a len m k) (\<lambda>(ret, bs, m', k'). Some (Inr ((ret, bs, []), (a, news, m', k'))))"
| "ptr_call (Call_Input data) (a, news, m, k) =
     bind_run (ptr_input a news data m k) (\<lambda>(ret, st). Some (Inr ((ret, [], []), st)))"
| "ptr_call Call_Flush (a, news, m, k) =
     bind_run (ptr_flush a m k) (\<lambda>(outs, m', k'). Some (Inr ((0, [], outs), (a, news, m', k'))))"
| "ptr_call (Call_Update current) (a, news, m, k) =
     bind_run (ptr_update a current m k) (\<lambda>(outs, m', k'). Some (Inr ((0, [], outs), (a, news, m', k'))))"

text \<open>The blocks a call may need at most.\<close>

fun needed :: "kcp_call \<Rightarrow> nat" where
  "needed (Call_Send buffer) = unat IKCP_WND_RCV"
| "needed (Call_Input data) = length data"
| "needed _ = 0"

text \<open>The allocator: for every call it provides blocks that are not in use, and takes back those the call did not
  ask for.  A head is inside the allocated control block, so no block is handed out at its address.\<close>

type_synonym allocator = "kcp_at \<Rightarrow> memory \<Rightarrow> nat \<Rightarrow> addr list"

definition malloc_lawful :: "allocator \<Rightarrow> bool" where
  "malloc_lawful alloc \<longleftrightarrow> (\<forall>a m n. finite {x. m_live m x} \<longrightarrow>
     length (alloc a m n) = n \<and> distinct (alloc a m n) \<and> 0 \<notin> set (alloc a m n)
   \<and> (\<forall>x\<in>set (alloc a m n). \<not> m_live m x \<and> x \<notin> set (heads a)))"

definition reserve :: "addr list \<Rightarrow> memory \<Rightarrow> memory" where
  "reserve news m = m\<lparr>m_live := (\<lambda>x. x \<in> set news \<or> m_live m x)\<rparr>"

definition give_back :: "addr list \<Rightarrow> memory \<Rightarrow> memory" where
  "give_back rest m = m\<lparr>m_live := (\<lambda>x. x \<notin> set rest \<and> m_live m x)\<rparr>"

fun ptr_run :: "allocator \<Rightarrow> kcp_call list \<Rightarrow> kcp_at \<Rightarrow> memory \<Rightarrow> IKCPCB \<Rightarrow> (answer list \<times> kcp_at \<times> memory \<times> IKCPCB) result option" where
  "ptr_run alloc [] a m k = Some (Inr ([], a, m, k))"
| "ptr_run alloc (call # calls) a m k =
     (let news = alloc a m (needed call)
      in bind_run (ptr_call call (a, news, reserve news m, k)) (\<lambda>(ans, (a', rest, m', k')).
         bind_run (ptr_run alloc calls a' (give_back rest m') k') (\<lambda>(answers, st). Some (Inr (ans # answers, st)))))"

fun list_run :: "kcp_call list \<Rightarrow> IKCPCB \<Rightarrow> answer list \<times> IKCPCB" where
  "list_run [] k = ([], k)"
| "list_run (call # calls) k = (let (ans, k') = list_call call k; (answers, k'') = list_run calls k' in (ans # answers, k''))"

lemma call_ok:
  assumes ok: "machine_ok R (a, news, m, k) K" and enough: "needed call \<le> length news"
  shows "\<exists>a' rest m' k'. ptr_call call (a, news, m, k) = Some (Inr (fst (list_call call K), (a', rest, m', k')))
    \<and> machine_ok R (a', rest, m', k') (snd (list_call call K))"
proof -
  have rep: "represents (R \<union> set news) m a k K" and dis: "ka_self a \<noteq> 0" "distinct news" "R \<inter> set news = {}"
    using ok by (simp_all add: machine_ok_def)
  note okI = machine_okI [OF _ dis]
  show ?thesis
  proof (cases call)
    case (Call_Send buffer)
    obtain ret K' where s: "ikcp_send K buffer (int (length buffer)) = (ret, K')" by (rule prod.exhaust)
    have "unat IKCP_WND_RCV \<le> length news" using enough by (simp add: Call_Send)
    then obtain m' k' used where r: "ptr_send a news buffer (int (length buffer)) m k = Some (Inr (ret, drop used news, m', k'))"
      "represents (R \<union> set news - set (take used news)) m' a k' K'"
      using send_represents [OF rep dis(2) _ _ s] by blast
    have "set news = set (take used news) \<union> set (drop used news)" by (metis append_take_drop_id set_append)
    moreover have "set (take used news) \<inter> set (drop used news) = {}" using dis(2) by (rule set_take_disj_set_drop_if_distinct) simp
    ultimately have "R \<union> set news - set (take used news) = R \<union> set (drop used news)" using dis(3) by blast
    then have "machine_ok R (a, drop used news, m', k') K'"
      using r(2) dis by (intro machine_okI) (auto dest: in_set_dropD)
    then show ?thesis using r(1) by (simp add: Call_Send s)
  next
    case (Call_Recv len)
    obtain ret bs K' where s: "ikcp_recv K len = (ret, bs, K')" by (rule prod_cases3)
    show ?thesis using recv_represents [OF rep s] okI by (auto simp: Call_Recv s)
  next
    case (Call_Input data)
    have "length data \<le> 12 * length news" using enough by (simp add: Call_Input)
    then obtain used a' m' k' where r: "ptr_input a news data m k = Some (Inr (fst (ikcp_input K data), a', drop used news, m', k'))"
      "machine_ok R (a', drop used news, m', k') (snd (ikcp_input K data))" using input_ok [OF ok] by blast
    then show ?thesis by (simp add: Call_Input case_prod_beta)
  next
    case Call_Flush
    then show ?thesis using flush_represents [OF rep] okI by (auto simp: case_prod_beta)
  next
    case (Call_Update current)
    then show ?thesis using update_represents [OF rep, of current] okI by (auto simp: case_prod_beta)
  qed
qed

lemma represents_live: "represents R m a k K \<Longrightarrow> finite R \<Longrightarrow> finite {x. m_live m x}"
  by (auto simp: represents_def laid_out_def)

lemma reserve_ok:
  assumes rep: "represents R m a k K" and self: "ka_self a \<noteq> 0" and fin: "finite R" and law: "malloc_lawful alloc"
  shows "machine_ok R (a, alloc a m n, reserve (alloc a m n) m, k) K"
proof -
  obtain A B C D where l: "laid_out R m a A B C D" and K: "K = with_queues k m A B C D" using rep by (auto simp: represents_def)
  let ?news = "alloc a m n"
  have new: "distinct ?news" "0 \<notin> set ?news" "\<forall>x\<in>set ?news. \<not> m_live m x \<and> x \<notin> set (heads a)"
    using law represents_live [OF rep fin] unfolding malloc_lawful_def by blast+
  have lv: "\<forall>x. m_live m x \<longleftrightarrow> x \<in> R \<or> x \<in> set (own_blocks a @ A @ B @ C @ D)" using l unfolding laid_out_def by (elim conjE)
  have r: "R \<inter> set (heads a @ own_blocks a @ A @ B @ C @ D) = {}" "0 \<notin> R" using l unfolding laid_out_def by blast+
  have "set ?news \<inter> set (heads a @ own_blocks a @ A @ B @ C @ D) = {}" and disj: "R \<inter> set ?news = {}"
    using new(3) lv unfolding set_append [of "heads a"] by blast+
  then have r': "(R \<union> set ?news) \<inter> set (heads a @ own_blocks a @ A @ B @ C @ D) = {}" "0 \<notin> R \<union> set ?news"
    subgoal using r(1) by blast
    subgoal using r(2) new(2) by blast
    done
  have "laid_out (R \<union> set ?news) (reserve ?news m) a A B C D"
    using l r' lv unfolding laid_out_def reserve_def queue_live by auto
  then have "represents (R \<union> set ?news) (reserve ?news m) a k K"
    by (rule representsI) (simp add: K with_queues_def reserve_def)
  then show ?thesis using self new(1) disj by (rule machine_okI)
qed

lemma give_back_ok:
  assumes "machine_ok R (a, rest, m, k) K"
  shows "represents R (give_back rest m) a k K" and "ka_self a \<noteq> 0"
proof -
  show "ka_self a \<noteq> 0" using assms by (simp add: machine_ok_def)
  have disj: "R \<inter> set rest = {}" using assms by (simp add: machine_ok_def)
  obtain A B C D where l: "laid_out (R \<union> set rest) m a A B C D" and K: "K = with_queues k m A B C D"
    using assms by (auto simp: machine_ok_def represents_def)
  have lv: "\<forall>x. m_live m x \<longleftrightarrow> x \<in> R \<union> set rest \<or> x \<in> set (own_blocks a @ A @ B @ C @ D)" using l unfolding laid_out_def by (elim conjE)
  have r: "(R \<union> set rest) \<inter> set (heads a @ own_blocks a @ A @ B @ C @ D) = {}" "0 \<notin> R \<union> set rest" using l unfolding laid_out_def by blast+
  have lv': "\<forall>x. m_live (give_back rest m) x \<longleftrightarrow> x \<in> R \<or> x \<in> set (own_blocks a @ A @ B @ C @ D)"
    using lv r(1) disj unfolding give_back_def set_append [of "heads a"] by auto
  have "R \<inter> set (heads a @ own_blocks a @ A @ B @ C @ D) = {}" "0 \<notin> R" using r by blast+
  moreover have "queue_at (give_back rest m) h ns \<longleftrightarrow> queue_at m h ns" for h ns unfolding give_back_def by (rule queue_live)
  ultimately have "laid_out R (give_back rest m) a A B C D" using l lv' unfolding laid_out_def by blast
  then show "represents R (give_back rest m) a k K"
    by (rule representsI) (simp add: K with_queues_def give_back_def)
qed

lemma run_represents:
  assumes law: "malloc_lawful alloc" and fin: "finite R"
  shows "represents R m a k K \<Longrightarrow> ka_self a \<noteq> 0 \<Longrightarrow>
    \<exists>a' m' k'. ptr_run alloc calls a m k = Some (Inr (fst (list_run calls K), a', m', k'))
      \<and> represents R m' a' k' (snd (list_run calls K)) \<and> ka_self a' \<noteq> 0"
proof (induction calls arbitrary: a m k K)
  case (Cons call calls)
  let ?news = "alloc a m (needed call)"
  have "finite {x. m_live m x}" by (rule represents_live [OF Cons.prems(1) fin])
  then have "needed call \<le> length ?news" using law by (simp add: malloc_lawful_def)
  then obtain a1 rest m1 k1 where c: "ptr_call call (a, ?news, reserve ?news m, k) = Some (Inr (fst (list_call call K), (a1, rest, m1, k1)))"
    "machine_ok R (a1, rest, m1, k1) (snd (list_call call K))"
    using call_ok [OF reserve_ok [OF Cons.prems fin law]] by blast
  obtain a' m' k' where r: "ptr_run alloc calls a1 (give_back rest m1) k1 = Some (Inr (fst (list_run calls (snd (list_call call K))), a', m', k'))"
    "represents R m' a' k' (snd (list_run calls (snd (list_call call K))))" "ka_self a' \<noteq> 0"
    using Cons.IH [OF give_back_ok [OF c(2)]] by blast
  then show ?case by (simp add: c(1) Let_def case_prod_beta)
qed simp

subsection \<open>Properties\<close>

text \<open>C11: the pointer code of \<^verbatim>\<open>ikcp.c\<close> behaves as the list model in every use.  A control block in memory serves any
  sequence of calls: every call returns, touches no freed segment and frees no block twice, and its return value,
  the bytes it copies out and the datagrams it emits are those of the operations on lists.
  Afterwards the memory represents the control block of the list model, what was allocated by others is untouched, and
  \<open>ikcp_release\<close> gives back everything else, so no sequence of calls leaks a block.  The allocator is any that
  provides unused blocks when asked.\<close>

theorem pointer_code_serves_calls:
  assumes "malloc_lawful alloc" and "finite R" and "represents R m a k K" and "ka_self a \<noteq> 0"
  shows "\<exists>a' m' k' m''. ptr_run alloc calls a m k = Some (Inr (fst (list_run calls K), a', m', k'))
    \<and> represents R m' a' k' (snd (list_run calls K))
    \<and> ikcp_release a' m' = Some (Inr m'') \<and> (\<forall>x. m_live m'' x \<longleftrightarrow> x \<in> R)"
proof -
  obtain a' m' k' where r: "ptr_run alloc calls a m k = Some (Inr (fst (list_run calls K), a', m', k'))"
    "represents R m' a' k' (snd (list_run calls K))" "ka_self a' \<noteq> 0"
    using run_represents [OF assms] by blast
  then obtain A B C D where "laid_out R m' a' A B C D" by (auto simp: represents_def)
  from release_laid_out [OF this r(3)] r(1,2) show ?thesis by blast
qed

text \<open>An allocator that takes the blocks above everything in use.\<close>

definition bump_alloc :: allocator where
  "bump_alloc a m n = (let s = Suc (Max (insert 0 ({x. m_live m x} \<union> set (heads a)))) in [s..<s + n])"

lemma bump_alloc_lawful: "malloc_lawful bump_alloc"
proof -
  have new: "\<not> m_live m x \<and> x \<notin> set (heads a)"
    if "finite {x. m_live m x}" "Suc (Max (insert 0 ({x. m_live m x} \<union> set (heads a)))) \<le> x" for a m x
  proof -
    have "y < x" if y: "m_live m y \<or> y \<in> set (heads a)" for y
    proof -
      have "y \<le> Max (insert 0 ({x. m_live m x} \<union> set (heads a)))" using that \<open>finite {x. m_live m x}\<close> by (intro Max_ge) auto
      with \<open>Suc _ \<le> x\<close> show ?thesis by linarith
    qed
    then show ?thesis by blast
  qed
  show ?thesis unfolding malloc_lawful_def bump_alloc_def Let_def
  proof (intro allI impI conjI ballI)
    fix a m n x
    assume f: "finite {x. m_live m x}"
    let ?s = "Suc (Max (insert 0 ({x. m_live m x} \<union> set (heads a))))"
    show "length [?s..<?s + n] = n" "distinct [?s..<?s + n]" "0 \<notin> set [?s..<?s + n]" by (simp_all only: length_upt distinct_upt set_upt) auto
    assume "x \<in> set [?s..<?s + n]"
    then have "?s \<le> x" unfolding set_upt by (rule atLeastLessThan_iff [THEN iffD1, THEN conjunct1])
    from new [OF f this] show "\<not> m_live m x" and "x \<notin> set (heads a)" by blast+
  qed
qed

theorem pointer_code_serves_calls_witness:
  "\<exists>m a' m' k' m''. ptr_create 7 1000 2000 block_pool = Inr (Some (kcp_layout 1000 2000, ikcp_create 7), m)
    \<and> ptr_run bump_alloc [Call_Send [1, 2, 3], Call_Recv 10] (kcp_layout 1000 2000) m (ikcp_create 7)
        = Some (Inr ([(3, [], []), (-1, [], [])], a', m', k'))
    \<and> represents {3000..<3200} m' a' k' (snd (list_run [Call_Send [1, 2, 3], Call_Recv 10] (ikcp_create 7)))
    \<and> ikcp_release a' m' = Some (Inr m'') \<and> (\<forall>x. m_live m'' x \<longleftrightarrow> x \<in> {3000..<3200})"
proof -
  let ?R = "{1000, 2000} \<union> {3000..<3200} :: nat set"
  have R: "?R - {1000, 2000} = {3000..<3200}" by auto
  obtain m where m: "ptr_create 7 1000 2000 block_pool = Inr (Some (kcp_layout 1000 2000, ikcp_create 7), m)"
    "represents {3000..<3200} m (kcp_layout 1000 2000) (ikcp_create 7) (ikcp_create 7)"
    using created_represents [of block_pool ?R 1000 2000 7] unfolding R by (auto simp: block_pool_def heads_def kcp_layout_def)
  have "fst (list_run [Call_Send [1, 2, 3], Call_Recv 10] (ikcp_create 7)) = [(3, [], []), (-1, [], [])]"
    by (simp add: ikcp_send_def send_extend_def ikcp_recv_def ikcp_create_def IKCP_MTU_DEF_def IKCP_OVERHEAD_def numeral_eq_Suc)
  then show ?thesis
    using pointer_code_serves_calls [OF bump_alloc_lawful _ m(2), of "[Call_Send [1, 2, 3], Call_Recv 10]"] m(1)
    by (simp add: kcp_layout_def)
qed

end
