(* ===== verification/Transport_Lifetime.thy ===== *)
theory Transport_Lifetime
  imports Kcp_Pointers Transport Resources
begin

text \<open>
  \<^verbatim>\<open>src/net/transport.cpp\<close>: the blocks of a transport, from the loop of \<open>connect\<close> and \<open>listen\<close> that opens the streams
  to the loop of the destructor that releases them, and its use of Winsock.
\<close>

subsection \<open>The code\<close>

text \<open>One turn of the loop of \<open>connect\<close>; \<open>p\<close>, \<open>b\<close> and \<open>b2\<close> are the results of \<open>ikcp_malloc\<close> in \<open>ikcp_create\<close> and
  \<open>ikcp_setmtu\<close>, \<open>u\<close> that of \<open>new\<close> for the user pair (0 when it throws).  A null control block is
  dereferenced by \<open>ikcp_nodelay\<close>.\<close>

definition open_stream_at :: "u32 \<Rightarrow> addr \<Rightarrow> addr \<Rightarrow> addr \<Rightarrow> addr \<Rightarrow> memory \<Rightarrow> (kcp_at \<times> memory \<times> IKCPCB) result" where
  "open_stream_at conv p b b2 u m =
     bind_result (ptr_create conv p b m) (\<lambda>(r, m1).
       case r of
         None \<Rightarrow> Inl OutOfBounds
       | Some (a, k1) \<Rightarrow>
           let k2 = snd (ikcp_nodelay k1 1 5 2 1); k3 = snd (ikcp_wndsize k2 4096 4096)
           in bind_result (ptr_setmtu a b2 16384 m1 k3) (\<lambda>(ret, a', m2, k4).
                if u = 0 then Inl (Throw ''bad_alloc'') else Inr (a', m2, k4\<lparr>kc_stream := 1\<rparr>)))"

text \<open>The loop of the destructor over \<open>kcps_\<close>; \<open>None\<close> is a null pointer.\<close>

fun destroy_streams :: "kcp_at option list \<Rightarrow> memory \<Rightarrow> memory result option" where
  "destroy_streams [] m = Some (Inr m)"
| "destroy_streams (None # as) m = destroy_streams as m"
| "destroy_streams (Some a # as) m = bind_run (ikcp_release a m) (destroy_streams as)"

text \<open>Winsock and the socket: the calls that acquire and release them, \<open>socket_\<close> (\<open>None\<close> is \<open>INVALID_SOCKET\<close>), and the
  opened transport or the exception.  The results of \<open>WSAStartup\<close>, \<open>socket\<close> and \<open>bind\<close> are arguments, as is the
  address \<open>inet_pton\<close> stores for the host.\<close>

datatype net_resource = Winsock | Socket nat

definition init_winsock :: "int \<Rightarrow> net_resource os_call list \<times> unit result" where
  "init_winsock WSAStartup_result =
     (if WSAStartup_result \<noteq> 0 then ([], Inl (Throw ''WSAStartup failed: '')) else ([Acquire Winsock], Inr ()))"

definition connect :: "nat option \<Rightarrow> nat \<Rightarrow> net_resource os_call list \<times> nat option \<times> transport result" where
  "connect sock host =
     (case sock of
        None \<Rightarrow> ([], None, Inl (Throw ''failed to create UdP socket''))
      | Some s \<Rightarrow> ([Acquire (Socket s)], Some s, Inr (open_transport (Some host))))"

definition listen :: "nat option \<Rightarrow> bool \<Rightarrow> net_resource os_call list \<times> nat option \<times> transport result" where
  "listen sock bound =
     (case sock of
        None \<Rightarrow> ([], None, Inl (Throw ''Failed to create UDP socket''))
      | Some s \<Rightarrow> ([Acquire (Socket s)], Some s,
          if bound then Inr (open_transport None) else Inl (Throw ''failed to bind UDP socket'')))"

definition close_transport :: "nat option \<Rightarrow> net_resource os_call list" where
  "close_transport sock = (case sock of Some s \<Rightarrow> [Release (Socket s)] | None \<Rightarrow> []) @ [Release Winsock]"

subsection \<open>Opening a stream\<close>

text \<open>An opened stream represents the \<open>new_stream\<close> of the other theories, and the user pair belongs to nobody.\<close>

lemma opened_represents:
  assumes "\<forall>x. m_live m x \<longleftrightarrow> x \<in> R" and "p \<in> R" "b \<in> R" "b2 \<in> R" "p \<noteq> b" "b2 \<noteq> p" "b2 \<noteq> b" "u \<noteq> 0" "0 \<notin> R"
    and "R \<inter> set (heads (kcp_layout p b)) = {}"
  shows "\<exists>a m' k. open_stream_at conv p b b2 u m = Inr (a, m', k) \<and> represents (R - {p, b, b2}) m' a k (new_stream conv)"
proof -
  have nz: "p \<noteq> 0" "b \<noteq> 0" using assms by metis+
  obtain m1 where m1: "ptr_create conv p b m = Inr (Some (kcp_layout p b, ikcp_create conv), m1)"
    "represents (R - {p, b}) m1 (kcp_layout p b) (ikcp_create conv) (ikcp_create conv)"
    using created_represents [OF assms(1-3,5) nz assms(9,10)] by blast
  let ?k = "snd (ikcp_wndsize (snd (ikcp_nodelay (ikcp_create conv) 1 5 2 1)) 4096 4096)"
  have rep: "represents (R - {p, b}) m1 (kcp_layout p b) ?k ?k"
  proof -
    obtain A B C D where l: "laid_out (R - {p, b}) m1 (kcp_layout p b) A B C D" "ikcp_create conv = with_queues (ikcp_create conv) m1 A B C D"
      using m1(2) by (auto simp: represents_def)
    have "?k = with_queues ?k m1 A B C D" using l(2)
      by (simp add: with_queues_def ikcp_create_def ikcp_nodelay_def ikcp_wndsize_def clamp_interval_def Let_def)
    then show ?thesis by (rule representsI [OF l(1)])
  qed
  have b2: "b2 \<in> R - {p, b}" and buf: "ka_buffer (kcp_layout p b) \<noteq> 0" using assms(4,6,7) nz by (auto simp: kcp_layout_def)
  obtain a' m' k' where s: "ptr_setmtu (kcp_layout p b) b2 16384 m1 ?k = Inr (fst (ikcp_setmtu ?k 16384), a', m', k')"
    "represents (R - {p, b} - {b2}) m' a' k' (snd (ikcp_setmtu ?k 16384))"
    using setmtu_represents [OF rep b2 buf, of 16384] by auto
  have "open_stream_at conv p b b2 u m = Inr (a', m', k'\<lparr>kc_stream := 1\<rparr>)"
    using m1(1) s(1) assms(8) by (simp add: open_stream_at_def Let_def)
  moreover have "represents (R - {p, b} - {b2}) m' a' (k'\<lparr>kc_stream := 1\<rparr>) (new_stream conv)"
  proof -
    obtain A B C D where l: "laid_out (R - {p, b} - {b2}) m' a' A B C D" "snd (ikcp_setmtu ?k 16384) = with_queues k' m' A B C D"
      using s(2) by (auto simp: represents_def)
    have "new_stream conv = (snd (ikcp_setmtu ?k 16384))\<lparr>kc_stream := 1\<rparr>" by (simp add: new_stream_def Let_def)
    then have "new_stream conv = with_queues (k'\<lparr>kc_stream := 1\<rparr>) m' A B C D" by (simp add: l(2) with_queues_def)
    then show ?thesis by (rule representsI [OF l(1)])
  qed
  moreover have "R - {p, b} - {b2} = R - {p, b, b2}" by blast
  ultimately show ?thesis by auto
qed

subsection \<open>Several control blocks\<close>

text \<open>A control block with the entries of its queues.\<close>

type_synonym laid = "kcp_at \<times> addr list \<times> addr list \<times> addr list \<times> addr list"

definition laid_at :: "addr set \<Rightarrow> memory \<Rightarrow> laid \<Rightarrow> bool" where
  "laid_at R m q = (case q of (a, A, B, C, D) \<Rightarrow> laid_out R m a A B C D)"

definition blocks_of :: "laid \<Rightarrow> addr set" where
  "blocks_of q = (case q of (a, A, B, C, D) \<Rightarrow> set (own_blocks a @ A @ B @ C @ D))"

definition links_of :: "laid \<Rightarrow> addr set" where
  "links_of q = (case q of (a, A, B, C, D) \<Rightarrow> set (heads a @ A @ B @ C @ D))"

text \<open>The blocks in use are those of the control blocks, each of one of them, and \<open>R\<close>.\<close>

primrec laid_all :: "addr set \<Rightarrow> memory \<Rightarrow> laid list \<Rightarrow> bool" where
  "laid_all R m [] \<longleftrightarrow> (\<forall>x. m_live m x \<longleftrightarrow> x \<in> R)"
| "laid_all R m (q # qs) \<longleftrightarrow> laid_at (R \<union> \<Union> (blocks_of ` set qs)) m q \<and> laid_all (R \<union> blocks_of q) m qs
     \<and> (\<forall>p\<in>set qs. links_of p \<inter> links_of q = {} \<and> blocks_of p \<inter> blocks_of q = {})"

lemma laid_at_frame:
  assumes l: "laid_at (R \<union> F) m q" and s: "same_links S m m'" "links_of q \<inter> S = {}"
    and live: "\<forall>x. m_live m' x \<longleftrightarrow> m_live m x \<and> x \<notin> F" and F: "F \<inter> R = {}" "F \<inter> blocks_of q = {}"
  shows "laid_at R m' q"
proof -
  obtain a A B C D where q: "q = (a, A, B, C, D)" by (rule prod_cases5)
  have l': "laid_out (R \<union> F) m a A B C D" using l by (simp add: laid_at_def q)
  have q0: "queue_at m (ka_snd_queue a) A" "queue_at m (ka_rcv_queue a) B" "queue_at m (ka_snd_buf a) C" "queue_at m (ka_rcv_buf a) D"
    using l' by (simp_all add: laid_out_def)
  have ap: "set (ka_snd_queue a # A) \<inter> S = {}" "set (ka_rcv_queue a # B) \<inter> S = {}" "set (ka_snd_buf a # C) \<inter> S = {}" "set (ka_rcv_buf a # D) \<inter> S = {}"
  proof -
    have "set (heads a @ A @ B @ C @ D) \<inter> S = {}" using s(2) by (simp only: links_of_def q prod.case)
    moreover have "set (ka_snd_queue a # A) \<subseteq> set (heads a @ A @ B @ C @ D)" "set (ka_rcv_queue a # B) \<subseteq> set (heads a @ A @ B @ C @ D)"
      "set (ka_snd_buf a # C) \<subseteq> set (heads a @ A @ B @ C @ D)" "set (ka_rcv_buf a # D) \<subseteq> set (heads a @ A @ B @ C @ D)"
      by (auto simp: heads_def)
    ultimately show "set (ka_snd_queue a # A) \<inter> S = {}" "set (ka_rcv_queue a # B) \<inter> S = {}" "set (ka_snd_buf a # C) \<inter> S = {}"
      "set (ka_rcv_buf a # D) \<inter> S = {}" by blast+
  qed
  have d: "distinct (heads a @ own_blocks a @ A @ B @ C @ D)" using l' unfolding laid_out_def by (elim conjE)
  have r: "(R \<union> F) \<inter> set (heads a @ own_blocks a @ A @ B @ C @ D) = {}" using l' unfolding laid_out_def by (elim conjE)
  have z: "0 \<notin> R \<union> F" using l' unfolding laid_out_def by (elim conjE)
  have lv: "\<forall>x. m_live m x \<longleftrightarrow> x \<in> R \<union> F \<or> x \<in> set (own_blocks a @ A @ B @ C @ D)" using l' unfolding laid_out_def by (elim conjE)
  have r': "R \<inter> set (heads a @ own_blocks a @ A @ B @ C @ D) = {}" "0 \<notin> R" using r z by blast+
  have "F \<inter> set (own_blocks a @ A @ B @ C @ D) = {}" using F(2) by (simp add: blocks_of_def q)
  then have lv': "\<forall>x. m_live m' x \<longleftrightarrow> x \<in> R \<or> x \<in> set (own_blocks a @ A @ B @ C @ D)"
    unfolding live [rule_format] lv [rule_format] using F(1) by blast
  have "laid_out R m' a A B C D"
    unfolding laid_out_def
    by (intro conjI d r' lv' queue_frame [OF q0(1) s(1) ap(1)] queue_frame [OF q0(2) s(1) ap(2)]
        queue_frame [OF q0(3) s(1) ap(3)] queue_frame [OF q0(4) s(1) ap(4)])
  then show ?thesis by (simp add: laid_at_def q)
qed

lemma laid_all_frame:
  assumes "laid_all (R \<union> F) m qs" and "same_links S m m'" and "\<forall>p\<in>set qs. links_of p \<inter> S = {} \<and> blocks_of p \<inter> F = {}"
    and "\<forall>x. m_live m' x \<longleftrightarrow> m_live m x \<and> x \<notin> F" and "F \<inter> R = {}"
  shows "laid_all R m' qs"
  using assms
proof (induction qs arbitrary: R)
  case Nil
  then show ?case by auto
next
  case (Cons q qs)
  have F: "F \<inter> (R \<union> \<Union> (blocks_of ` set qs)) = {}" "F \<inter> blocks_of q = {}" "F \<inter> (R \<union> blocks_of q) = {}"
  proof -
    have "blocks_of q \<inter> F = {}" "\<forall>p\<in>set qs. blocks_of p \<inter> F = {}" using Cons.prems(3) by simp_all
    with Cons.prems(5) show "F \<inter> (R \<union> \<Union> (blocks_of ` set qs)) = {}" "F \<inter> blocks_of q = {}" "F \<inter> (R \<union> blocks_of q) = {}" by blast+
  qed
  have e: "R \<union> F \<union> \<Union> (blocks_of ` set qs) = R \<union> \<Union> (blocks_of ` set qs) \<union> F" "R \<union> F \<union> blocks_of q = R \<union> blocks_of q \<union> F" by blast+
  have "laid_at (R \<union> \<Union> (blocks_of ` set qs) \<union> F) m q" using Cons.prems(1) by (simp add: e)
  moreover have "links_of q \<inter> S = {}" using Cons.prems(3) by simp
  ultimately have top: "laid_at (R \<union> \<Union> (blocks_of ` set qs)) m' q"
    by (intro laid_at_frame [OF _ Cons.prems(2) _ Cons.prems(4) F(1,2)])
  have "laid_all (R \<union> blocks_of q \<union> F) m qs" using Cons.prems(1) by (simp add: e)
  moreover have "\<forall>p\<in>set qs. links_of p \<inter> S = {} \<and> blocks_of p \<inter> F = {}" using Cons.prems(3) by (meson list.set_intros(2))
  ultimately have "laid_all (R \<union> blocks_of q) m' qs" by (intro Cons.IH Cons.prems(2,4) F(3))
  then show ?case using Cons.prems(1) top by simp
qed

lemma destroy_laid:
  assumes "laid_all R m qs" and "\<forall>q\<in>set qs. ka_self (fst q) \<noteq> 0"
  shows "\<exists>m'. destroy_streams (map (\<lambda>q. Some (fst q)) qs) m = Some (Inr m') \<and> (\<forall>x. m_live m' x \<longleftrightarrow> x \<in> R)"
  using assms
proof (induction qs arbitrary: m)
  case Nil
  then show ?case by simp
next
  case (Cons q qs)
  obtain a A B C D where q: "q = (a, A, B, C, D)" by (rule prod_cases5)
  let ?R = "R \<union> \<Union> (blocks_of ` set qs)"
  have l: "laid_out ?R m a A B C D" using Cons.prems(1) by (simp add: laid_at_def q)
  obtain m1 where m1: "ikcp_release a m = Some (Inr m1)" "\<forall>x. m_live m1 x \<longleftrightarrow> x \<in> ?R" "same_links (links_of q) m m1"
    using release_laid_out [OF l] Cons.prems(2) by (auto simp: links_of_def q)
  have lv: "\<forall>x. m_live m x \<longleftrightarrow> x \<in> ?R \<or> x \<in> set (own_blocks a @ A @ B @ C @ D)" using l unfolding laid_out_def by (elim conjE)
  have "?R \<inter> set (heads a @ own_blocks a @ A @ B @ C @ D) = {}" using l unfolding laid_out_def by (elim conjE)
  moreover have bq: "blocks_of q = set (own_blocks a @ A @ B @ C @ D)" by (simp only: blocks_of_def q prod.case)
  ultimately have dis: "?R \<inter> blocks_of q = {}" unfolding set_append [of "heads a"] by blast
  have live: "\<forall>x. m_live m1 x \<longleftrightarrow> m_live m x \<and> x \<notin> blocks_of q"
  proof
    fix x
    show "m_live m1 x \<longleftrightarrow> m_live m x \<and> x \<notin> blocks_of q"
      unfolding m1(2) [rule_format] lv [rule_format] bq [symmetric] using dis by blast
  qed
  have R: "blocks_of q \<inter> R = {}" using dis by blast
  have "laid_all (R \<union> blocks_of q) m qs" "\<forall>p\<in>set qs. links_of p \<inter> links_of q = {} \<and> blocks_of p \<inter> blocks_of q = {}"
    using Cons.prems(1) by simp_all
  then have "laid_all R m1 qs" by (intro laid_all_frame [OF _ m1(3) _ live R])
  with Cons.IH [of m1] Cons.prems(2) m1(1) show ?case by (simp add: q)
qed

subsection \<open>Properties\<close>

text \<open>C12: the destructor gives back every block of every stream, each exactly once: control block, datagram buffer,
  acknowledgement list and all segments in the four queues, and frees nothing else; no freed or foreign
  block is touched.  The blocks \<open>R\<close> of nobody stay allocated, among them the \<open>std::pair\<close> that \<open>connect\<close> and
  \<open>listen\<close> allocate for \<open>user\<close>.\<close>

theorem destructor_frees_streams:
  assumes "laid_all R m qs" and "\<forall>q\<in>set qs. ka_self (fst q) \<noteq> 0"
  shows "\<exists>m'. destroy_streams (map (\<lambda>q. Some (fst q)) qs) m = Some (Inr m') \<and> (\<forall>x. m_live m' x \<longleftrightarrow> x \<in> R)"
  using destroy_laid [OF assms] .

text \<open>One stream: four blocks are allocated, three are given back.\<close>

definition four_blocks :: memory where
  "four_blocks = \<lparr>m_next = (\<lambda>a. 0), m_prev = (\<lambda>a. 0), m_seg = (\<lambda>a. ikcp_segment_new []),
     m_live = (\<lambda>x. x \<in> {1000, 2000, 30000, 60000})\<rparr>"

theorem destructor_frees_streams_witness:
  "\<exists>a m k m'. open_stream_at 7 1000 2000 30000 60000 four_blocks = Inr (a, m, k)
    \<and> destroy_streams [Some a] m = Some (Inr m') \<and> (\<forall>x. m_live m' x \<longleftrightarrow> x = 60000)"
proof -
  let ?R = "{1000, 2000, 30000, 60000}"
  have R: "?R - {1000, 2000, 30000} = {60000 :: nat}" by auto
  obtain a m k where o: "open_stream_at 7 1000 2000 30000 60000 four_blocks = Inr (a, m, k)"
    "represents {60000} m a k (new_stream 7)"
    using opened_represents [of four_blocks ?R 1000 2000 30000 60000 7] unfolding R
    by (auto simp: four_blocks_def heads_def kcp_layout_def)
  then obtain A B C D where l: "laid_out {60000} m a A B C D" by (auto simp: represents_def)
  have "ka_self a \<noteq> 0" using o(1) by (auto simp: open_stream_at_def ptr_create_def ptr_setmtu_def kcp_layout_def bind_result_Inr_iff Let_def split: if_splits)
  moreover have "laid_all {60000} m [(a, A, B, C, D)]"
    using l by (auto simp: laid_at_def blocks_of_def laid_out_def)
  ultimately show ?thesis
    using destructor_frees_streams [of "{60000}" m "[(a, A, B, C, D)]"] o(1) by auto
qed

text \<open>A transport that is constructed and destroyed, with \<open>connect\<close> or \<open>listen\<close> in between or not, balances its Winsock
  calls and its sockets, also when a call fails and the exception runs the destructor.  When the
  constructor throws there is no destructor, and nothing to give back.\<close>

lemma transport_closes_socket:
  assumes "init_winsock r = (log, res)"
  shows "res = Inr () \<Longrightarrow> balanced (log @ fst (connect sock host) @ close_transport (fst (snd (connect sock host))))"
    and "res = Inr () \<Longrightarrow> balanced (log @ fst (listen sock bound) @ close_transport (fst (snd (listen sock bound))))"
    and "res = Inr () \<Longrightarrow> balanced (log @ close_transport None)"
    and "res \<noteq> Inr () \<Longrightarrow> log = []"
  using assms
  by (auto simp: init_winsock_def connect_def listen_def close_transport_def balanced_def split: option.splits if_splits)

end
