(* ===== verification/File_Dialog.thy ===== *)
theory File_Dialog
  imports Resources App
begin

text \<open>
  \<^verbatim>\<open>src/main.cpp\<close>, \<open>OpenWindowsFileDialog\<close>: the selection of files or of a folder with the dialog of Windows.  What the
  COM calls return is the record \<open>dialog_os\<close>; an interface pointer is a number, \<open>None\<close> a call that failed.  The
  theorems show that every object, buffer and the apartment are released exactly once whatever fails, and
  which paths are returned.
\<close>

subsection \<open>The code\<close>

datatype com_resource = Apartment | Com_Object nat | Task_Memory nat

record dialog_os =
  do_CoInitializeEx :: bool
  do_CoCreateInstance :: "nat option"
  do_GetOptions :: u32
  do_Show :: bool
  do_GetResults :: "nat option"
  do_GetCount :: u32
  do_GetItemAt :: "u32 \<Rightarrow> nat option"
  do_GetDisplayName :: "nat \<Rightarrow> (nat \<times> u16 list) option"
  do_WideCharToMultiByte :: "u16 list \<Rightarrow> string"

definition FOS_PICKFOLDERS :: u32 where "FOS_PICKFOLDERS = 0x20"
definition FOS_ALLOWMULTISELECT :: u32 where "FOS_ALLOWMULTISELECT = 0x200"

text \<open>One turn of the loop over the selected items.\<close>

definition dialog_item :: "dialog_os \<Rightarrow> u32 \<Rightarrow> com_resource os_call list \<times> string list" where
  "dialog_item os i =
     (case do_GetItemAt os i of
        None \<Rightarrow> ([], [])
      | Some pItem \<Rightarrow>
          let (log, outPath) =
            (case do_GetDisplayName os pItem of
               None \<Rightarrow> ([], [])
             | Some (pszFilePath, wpath) \<Rightarrow>
                 ([Acquire (Task_Memory pszFilePath), Release (Task_Memory pszFilePath)], [do_WideCharToMultiByte os wpath]))
          in (Acquire (Com_Object pItem) # log @ [Release (Com_Object pItem)], outPath))"

fun dialog_items :: "dialog_os \<Rightarrow> u32 list \<Rightarrow> com_resource os_call list \<times> string list" where
  "dialog_items os [] = ([], [])"
| "dialog_items os (i # is) =
     (let (log, outPath) = dialog_item os i; (log', outPaths) = dialog_items os is
      in (log @ log', outPath @ outPaths))"

text \<open>The results are the calls made, the options set if the dialog was created, and the paths.\<close>

definition OpenWindowsFileDialog :: "dialog_os \<Rightarrow> bool \<Rightarrow> com_resource os_call list \<times> u32 option \<times> string list" where
  "OpenWindowsFileDialog os selectFolder =
     (if \<not> do_CoInitializeEx os then ([], None, [])
      else case do_CoCreateInstance os of
        None \<Rightarrow> ([Acquire Apartment, Release Apartment], None, [])
      | Some pFileOpen \<Rightarrow>
          let dwOptions = do_GetOptions os OR (if selectFolder then FOS_PICKFOLDERS else FOS_ALLOWMULTISELECT);
              (log, outPaths) =
                (if do_Show os
                 then (case do_GetResults os of
                     None \<Rightarrow> ([], [])
                   | Some pItemArray \<Rightarrow>
                       let (log', outPaths) = dialog_items os (map word_of_nat [0..<unat (do_GetCount os)])
                       in (Acquire (Com_Object pItemArray) # log' @ [Release (Com_Object pItemArray)], outPaths))
                 else ([], []))
          in (Acquire Apartment # Acquire (Com_Object pFileOpen) # log @ [Release (Com_Object pFileOpen), Release Apartment],
              Some dwOptions, outPaths))"

text \<open>The browse button.\<close>

definition on_browse_file :: "dialog_os \<Rightarrow> ui \<Rightarrow> ui" where
  "on_browse_file os u = browse_file (snd (snd (OpenWindowsFileDialog os (ui_mode u = ''Receive'')))) u"

subsection \<open>Resources\<close>

lemma dialog_item_balanced: "balanced (fst (dialog_item os i))"
  by (auto simp: dialog_item_def balanced_def split: option.splits)

lemma dialog_items_balanced: "balanced (fst (dialog_items os is))"
proof (induction "is")
  case (Cons i "is")
  then show ?case using balanced_intros(2) [OF dialog_item_balanced [of os i] Cons.IH] by (simp add: case_prod_beta)
qed (simp add: balanced_intros)

text \<open>The path of the item at an index, when both calls succeed.\<close>

definition item_path :: "dialog_os \<Rightarrow> u32 \<Rightarrow> string option" where
  "item_path os i = Option.bind (do_GetItemAt os i)
     (\<lambda>p. map_option (\<lambda>(_, wpath). do_WideCharToMultiByte os wpath) (do_GetDisplayName os p))"

lemma dialog_items_paths: "snd (dialog_items os is) = List.map_filter (item_path os) is"
  by (induction "is") (auto simp: dialog_item_def item_path_def List.map_filter_simps split: prod.splits option.splits)

subsection \<open>Properties\<close>

text \<open>Whatever calls fail, the dialog releases every interface, every buffer and the apartment exactly once and
  nothing else, and returns the paths of the selected items, in order, less those whose item or name
  could not be had; a cancelled dialog returns none, and the displayed selection stays.  The receiver picks a
  folder, the sender any number of files.\<close>

theorem file_dialog_selects:
  shows "balanced (fst (OpenWindowsFileDialog os folder))"
    and "snd (snd (OpenWindowsFileDialog os folder)) =
      (if do_CoInitializeEx os \<and> do_CoCreateInstance os \<noteq> None \<and> do_Show os \<and> do_GetResults os \<noteq> None
       then List.map_filter (item_path os) (map word_of_nat [0..<unat (do_GetCount os)]) else [])"
    and "\<not> do_Show os \<Longrightarrow> on_browse_file os u = u"
proof -
  let ?is = "map word_of_nat [0..<unat (do_GetCount os)]"
  obtain log paths where d: "dialog_items os ?is = (log, paths)" by (rule prod.exhaust)
  have b: "balanced log" and p: "paths = List.map_filter (item_path os) ?is"
    using dialog_items_balanced [of os ?is] dialog_items_paths [of os ?is] by (simp_all add: d)
  show "balanced (fst (OpenWindowsFileDialog os folder))"
    using b by (auto simp: OpenWindowsFileDialog_def d Let_def balanced_def replay_append split: option.splits)
  show paths: "snd (snd (OpenWindowsFileDialog os folder)) =
      (if do_CoInitializeEx os \<and> do_CoCreateInstance os \<noteq> None \<and> do_Show os \<and> do_GetResults os \<noteq> None
       then List.map_filter (item_path os) ?is else [])" for folder
    by (auto simp: OpenWindowsFileDialog_def d p Let_def split: option.splits)
  show "\<not> do_Show os \<Longrightarrow> on_browse_file os u = u"
    by (simp add: on_browse_file_def paths browse_file_def)
qed

end
