(* ===== verification/Spec2Isabelle.thy ===== *)
theory Spec2Isabelle
  imports Prelude Strings Hasher Chunker Manifest Compressor Crypto Protocol Thread_Pool
    Kcp_Base Kcp_Recv Kcp_Send Kcp_Input Kcp_Flush Kcp_Endpoint Kcp_Link
    Kcp_Control Kcp_Wire Kcp_Effects Kcp_Liveness Transport
    File_Mapper Metrics Discovery Stun Session Session_Transfer Session_Handshake File_Transfer Full_Stack App
    Kcp_Queue Kcp_Memory Kcp_Pointers Kcp_Machine Resources Transport_Lifetime File_Dialog
begin

text \<open>
  Sxaint is a program that sends files between two Windows PCs over UDP.  This library models its C++ code and the
  copy of KCP it is built on, and proves what a transfer guarantees.  Names of files are relative to the
  repository; \<^verbatim>\<open>src/\<close>, \<^verbatim>\<open>include/\<close> and \<^verbatim>\<open>kcp-2.1.1/\<close> are its directories.

  \<^bold>\<open>The program.\<close>  The start button (\<^verbatim>\<open>src/main.cpp\<close>) starts a thread that sends a queue of files or receives files in a
  loop.  Each file is one \<open>Session\<close> (\<^verbatim>\<open>src/net/session.cpp\<close>) at both ends: the sender maps the file, sends a
  handshake with the PIN, waits for the acknowledgement, cuts the file into chunks of 2 MiB, and lets its thread pool
  compress, encrypt and send them; the receiver checks the PIN, creates and maps the target file, and
  lets its pool decrypt, decompress, check and write every chunk that arrives.  Messages travel as
  length-prefixed frames on four KCP streams (\<^verbatim>\<open>src/net/transport.cpp\<close>); KCP (\<^verbatim>\<open>kcp-2.1.1/ikcp.c\<close>) makes each a reliable
  ordered stream over UDP.  Peers are found by broadcast (\<^verbatim>\<open>src/net/discovery.cpp\<close>) or the public address by
  STUN (\<^verbatim>\<open>src/net/stun.cpp\<close>).

  \<^bold>\<open>Conventions.\<close>  A C++ integer is a word of its width, so that conversions and sums wrap as in the code; an \<open>int\<close> is an
  integer where the code does not overflow it, and is brought back to 32 bits (\<open>i32\<close>, \<open>int_length\<close>) where it can: signed overflow,
  which C leaves undefined, wraps as with the compilers in use.  Names and paths are strings in UTF-8; whether Windows can convert a
  name to UTF-16 and to the ANSI code page and back is an argument (\<open>ho_converts\<close>), and a conversion that succeeds keeps the name.  A function that may throw, index outside a buffer, divide
  by zero or break the precondition of a library call has the type \<open>result\<close>, with these failures
  on the left.  A class is a record of its members, a method a function from the record to the new record.
  Threads are program counters and a relation between states; what the operating system, a library
  or a clock returns is an argument.  A loop over a shrinking buffer is a recursion with its termination proof; a pointer loop is a
  \<open>partial_function\<close> whose value \<open>None\<close> is not returning, and is proved to return.

  \<^bold>\<open>Foundations.\<close>
  \<^item> \<open>Prelude\<close>: widths, \<open>result\<close>, the little-endian image of an integer, and two interfaces as locales:
    \<open>byte_codec\<close> (an encoder, its decoder, and what follows for concatenated fields), interpreted for the integers
    and for the three packed messages, and \<open>invariant_system\<close> (a step relation with an invariant),
    interpreted for the KCP link, the control block, the receiver's pool and the thread pool.
  \<^item> \<open>Strings\<close>: \<open>std::to_string\<close>, \<open>std::getline\<close>, paths, C strings in fixed fields.
  \<^item> \<open>Resources\<close>: logs of acquired and released resources.

  \<^bold>\<open>Core\<close> (\<^verbatim>\<open>src/core\<close>).
  \<^item> \<open>Hasher\<close> (\<^verbatim>\<open>hasher.cpp\<close>): the table-driven CRC-32 equals division by the reflected polynomial, detects
    every change of up to four consecutive bytes; \<open>combine_crc32\<close> does not combine.
  \<^item> \<open>Chunker\<close> (\<^verbatim>\<open>chunker.cpp\<close>): the slices are a partition of the file.
  \<^item> \<open>Compressor\<close> (\<^verbatim>\<open>compressor.cpp\<close>): the choice of a strategy, and compression undone by decompression.
  \<^item> \<open>Crypto\<close> (\<^verbatim>\<open>crypto.cpp\<close>): the order of the OpenSSL calls with their error paths; sealing is undone by opening.
  \<^item> \<open>Manifest\<close> (\<^verbatim>\<open>manifest.cpp\<close>): bit field and file format round trips; \<open>load\<close> never succeeds.
  \<^item> \<open>File_Mapper\<close> (\<^verbatim>\<open>file_mapper.cpp\<close>): every handle and view is released once, whatever fails.
  \<^item> \<open>Metrics\<close> (\<^verbatim>\<open>metrics.cpp\<close>): progress, speed and the progress line, over the reals.
  \<^item> \<open>Thread_Pool\<close> (\<^verbatim>\<open>thread_pool.cpp\<close>): workers, \<open>submit\<close> and \<open>shutdown\<close> as interleaved atomic steps; no task is lost or run
    twice and no wake-up is lost before the shutdown, which can deadlock and drop tasks.

  \<^bold>\<open>KCP\<close> (\<^verbatim>\<open>ikcp.c\<close>, \<^verbatim>\<open>ikcp.h\<close>).
  \<^item> \<open>Kcp_Base\<close>: constants, segments, the control block and its configuration.  \<open>Kcp_Recv\<close>, \<open>Kcp_Send\<close>, \<open>Kcp_Input\<close> and
    \<open>Kcp_Flush\<close>: the functions of \<^verbatim>\<open>ikcp.c\<close>, the queues as lists, each with its functional behaviour.
  \<^item> \<open>Kcp_Endpoint\<close>: the invariant of one endpoint with respect to everything sent in both directions, and its
    preservation by every operation.  \<open>Kcp_Link\<close>: two endpoints and a network that loses, repeats, delays and
    reorders datagrams; what is delivered is a prefix of what was sent, an idle sender means that all was
    delivered, datagrams fit the MTU.
  \<^item> \<open>Kcp_Wire\<close>, \<open>Kcp_Effects\<close>, \<open>Kcp_Liveness\<close>: what a flush emits and what taking it in changes; from every
    reachable state the connection can still finish.
  \<^item> \<open>Kcp_Control\<close>: configuration and timer bounds that no input, forged datagrams included, can break.
  \<^item> \<open>Kcp_Queue\<close>, \<open>Kcp_Memory\<close>, \<open>Kcp_Pointers\<close>: the doubly linked queues of \<^verbatim>\<open>ikcp.h\<close> on a memory of addresses, and the pointer code
    of \<^verbatim>\<open>ikcp.c\<close> on it.  \<open>represents R m a k K\<close> says that the memory \<open>m\<close> holds, at the addresses \<open>a\<close>, the control
    block \<open>K\<close> of the list model, and that the allocated blocks are exactly its own and the blocks \<open>R\<close> of nobody.
    Each pointer function is shown to return, to touch no freed segment, to
    compute what the list function computes and to keep \<open>represents\<close>.  \<open>Kcp_Machine\<close> puts them together: the processing of a
    datagram, flush and update, and a control block that serves any sequence of calls and leaks nothing; so the theorems on
    lists hold of the pointer code.

  \<^bold>\<open>Network\<close> (\<^verbatim>\<open>src/net\<close>).
  \<^item> \<open>Transport\<close> (\<^verbatim>\<open>transport.cpp\<close>): sending refines KCP sends, the receive loop refines KCP receives and hands the messages
    over in order, datagrams reach their stream; a length field near \<open>2\<^sup>3\<^sup>2\<close> wraps.  \<open>Transport_Lifetime\<close>: opening the streams,
    \<open>connect\<close> and \<open>listen\<close> with their failures, and the destructor, which frees every block of the streams once.
  \<^item> \<open>Protocol\<close> (\<^verbatim>\<open>include/net/protocol.h\<close>): the packed messages.
  \<^item> \<open>Session\<close> (\<^verbatim>\<open>session.cpp\<close>): \<open>sendFile\<close> in the pieces between its waits, \<open>recvFile\<close>, the handling of messages, and
    \<open>processChunk\<close>, at once and as atomic steps.  \<open>Session_Handshake\<close>: PIN, file name and where it leads, acknowledgement.
    \<open>Session_Transfer\<close>: the receiver's pool under every interleaving.
  \<^item> \<open>Discovery\<close> (\<^verbatim>\<open>discovery.cpp\<close>) and \<open>Stun\<close> (\<^verbatim>\<open>stun.cpp\<close>).

  \<^bold>\<open>Compositions.\<close>  \<open>File_Transfer\<close>: both sessions, from the handshake to the completed file, with messages in any order.
  \<open>Full_Stack\<close>: the same over the four KCP streams and the network of \<open>Kcp_Link\<close>.  \<open>App\<close> and \<open>File_Dialog\<close> (\<^verbatim>\<open>src/main.cpp\<close>): the
  history, the dialogs, the handlers of the window and the loops of the two threads.

  \<^bold>\<open>Bounds.\<close>  A direction of a KCP link is followed for \<open>2\<^sup>3\<^sup>0\<close> segments, half of the range in which \<open>_itimediff\<close> orders
  sequence numbers.  The guard of a send in \<open>Kcp_Link\<close> counts one segment per byte, which is safe for any
  fragmentation.  A message put on a stream needs \<open>4 + length m < 2\<^sup>3\<^sup>1\<close> because \<open>total_size\<close> is an \<open>int\<close>, and
  the \<open>2\<^sup>3\<^sup>0\<close> sequence numbers bound it by 1 GiB, the receive loop frames
  whose \<open>4 + frameLength\<close> does not wrap; the messages of a transfer are far smaller (a chunk of 2097152 bytes, its compression bound and
  64 bytes).  A transfer needs its number of chunks plus 7 below \<open>2\<^sup>3\<^sup>2\<close>, the range of \<open>total_chunks\<close> and of the rounding in the bit
  field.  The pointer model of \<open>ikcp_send\<close> needs \<open>IKCP_WND_RCV\<close> = 128 free blocks, as a send makes at most
  127 fragments and one extension; with fewer the allocator returns \<open>NULL\<close>, which the definition covers.  In a sequence of calls the allocator is asked for
  that many blocks, or as many as a datagram has bytes, and takes back those that were not needed.  The lists given to
  \<open>broadcast_loop\<close>, \<open>listen_run\<close>, \<open>send_queue\<close> and \<open>receive_loop\<close> stand for what happens during the loop and are of any length.
  There is no other fuel.

  \<^bold>\<open>Environment.\<close>  Third-party code is a parameter.  \<open>lz4_lawful\<close>: the documented contract of LZ4 (a result within the bound, undone
  by decompression).  \<open>gcm_lawful\<close>: AES-GCM decrypts exactly what was sealed, for lengths that are an \<open>int\<close>; the calls of OpenSSL around it succeed or fail
  as given.  \<open>sort_lawful\<close>: what the standard says of \<open>std::sort\<close> for a strict weak order.  SHA-256 is a function with 32-byte values.  The file system is the set of names that exist, and for every path the results
  of the Win32 calls on it.  \<open>sendto\<close> is a function of the datagram.  \<open>fmt\<close> and \<open>std::sort\<close> are arguments.
  Each theorem with such a hypothesis has a witness with concrete libraries.

  \<^bold>\<open>Not modelled.\<close>  \<open>ikcp_log\<close>, \<open>ikcp_qprint\<close> and \<open>spdlog\<close> (output only).  \<open>ikcp_allocator\<close>, \<open>ikcp_setoutput\<close> and \<open>ikcp_setcc\<close>: the program
  installs no allocator and no congestion plug-in, so \<open>ccops\<close> is null in the branches of \<open>ikcp.c\<close>.  The loop of
  \<open>ikcp_check\<close>, which only reads the send buffer, is on lists only.  The asserts of \<^verbatim>\<open>ikcp.c\<close> are left out, as in a release build.  Sleeping and polling (\<open>handshake_acked_\<close>, \<open>trans_complete_\<close>, \<open>chunks_sent_\<close>): the code before and after each wait
  is modelled, the conditions are the members they read.  The mutexes around the control blocks: a KCP call is atomic.
  The Slint window (\<^verbatim>\<open>UI/appwindow.slint\<close>) with its progress display and event loop.  The KCP test driver (\<^verbatim>\<open>kcp-2.1.1/test.cpp\<close>), which is
  not part of the program.
\<close>

end
